(* ===== verification/Prelude.thy ===== *)
theory Prelude
  imports Complex_Main "HOL-Library.Word"
begin

text \<open>
  The vocabulary shared by every component of the ShunyaKV development: the names of the
  machine integers and strings the C++ code uses, the positions of an intrusive list
  (\<open>begin\<close>, \<open>end\<close> and \<open>std::next\<close>), the first position of a byte in a
  string, and the generic facts about them.

  Strings (\<open>seastar::sstring\<close>, \<open>std::string\<close>, \<open>std::string_view\<close>) are byte
  lists; sizes and positions in them (\<open>size_t\<close>) are natural numbers. Counters and
  values whose wrap-around is observable keep their width as machine words.
\<close>

type_synonym u8 = "8 word"
type_synonym u16 = "16 word"
type_synonym u32 = "32 word"
type_synonym u64 = "64 word"
type_synonym sstring = string

text \<open>The address of an entry; \<open>std::unique_ptr<ttl::Entry>\<close> is such an address or null.\<close>

type_synonym addr = nat

text \<open>
  A \<open>double\<close> is the rational it denotes. Every floating-point operation of the code is
  the exact operation followed by a rounding function that the definitions take as an
  argument; infinities and NaN are not modelled.
\<close>

type_synonym double = rat

named_theorems iter_simps \<open>facts about positions of intrusive lists\<close>

subsection \<open>Positions of an intrusive list\<close>

text \<open>
  An iterator of a \<open>boost::intrusive::list\<close> is the address of the node it points at,
  or \<open>None\<close> for \<open>end()\<close>.
\<close>

fun begin_it :: "'a list \<Rightarrow> 'a option" where
  "begin_it [] = None"
| "begin_it (x # xs) = Some x"

fun next_in :: "'a list \<Rightarrow> 'a \<Rightarrow> 'a option" where
  "next_in [] a = None"
| "next_in (x # xs) a = (if x = a then begin_it xs else next_in xs a)"

lemma begin_it_None [simp]: "begin_it xs = None \<longleftrightarrow> xs = []"
  by (cases xs) auto

lemma begin_it_in: "begin_it xs = Some a \<Longrightarrow> a \<in> set xs"
  by (cases xs) auto

lemma begin_it_hd: "xs \<noteq> [] \<Longrightarrow> begin_it xs = Some (hd xs)"
  by (cases xs) auto

lemma next_in_mem: "next_in xs a = Some b \<Longrightarrow> b \<in> set xs"
  by (induction xs) (auto split: if_splits dest: begin_it_in)

lemma next_in_neq: "distinct xs \<Longrightarrow> next_in xs a = Some b \<Longrightarrow> b \<noteq> a"
  by (induction xs) (auto split: if_splits dest: begin_it_in next_in_mem)

lemma next_in_None:
  "distinct xs \<Longrightarrow> a \<in> set xs \<Longrightarrow> next_in xs a = None \<Longrightarrow> a = last xs"
  by (induction xs) (auto split: if_splits)

lemma next_in_append:
  "distinct (ps @ a # rs) \<Longrightarrow> next_in (ps @ a # rs) a = begin_it rs"
  by (induction ps) auto

lemma begin_it_remove1_last:
  "distinct xs \<Longrightarrow> a \<in> set xs \<Longrightarrow> next_in xs a = None \<Longrightarrow> remove1 a xs \<noteq> [] \<Longrightarrow>
    \<exists>b. begin_it xs = Some b \<and> b \<noteq> a"
proof (cases xs)
  case (Cons x ys)
  assume "distinct xs" "a \<in> set xs" "next_in xs a = None" "remove1 a xs \<noteq> []"
  with Cons show ?thesis by (cases "x = a") auto
qed simp

lemma length_remove1_in: "a \<in> set xs \<Longrightarrow> length xs = Suc (length (remove1 a xs))"
  by (induction xs) auto

lemma length_filter_notin:
  assumes "distinct xs" "distinct vs" "set vs \<subseteq> set xs"
  shows "length (filter (\<lambda>x. x \<notin> set vs) xs) + length vs = length xs"
proof -
  have "length (filter (\<lambda>x. x \<in> set vs) xs) = card (set vs)"
    using assms by (subst distinct_card [symmetric]) (auto intro: arg_cong [where f = card])
  then show ?thesis
    using assms(2) sum_length_filter_compl [of "\<lambda>x. x \<in> set vs" xs] by (simp add: distinct_card)
qed

lemma remove1_filter: "distinct xs \<Longrightarrow> remove1 a xs = filter (\<lambda>x. x \<noteq> a) xs"
  by (simp add: distinct_remove1_removeAll removeAll_filter_not_eq) (metis (no_types, opaque_lifting))

subsection \<open>Lists with a hand\<close>

text \<open>
  Both eviction lists of the program keep a hand: an iterator that must never be left
  pointing at an erased node. \<open>hand_in\<close> says that the hand is \<open>end()\<close> or a node of
  the list; \<open>hand_after_erase\<close> is where it goes when the node under it is erased.
\<close>

definition hand_in :: "'a list \<Rightarrow> 'a option \<Rightarrow> bool" where
  "hand_in xs h \<longleftrightarrow> distinct xs \<and> (\<forall>a. h = Some a \<longrightarrow> a \<in> set xs)"

definition hand_after_erase :: "'a list \<Rightarrow> 'a option \<Rightarrow> 'a \<Rightarrow> 'a option" where
  "hand_after_erase xs h a =
     (if h = Some a then (case next_in xs a of None \<Rightarrow> begin_it xs | Some b \<Rightarrow> Some b) else h)"

lemma hand_in_after_erase:
  assumes "hand_in xs h" "a \<in> set xs" "remove1 a xs \<noteq> []"
  shows "hand_in (remove1 a xs) (hand_after_erase xs h a)"
proof (cases "h = Some a")
  case False
  with assms show ?thesis by (auto simp: hand_in_def hand_after_erase_def)
next
  case True
  from assms have d: "distinct xs" by (simp add: hand_in_def)
  show ?thesis
  proof (cases "next_in xs a")
    case None
    with begin_it_remove1_last [OF d assms(2) None assms(3)] True d show ?thesis
      by (auto simp: hand_in_def hand_after_erase_def dest: begin_it_in)
  next
    case (Some b)
    with True d show ?thesis
      by (auto simp: hand_in_def hand_after_erase_def dest: next_in_mem next_in_neq)
  qed
qed

lemma hand_after_erase_None:
  "a \<in> set xs \<Longrightarrow> hand_after_erase xs h a = None \<longleftrightarrow> h = None"
  by (cases xs) (auto simp: hand_after_erase_def split: option.splits)

text \<open>The interface of such a list: what erasing a node does to the nodes and to the hand.\<close>

locale hand_list =
  fixes elems :: "'s \<Rightarrow> 'a list"
    and hand :: "'s \<Rightarrow> 'a option"
    and erase :: "'a \<Rightarrow> 's \<Rightarrow> 's"
  assumes elems_erase: "elems (erase a s) = remove1 a (elems s)"
    and hand_erase: "a \<in> set (elems s) \<Longrightarrow> hand (erase a s) =
          (if remove1 a (elems s) = [] then None else hand_after_erase (elems s) (hand s) a)"
    and hand_frame: "a \<notin> set (elems s) \<Longrightarrow> hand (erase a s) = hand s"
begin

lemma erase_hand_in:
  assumes "hand_in (elems s) (hand s)"
  shows "hand_in (elems (erase a s)) (hand (erase a s))"
proof (cases "a \<in> set (elems s)")
  case False
  then show ?thesis using assms by (simp add: elems_erase hand_frame remove1_idem)
next
  case True
  with assms hand_in_after_erase [OF assms True] show ?thesis
    by (auto simp: elems_erase hand_erase) (simp add: hand_in_def)
qed

lemma erase_all_elems:
  "distinct (elems s) \<Longrightarrow> elems (fold erase as s) = filter (\<lambda>x. x \<notin> set as) (elems s)"
proof (induction as arbitrary: s)
  case Nil
  then show ?case by simp
next
  case (Cons a as)
  have "elems (fold erase as (erase a s)) = filter (\<lambda>x. x \<notin> set as) (elems (erase a s))"
    using Cons.prems by (intro Cons.IH) (simp add: elems_erase)
  then show ?case using Cons.prems
    by (simp add: elems_erase remove1_filter conj_commute)
qed

lemma erase_all_hand_in:
  "hand_in (elems s) (hand s) \<Longrightarrow> hand_in (elems (fold erase as s)) (hand (fold erase as s))"
  by (induction as arbitrary: s) (auto intro: erase_hand_in)

end

subsection \<open>Machine words\<close>

lemma unat_u64_less: "unat (w :: u64) < 18446744073709551616"
proof -
  have "unat w < 2 ^ LENGTH(64)" by (rule unsigned_less)
  then show ?thesis by simp
qed

lemma unat_of_nat_u64: "n < 18446744073709551616 \<Longrightarrow> unat (of_nat n :: u64) = n"
  by (simp add: unat_of_nat)

lemma of_nat_u64_zero:
  "n < 18446744073709551616 \<Longrightarrow> (of_nat n :: u64) = 0 \<longleftrightarrow> n = 0"
  using unat_of_nat_u64 [of n] by (cases "n = 0") auto

lemmas [iter_simps] = begin_it_in begin_it_hd next_in_mem next_in_neq

lemma of_nat_unat_id: "of_nat (unat w) = (w :: 'a :: len word)"
  by simp

end
