(* ===== verification/Entry.thy ===== *)
theory Entry
  imports Prelude
begin

text \<open>
  The cache entry of \<open>include/ttl/entry.hh\<close>, the memory that entries live in, the
  node type of the expiry queue (\<open>include/ttl/heap_node.hh\<close>) and the expiry policies of
  \<open>include/ttl/ttl_policy.hh\<close>.

  The two intrusive hooks of an entry are not fields here: a hook is linked exactly when
  the entry's address is an element of the list the hook belongs to.
\<close>

subsection \<open>Entries\<close>

datatype PoolType = Probation | Sanctuary

record entry =
  e_value :: sstring
  e_key :: sstring
  e_expires_at :: u64
  e_ver :: u32
  e_heat :: u8
  e_last_access :: u64
  e_visited :: bool
  e_pool_type :: PoolType
  e_in_use :: bool

definition new_entry :: entry where
  "new_entry = \<lparr>e_value = [], e_key = [], e_expires_at = 0, e_ver = 0, e_heat = 0,
     e_last_access = 0, e_visited = False, e_pool_type = Probation, e_in_use = False\<rparr>"

text \<open>\<open>Entry::update_from\<close>: only the value, and the deadline and version on request.\<close>

definition update_from :: "entry \<Rightarrow> entry \<Rightarrow> bool \<Rightarrow> entry" where
  "update_from this updated update_ttl =
     (let this1 = this\<lparr>e_value := e_value updated\<rparr>
      in if update_ttl
         then this1\<lparr>e_expires_at := e_expires_at updated, e_ver := e_ver this1 + 1\<rparr>
         else this1)"

text \<open>The expiry test of the eviction policy: a deadline of 0 means "never".\<close>

definition is_expired :: "u64 \<Rightarrow> u64 \<Rightarrow> bool" where
  "is_expired now expires_at \<longleftrightarrow> expires_at \<noteq> 0 \<and> expires_at \<le> now"

subsection \<open>The memory of a shard\<close>

text \<open>
  \<open>live\<close> holds the addresses of the entries that exist, \<open>next_addr\<close> the address
  the next allocation returns (a destroyed entry's address is never handed out again).
  \<open>fault\<close> records that the run has reached a step the C++ code gives no meaning to:
  an access to a destroyed entry, a dereference of \<open>end()\<close> or of the front of an empty
  queue, the destruction or second insertion of an entry that is still linked (which the
  \<open>safe_link\<close> hooks assert against). Once set it stays set.
\<close>

record memory =
  heap :: "addr \<Rightarrow> entry"
  live :: "addr set"
  next_addr :: addr
  fault :: bool

definition raise_if :: "bool \<Rightarrow> 'z memory_scheme \<Rightarrow> 'z memory_scheme" where
  "raise_if c s = s\<lparr>fault := fault s \<or> c\<rparr>"

definition check_live :: "addr \<Rightarrow> 'z memory_scheme \<Rightarrow> 'z memory_scheme" where
  "check_live a s = raise_if (a \<notin> live s) s"

definition upd_entry :: "addr \<Rightarrow> (entry \<Rightarrow> entry) \<Rightarrow> 'z memory_scheme \<Rightarrow> 'z memory_scheme" where
  "upd_entry a f s = (check_live a s)\<lparr>heap := (heap s)(a := f (heap s a))\<rparr>"

text \<open>\<open>std::make_unique<ttl::Entry>()\<close> and the destructor.\<close>

definition make_entry :: "'z memory_scheme \<Rightarrow> addr \<times> 'z memory_scheme" where
  "make_entry s =
     (next_addr s,
      s\<lparr>heap := (heap s)(next_addr s := new_entry), live := insert (next_addr s) (live s),
        next_addr := Suc (next_addr s)\<rparr>)"

definition destroy_entry :: "addr \<Rightarrow> 'z memory_scheme \<Rightarrow> 'z memory_scheme" where
  "destroy_entry a s = (check_live a s)\<lparr>live := live s - {a}\<rparr>"

lemma raise_if_sel [simp]:
  "heap (raise_if c s) = heap s" "live (raise_if c s) = live s"
  "next_addr (raise_if c s) = next_addr s" "fault (raise_if c s) \<longleftrightarrow> fault s \<or> c"
  by (simp_all add: raise_if_def)

lemma check_live_sel [simp]:
  "heap (check_live a s) = heap s" "live (check_live a s) = live s"
  "next_addr (check_live a s) = next_addr s"
  "fault (check_live a s) \<longleftrightarrow> fault s \<or> a \<notin> live s"
  by (simp_all add: check_live_def)

lemma raise_if_False [simp]: "raise_if False s = s"
  by (simp add: raise_if_def)

lemma check_live_id: "a \<in> live s \<Longrightarrow> check_live a s = s"
  by (simp add: check_live_def)

lemma upd_entry_live: "a \<in> live s \<Longrightarrow> upd_entry a f s = s\<lparr>heap := (heap s)(a := f (heap s a))\<rparr>"
  by (simp add: upd_entry_def check_live_id)

lemma upd_entry_sel [simp]:
  "heap (upd_entry a f s) = (heap s)(a := f (heap s a))" "live (upd_entry a f s) = live s"
  "next_addr (upd_entry a f s) = next_addr s"
  "fault (upd_entry a f s) \<longleftrightarrow> fault s \<or> a \<notin> live s"
  by (simp_all add: upd_entry_def)

subsection \<open>Nodes of the expiry queue\<close>

record heap_node =
  hn_key :: sstring
  hn_expires_at :: u64
  hn_ver :: u32

text \<open>\<open>MinExpiry\<close>: the comparator that puts the earliest deadline on top.\<close>

definition MinExpiry :: "heap_node \<Rightarrow> heap_node \<Rightarrow> bool" where
  "MinExpiry a b \<longleftrightarrow> hn_expires_at b < hn_expires_at a"

subsection \<open>Expiry policies\<close>

datatype ttl_mode = Fixed | Sliding | TieredExponential

record ttl_policy =
  tp_mode :: ttl_mode
  tp_base_ttl :: u64
  tp_max_ttl :: u64
  tp_idle_window :: u64
  tp_heat_max :: u8

definition default_ttl_policy :: ttl_policy where
  "default_ttl_policy = \<lparr>tp_mode = Sliding, tp_base_ttl = 5000, tp_max_ttl = 600000,
     tp_idle_window = 30000, tp_heat_max = 10\<rparr>"

text \<open>The doubling loop \<open>while (shift-- > 0)\<close>.\<close>

fun double_ttl :: "u64 \<Rightarrow> nat \<Rightarrow> u64 \<Rightarrow> u64" where
  "double_ttl max_ttl 0 ttl = ttl"
| "double_ttl max_ttl (Suc shift) ttl =
     (if max_ttl div 2 \<le> ttl then max_ttl else double_ttl max_ttl shift (push_bit 1 ttl))"

definition idle_reset :: "ttl_policy \<Rightarrow> u64 \<Rightarrow> entry \<Rightarrow> entry" where
  "idle_reset p now e =
     (if tp_idle_window p \<noteq> 0 \<and> e_last_access e \<noteq> 0
         \<and> tp_idle_window p < now - e_last_access e
      then e\<lparr>e_heat := 0\<rparr> else e)"

definition heat_up :: "ttl_policy \<Rightarrow> entry \<Rightarrow> entry" where
  "heat_up p e = (if e_heat e < tp_heat_max p then e\<lparr>e_heat := e_heat e + 1\<rparr> else e)"

definition compute_new_expiry :: "ttl_policy \<Rightarrow> u64 \<Rightarrow> entry \<Rightarrow> u64 \<times> entry" where
  "compute_new_expiry p now e =
     (case tp_mode p of
        Fixed \<Rightarrow> (now, e)
      | Sliding \<Rightarrow> (now + tp_base_ttl p, e\<lparr>e_last_access := now\<rparr>)
      | TieredExponential \<Rightarrow>
          (let e1 = heat_up p (idle_reset p now e);
               ttl = double_ttl (tp_max_ttl p) (unat (e_heat e1)) (tp_base_ttl p);
               ttl = min ttl (tp_max_ttl p)
           in (now + ttl, e1\<lparr>e_last_access := now\<rparr>)))"

text \<open>
  The doubling loop never wraps around, and for an even ceiling it computes the clamped
  power that the mode's comment announces.
\<close>

lemma double_ttl_eq:
  assumes "unat mx = 2 * k"
  shows "unat (min (double_ttl mx n t) mx) = min (unat t * 2 ^ n) (unat mx)"
proof (induction n arbitrary: t)
  case 0
  then show ?case by (simp add: min_def word_le_nat_alt)
next
  case (Suc n)
  have half: "unat (mx div 2) = k"
    using assms by (simp add: unat_div)
  show ?case
  proof (cases "mx div 2 \<le> t")
    case True
    then have "k \<le> unat t" using half by (simp add: word_le_nat_alt)
    then have "2 * k \<le> unat t * 2 ^ Suc n"
      using mult_le_mono [of k "unat t" 1 "2 ^ n"] by simp
    with True assms show ?thesis by simp
  next
    case False
    then have lt: "unat t < k" using half by (simp add: word_le_nat_alt)
    have "2 * k < 2 ^ 64" using assms unat_u64_less [of mx] by simp
    with lt have "unat (push_bit 1 t) = 2 * unat t"
      by (simp add: push_bit_eq_mult unat_word_ariths)
    with False Suc.IH [of "push_bit 1 t"] show ?thesis
      by (simp add: algebra_simps)
  qed
qed



end
