(* ===== verification/Sieve.thy ===== *)
theory Sieve
  imports Entry
begin

text \<open>
  The SIEVE eviction policy of \<open>include/eviction/sieve_policy.hh\<close> and
  \<open>src/eviction/sieve_policy.cc\<close>, with the eviction configuration of
  \<open>include/eviction/eviction_config.hh\<close>. The policy's state is the intrusive list of
  sanctuary entries and the hand that walks it. The lemmas show that the hand always points
  into the list, that one call of \<open>evict\<close> removes exactly the first entries from the
  hand onwards that are expired or unvisited, up to the budget, and that two calls with no
  hit in between always find a victim.
\<close>

subsection \<open>Configuration\<close>

datatype EvictionPolicy = SievePolicyKind

datatype EvictionType = soft | hard

record EvictConfig =
  ec_trigger :: double
  ec_stop :: double
  ec_budget :: u64
  ec_prob_budget :: u64
  ec_throttle :: bool

record EvictionConfig =
  evc_policy :: EvictionPolicy
  evc_soft :: EvictConfig
  evc_prob_evict :: EvictConfig

subsection \<open>The policy\<close>

record sieve_state = memory +
  sieveList :: "addr list"
  sieve_hand :: "addr option"
  evCfg :: EvictionConfig
  evictParams :: EvictConfig

definition on_insert :: "addr \<Rightarrow> 'z sieve_state_scheme \<Rightarrow> 'z sieve_state_scheme" where
  "on_insert a s =
     (if a \<in> set (sieveList s) then s
      else
        let s1 = upd_entry a (\<lambda>e. e\<lparr>e_visited := True, e_pool_type := Sanctuary\<rparr>) s;
            s2 = s1\<lparr>sieveList := sieveList s1 @ [a]\<rparr>
        in if sieve_hand s2 = None then s2\<lparr>sieve_hand := begin_it (sieveList s2)\<rparr> else s2)"

definition on_erase :: "addr \<Rightarrow> 'z sieve_state_scheme \<Rightarrow> 'z sieve_state_scheme" where
  "on_erase a s =
     (if a \<notin> set (sieveList s) then s
      else
        let h1 = (if sieve_hand s = Some a
                  then let n = next_in (sieveList s) a
                       in if n = None \<and> sieveList s \<noteq> [] then begin_it (sieveList s) else n
                  else sieve_hand s);
            xs = remove1 a (sieveList s)
        in s\<lparr>sieveList := xs, sieve_hand := (if xs = [] then None else h1)\<rparr>)"

definition on_hit :: "addr \<Rightarrow> 'z sieve_state_scheme \<Rightarrow> 'z sieve_state_scheme" where
  "on_hit a s = upd_entry a (\<lambda>e. e\<lparr>e_visited := True\<rparr>) s"

definition set_eviction_type :: "EvictionType \<Rightarrow> 'z sieve_state_scheme \<Rightarrow> 'z sieve_state_scheme" where
  "set_eviction_type type s = s\<lparr>evictParams := evc_soft (evCfg s)\<rparr>"

definition sieve_size :: "'z sieve_state_scheme \<Rightarrow> nat" where
  "sieve_size s = length (sieveList s)"

definition sieve_empty :: "'z sieve_state_scheme \<Rightarrow> bool" where
  "sieve_empty s \<longleftrightarrow> sieveList s = []"

text \<open>
  The loop of \<open>evict\<close>. The list is kept split at the hand: \<open>pre\<close> are the nodes
  before it, the last list argument the nodes from the hand to \<open>end()\<close>, so the hand is
  the first of these and \<open>++hand_\<close> moves one node across. The loop only erases at the
  hand, and stops at \<open>end()\<close>. The yields of the loop are not steps of this definition.
\<close>

fun evict_loop ::
  "u64 \<Rightarrow> nat \<Rightarrow> nat \<Rightarrow> 'z memory_scheme \<Rightarrow> addr list \<Rightarrow> addr list \<Rightarrow> sstring list
   \<Rightarrow> 'z memory_scheme \<times> addr list \<times> addr list \<times> sstring list" where
  "evict_loop now budget evicted s pre [] victims = (s, pre, [], victims)"
| "evict_loop now budget evicted s pre (cur # rest) victims =
     (if \<not> evicted < budget then (s, pre, cur # rest, victims)
      else
        let s = check_live cur s in
        if is_expired now (e_expires_at (heap s cur)) \<or> \<not> e_visited (heap s cur)
        then
          let victims = victims @ [e_key (heap s cur)]
          in if pre @ rest = [] then (s, pre, rest, victims)
             else evict_loop now budget (Suc evicted) s pre rest victims
        else evict_loop now budget evicted
               (upd_entry cur (\<lambda>e. e\<lparr>e_visited := False\<rparr>) s) (pre @ [cur]) rest victims)"

definition evict :: "u64 \<Rightarrow> 'z sieve_state_scheme \<Rightarrow> sstring list \<times> 'z sieve_state_scheme" where
  "evict now s =
     (if sieveList s = [] then ([], s)
      else
        let h0 = (if sieve_hand s = None then begin_it (sieveList s) else sieve_hand s);
            before = (\<lambda>x. Some x \<noteq> h0);
            (s1, pre, rest, victims) =
              evict_loop now (unat (ec_budget (evictParams s))) 0 s
                (takeWhile before (sieveList s)) (dropWhile before (sieveList s)) [];
            xs = pre @ rest
        in (victims, s1\<lparr>sieveList := xs,
              sieve_hand := (if xs = [] then None
                             else if rest = [] then begin_it xs else begin_it rest)\<rparr>))"

lemma sieve_fields_memory [simp]:
  "sieveList (raise_if c s) = sieveList s" "sieve_hand (raise_if c s) = sieve_hand s"
  "evCfg (raise_if c s) = evCfg s" "evictParams (raise_if c s) = evictParams s"
  "sieveList (check_live a s) = sieveList s" "sieve_hand (check_live a s) = sieve_hand s"
  "evCfg (check_live a s) = evCfg s" "evictParams (check_live a s) = evictParams s"
  "sieveList (upd_entry a f s) = sieveList s" "sieve_hand (upd_entry a f s) = sieve_hand s"
  "evCfg (upd_entry a f s) = evCfg s" "evictParams (upd_entry a f s) = evictParams s"
  by (simp_all add: raise_if_def check_live_def upd_entry_def)

subsection \<open>The hand stays in the list\<close>

definition sieve_inv :: "'z sieve_state_scheme \<Rightarrow> bool" where
  "sieve_inv s \<longleftrightarrow> hand_in (sieveList s) (sieve_hand s)"

text \<open>The sanctuary list is a list with a hand whose erase operation is \<open>on_erase\<close>.\<close>

interpretation sieve: hand_list sieveList sieve_hand on_erase
proof unfold_locales
  fix a :: addr and s :: "'z sieve_state_scheme"
  show "sieveList (on_erase a s) = remove1 a (sieveList s)"
    by (auto simp: on_erase_def Let_def remove1_idem)
  show "sieve_hand (on_erase a s) = (if remove1 a (sieveList s) = [] then None
          else hand_after_erase (sieveList s) (sieve_hand s) a)" if "a \<in> set (sieveList s)"
    using that by (auto simp: on_erase_def Let_def hand_after_erase_def split: option.splits)
  show "sieve_hand (on_erase a s) = sieve_hand s" if "a \<notin> set (sieveList s)"
    using that by (simp add: on_erase_def)
qed

lemma on_insert_inv: "sieve_inv s \<Longrightarrow> sieve_inv (on_insert a s)"
  by (cases "sieveList s") (auto simp: sieve_inv_def hand_in_def on_insert_def Let_def)

lemma on_erase_inv:
  assumes "sieve_inv s"
  shows "sieve_inv (on_erase a s)"
  using assms sieve.erase_hand_in [of s a] sieve.hand_frame [of a s] sieve.hand_erase [of a s]
    hand_after_erase_None [of a "sieveList s" "sieve_hand s"]
  by (cases "a \<in> set (sieveList s)") (auto simp: sieve_inv_def sieve.elems_erase remove1_idem)

lemma on_hit_inv: "sieve_inv (on_hit a s) \<longleftrightarrow> sieve_inv s"
  by (simp add: sieve_inv_def on_hit_def)

subsection \<open>What one call of evict removes\<close>

definition evictable :: "u64 \<Rightarrow> (addr \<Rightarrow> entry) \<Rightarrow> addr \<Rightarrow> bool" where
  "evictable now h a \<longleftrightarrow> is_expired now (e_expires_at (h a)) \<or> \<not> e_visited (h a)"

definition clear_visited :: "addr set \<Rightarrow> (addr \<Rightarrow> entry) \<Rightarrow> addr \<Rightarrow> entry" where
  "clear_visited A h = (\<lambda>a. if a \<in> A then (h a)\<lparr>e_visited := False\<rparr> else h a)"

text \<open>
  The reference: walk a list and split it into the first \<open>k\<close> elements that satisfy the
  test, the elements passed over on the way, and the elements not reached.
\<close>

fun scan :: "('a \<Rightarrow> bool) \<Rightarrow> nat \<Rightarrow> 'a list \<Rightarrow> 'a list \<times> 'a list \<times> 'a list" where
  "scan ev k [] = ([], [], [])"
| "scan ev 0 (x # xs) = ([], [], x # xs)"
| "scan ev (Suc k) (x # xs) =
     (if ev x then (case scan ev k xs of (v, p, r) \<Rightarrow> (x # v, p, r))
      else (case scan ev (Suc k) xs of (v, p, r) \<Rightarrow> (v, x # p, r)))"

lemma scan_cong: "(\<And>x. x \<in> set xs \<Longrightarrow> ev x = ev' x) \<Longrightarrow> scan ev k xs = scan ev' k xs"
  by (induction ev k xs rule: scan.induct) auto

lemma scan_0 [simp]: "scan ev 0 xs = ([], [], xs)"
  by (cases xs) auto

lemma scan_victims: "fst (scan ev k xs) = take k (filter ev xs)"
  by (induction ev k xs rule: scan.induct) (auto split: prod.splits)

lemma scan_subset:
  "scan ev k xs = (v, p, r) \<Longrightarrow> set v \<subseteq> set xs \<and> set p \<subseteq> set xs \<and> set r \<subseteq> set xs"
  by (induction ev k xs arbitrary: v p r rule: scan.induct)
    (fastforce split: if_splits prod.splits)+

lemma scan_rest:
  "scan ev k xs = (v, p, r) \<Longrightarrow> distinct xs \<Longrightarrow> p @ r = filter (\<lambda>x. x \<notin> set v) xs"
proof (induction ev k xs arbitrary: v p r rule: scan.induct)
  case (3 ev k x xs)
  show ?case
  proof (cases "ev x")
    case True
    with "3.prems" obtain v' where *: "scan ev k xs = (v', p, r)" "v = x # v'"
      by (auto split: prod.splits)
    with "3.IH"(1) [OF True *(1)] "3.prems" show ?thesis
      by (auto intro!: filter_cong)
  next
    case False
    with "3.prems" obtain p' where *: "scan ev (Suc k) xs = (v, p', r)" "p = x # p'"
      by (auto split: prod.splits)
    with "3.IH"(2) [OF False *(1)] scan_subset [OF *(1)] "3.prems" show ?thesis by auto
  qed
qed auto

text \<open>An entry that is kept loses its mark; the rest of the scan does not see the difference.\<close>

lemma scan_after_keep:
  assumes "c \<in> live s" "c \<notin> set rest" "scan (evictable now (heap s)) k rest = (v, p, r)"
    and "s1 = upd_entry c (\<lambda>e. e\<lparr>e_visited := False\<rparr>) s"
  shows "scan (evictable now (heap s1)) k rest = (v, p, r)" "live s1 = live s"
    "s1\<lparr>heap := clear_visited (set p) (heap s1)\<rparr> = s\<lparr>heap := clear_visited (set (c # p)) (heap s)\<rparr>"
    "map (\<lambda>a. e_key (heap s1 a)) v = map (\<lambda>a. e_key (heap s a)) v"
proof -
  have s1: "s1 = s\<lparr>heap := (heap s)(c := (heap s c)\<lparr>e_visited := False\<rparr>)\<rparr>"
    using assms(1,4) by (simp add: upd_entry_live)
  have c: "c \<notin> set p" "c \<notin> set v" using assms(2) scan_subset [OF assms(3)] by auto
  show "scan (evictable now (heap s1)) k rest = (v, p, r)"
    using assms(2,3) by (subst scan_cong [where ev' = "evictable now (heap s)"]) (auto simp: evictable_def s1)
  show "live s1 = live s" by (simp add: s1)
  have "clear_visited (set p) (heap s1) = clear_visited (set (c # p)) (heap s)"
    using c by (auto simp: clear_visited_def s1)
  then show "s1\<lparr>heap := clear_visited (set p) (heap s1)\<rparr> = s\<lparr>heap := clear_visited (set (c # p)) (heap s)\<rparr>" by (simp add: s1)
  show "map (\<lambda>a. e_key (heap s1 a)) v = map (\<lambda>a. e_key (heap s a)) v" using c by (auto simp: s1)
qed

lemma evict_loop_scan:
  assumes "distinct (pre @ rest)" "set rest \<subseteq> live s" "n \<le> b"
    and "scan (evictable now (heap s)) (b - n) rest = (v, p, r)"
  shows "evict_loop now b n s pre rest vs =
    (s\<lparr>heap := clear_visited (set p) (heap s)\<rparr>, pre @ p, r,
     vs @ map (\<lambda>a. e_key (heap s a)) v)"
  using assms
proof (induction rest arbitrary: n s pre vs v p r)
  case Nil
  then show ?case by (simp add: clear_visited_def)
next
  case (Cons c rest)
  show ?case
  proof (cases "n < b")
    case False
    with Cons.prems show ?thesis by (auto simp: clear_visited_def)
  next
    case True
    then obtain k where k: "b - n = Suc k" "b - Suc n = k" by (metis Suc_diff_Suc)
    have lv: "check_live c s = s" using Cons.prems by (simp add: check_live_id)
    show ?thesis
    proof (cases "evictable now (heap s) c")
      case ev: True
      then obtain v' where v': "scan (evictable now (heap s)) k rest = (v', p, r)" "v = c # v'"
        using Cons.prems k by (auto split: prod.splits)
      have "evict_loop now b (Suc n) s pre rest (vs @ [e_key (heap s c)]) =
          (s\<lparr>heap := clear_visited (set p) (heap s)\<rparr>, pre @ p, r,
           (vs @ [e_key (heap s c)]) @ map (\<lambda>a. e_key (heap s a)) v')"
        using Cons.IH [of pre s "Suc n" v' p r] Cons.prems True k v' by simp
      with ev True lv v' show ?thesis
        by (cases "pre @ rest = []") (auto simp: evictable_def clear_visited_def)
    next
      case ev: False
      define s1 where "s1 = upd_entry c (\<lambda>e. e\<lparr>e_visited := False\<rparr>) s"
      obtain p' where p': "scan (evictable now (heap s)) (b - n) rest = (v, p', r)" "p = c # p'"
        using ev Cons.prems k by (auto split: prod.splits)
      have c: "c \<in> live s" "c \<notin> set rest" using Cons.prems by auto
      note k1 = scan_after_keep [OF c p'(1) s1_def]
      have "evict_loop now b n s1 (pre @ [c]) rest vs =
          (s1\<lparr>heap := clear_visited (set p') (heap s1)\<rparr>, (pre @ [c]) @ p', r, vs @ map (\<lambda>a. e_key (heap s1 a)) v)"
        using Cons.prems k1(1,2) by (intro Cons.IH) auto
      then show ?thesis
        using ev True lv p' k1(3,4) by (simp add: evictable_def s1_def [symmetric])
    qed
  qed
qed

text \<open>A call starts at the hand, or at the front of the list when the hand is \<open>end()\<close>.\<close>

definition start_hand :: "'z sieve_state_scheme \<Rightarrow> addr option" where
  "start_hand s = (if sieve_hand s = None then begin_it (sieveList s) else sieve_hand s)"

lemma start_hand_in:
  "sieve_inv s \<Longrightarrow> sieveList s \<noteq> [] \<Longrightarrow> \<exists>a \<in> set (sieveList s). start_hand s = Some a"
  by (cases "sieveList s"; cases "sieve_hand s") (auto simp: start_hand_def sieve_inv_def hand_in_def)

text \<open>
  The nodes from there to the end of the list, and the victims of a call: the first of
  them that can be evicted, at most \<open>budget\<close> many.
\<close>

definition from_hand :: "'z sieve_state_scheme \<Rightarrow> addr list" where
  "from_hand s = dropWhile (\<lambda>x. Some x \<noteq> start_hand s) (sieveList s)"

definition evict_victims :: "u64 \<Rightarrow> 'z sieve_state_scheme \<Rightarrow> addr list" where
  "evict_victims now s =
     take (unat (ec_budget (evictParams s))) (filter (evictable now (heap s)) (from_hand s))"

lemma from_hand_subset: "set (from_hand s) \<subseteq> set (sieveList s)"
  by (auto simp: from_hand_def dest: set_dropWhileD)

lemma from_hand_nonempty: "sieve_inv s \<Longrightarrow> sieveList s \<noteq> [] \<Longrightarrow> from_hand s \<noteq> []"
  using start_hand_in [of s] by (auto simp: from_hand_def)

lemma split_at_hand:
  "sieveList s = takeWhile (\<lambda>x. Some x \<noteq> start_hand s) (sieveList s) @ from_hand s"
  by (simp add: from_hand_def)

lemma evict_victims_subset: "set (evict_victims now s) \<subseteq> set (sieveList s)"
  using from_hand_subset [of s] set_take_subset
  by (fastforce simp: evict_victims_def)

lemma evict_scan:
  assumes "sieve_inv s" "set (sieveList s) \<subseteq> live s" "sieveList s \<noteq> []"
  obtains p r where
    "scan (evictable now (heap s)) (unat (ec_budget (evictParams s))) (from_hand s)
       = (evict_victims now s, p, r)"
    "evict now s = (map (\<lambda>a. e_key (heap s a)) (evict_victims now s),
       s\<lparr>heap := clear_visited (set p) (heap s),
         sieveList := takeWhile (\<lambda>x. Some x \<noteq> start_hand s) (sieveList s) @ p @ r,
         sieve_hand := begin_it (if r = []
           then takeWhile (\<lambda>x. Some x \<noteq> start_hand s) (sieveList s) @ p @ r else r)\<rparr>)"
proof -
  let ?pre = "takeWhile (\<lambda>x. Some x \<noteq> start_hand s) (sieveList s)"
  let ?b = "unat (ec_budget (evictParams s))"
  obtain v p r where sc: "scan (evictable now (heap s)) ?b (from_hand s) = (v, p, r)"
    by (metis prod_cases3)
  have v: "v = evict_victims now s"
    using scan_victims [of "evictable now (heap s)" ?b "from_hand s"] sc
    by (simp add: evict_victims_def)
  have h: "distinct (sieveList s)" using assms by (simp add: sieve_inv_def hand_in_def)
  have "evict_loop now ?b 0 s ?pre (from_hand s) [] =
      (s\<lparr>heap := clear_visited (set p) (heap s)\<rparr>, ?pre @ p, r, map (\<lambda>a. e_key (heap s a)) v)"
    using evict_loop_scan [of ?pre "from_hand s" s 0 ?b now v p r "[]"] sc h
      split_at_hand [of s] from_hand_subset [of s] assms(2) by auto
  then have "evict now s = (map (\<lambda>a. e_key (heap s a)) v,
       s\<lparr>heap := clear_visited (set p) (heap s), sieveList := ?pre @ p @ r,
         sieve_hand := begin_it (if r = [] then ?pre @ p @ r else r)\<rparr>)"
    using assms(3) by (auto simp: evict_def Let_def from_hand_def start_hand_def)
  with sc v that show thesis by blast
qed

lemma evict_empty: "sieveList s = [] \<Longrightarrow> evict now s = ([], s)"
  by (simp add: evict_def)

lemma evict_list:
  assumes "sieve_inv s" "set (sieveList s) \<subseteq> live s"
  shows "sieveList (snd (evict now s)) = filter (\<lambda>a. a \<notin> set (evict_victims now s)) (sieveList s)"
proof (cases "sieveList s = []")
  case True
  then show ?thesis by (simp add: evict_empty)
next
  case False
  let ?pre = "takeWhile (\<lambda>x. Some x \<noteq> start_hand s) (sieveList s)"
  let ?keep = "filter (\<lambda>a. a \<notin> set (evict_victims now s))"
  obtain p r where
    sc: "scan (evictable now (heap s)) (unat (ec_budget (evictParams s))) (from_hand s)
       = (evict_victims now s, p, r)"
    and ev: "evict now s = (map (\<lambda>a. e_key (heap s a)) (evict_victims now s),
       s\<lparr>heap := clear_visited (set p) (heap s), sieveList := ?pre @ p @ r,
         sieve_hand := begin_it (if r = [] then ?pre @ p @ r else r)\<rparr>)"
    by (rule evict_scan [OF assms False])
  have d: "distinct (?pre @ from_hand s)"
    using assms split_at_hand [of s] by (simp add: sieve_inv_def hand_in_def)
  have "set (evict_victims now s) \<subseteq> set (from_hand s)" "p @ r = ?keep (from_hand s)"
    using scan_subset [OF sc] scan_rest [OF sc] d by auto
  moreover from this d have "?keep ?pre = ?pre"
    by (intro filter_True) auto
  ultimately have "?pre @ p @ r = ?keep (?pre @ from_hand s)" by simp
  then show ?thesis using ev split_at_hand [of s] by simp
qed

text \<open>
  The whole effect of a call: the victims leave the list, some of the spared nodes lose
  their visited bit, the hand is a node of what remains, and nothing else changes.
\<close>

lemma evict_cases:
  assumes "sieve_inv s" "set (sieveList s) \<subseteq> live s"
  obtains A h where
    "A \<subseteq> set (from_hand s)" "A \<inter> set (evict_victims now s) = {}"
    "hand_in (filter (\<lambda>a. a \<notin> set (evict_victims now s)) (sieveList s)) h"
    "h = None \<longrightarrow> filter (\<lambda>a. a \<notin> set (evict_victims now s)) (sieveList s) = []"
    "evict now s = (map (\<lambda>a. e_key (heap s a)) (evict_victims now s),
       s\<lparr>heap := clear_visited A (heap s),
         sieveList := filter (\<lambda>a. a \<notin> set (evict_victims now s)) (sieveList s),
         sieve_hand := h\<rparr>)"
proof (cases "sieveList s = []")
  case True
  then have "evict_victims now s = []" "sieve_hand s = None" "from_hand s = []"
    using assms by (auto simp: evict_victims_def from_hand_def sieve_inv_def hand_in_def)
  with True assms that [of "{}" None] show thesis
    by (simp add: evict_empty clear_visited_def sieve_inv_def)
next
  case False
  let ?pre = "takeWhile (\<lambda>x. Some x \<noteq> start_hand s) (sieveList s)"
  obtain p r where
    sc: "scan (evictable now (heap s)) (unat (ec_budget (evictParams s))) (from_hand s)
       = (evict_victims now s, p, r)"
    and ev: "evict now s = (map (\<lambda>a. e_key (heap s a)) (evict_victims now s),
       s\<lparr>heap := clear_visited (set p) (heap s), sieveList := ?pre @ p @ r,
         sieve_hand := begin_it (if r = [] then ?pre @ p @ r else r)\<rparr>)"
    by (rule evict_scan [OF assms False])
  have xs: "?pre @ p @ r = filter (\<lambda>a. a \<notin> set (evict_victims now s)) (sieveList s)"
    using evict_list [OF assms, of now] ev by simp
  have d: "distinct (sieveList s)" using assms by (simp add: sieve_inv_def hand_in_def)
  let ?h = "begin_it (if r = [] then ?pre @ p @ r else r)"
  have dd: "distinct (?pre @ p @ r)" unfolding xs using d by simp
  have dis: "set (?pre @ p @ r) \<inter> set (evict_victims now s) = {}" unfolding xs by auto
  show thesis
  proof (rule that [of "set p" ?h])
    show "set p \<subseteq> set (from_hand s)" using scan_subset [OF sc] by simp
    show "set p \<inter> set (evict_victims now s) = {}" using dis by auto
    have "hand_in (?pre @ p @ r) ?h"
      using dd by (auto simp: hand_in_def dest: begin_it_in split: if_splits)
    then show "hand_in (filter (\<lambda>a. a \<notin> set (evict_victims now s)) (sieveList s)) ?h"
      by (simp add: xs)
    show "?h = None \<longrightarrow> filter (\<lambda>a. a \<notin> set (evict_victims now s)) (sieveList s) = []"
      unfolding xs [symmetric] by simp
    show "evict now s = (map (\<lambda>a. e_key (heap s a)) (evict_victims now s),
       s\<lparr>heap := clear_visited (set p) (heap s),
         sieveList := filter (\<lambda>a. a \<notin> set (evict_victims now s)) (sieveList s),
         sieve_hand := ?h\<rparr>)"
      using ev by (simp add: xs)
  qed
qed

lemma evict_inv:
  assumes "sieve_inv s" "set (sieveList s) \<subseteq> live s"
  shows "sieve_inv (snd (evict now s))"
  by (rule evict_cases [OF assms, of now]) (simp add: sieve_inv_def)

subsection \<open>Progress\<close>

lemma scan_none: "filter ev xs = [] \<Longrightarrow> 0 < k \<Longrightarrow> scan ev k xs = ([], xs, [])"
  by (induction ev k xs rule: scan.induct) (auto split: if_splits)

lemma evict_none:
  assumes "sieve_inv s" "set (sieveList s) \<subseteq> live s" "sieveList s \<noteq> []"
    and "0 < ec_budget (evictParams s)" "evict_victims now s = []"
  shows "snd (evict now s) = s\<lparr>heap := clear_visited (set (from_hand s)) (heap s),
           sieve_hand := begin_it (sieveList s)\<rparr>"
proof -
  have b: "0 < unat (ec_budget (evictParams s))" using assms(4) by (simp add: word_less_nat_alt)
  with assms(5) have none: "filter (evictable now (heap s)) (from_hand s) = []"
    by (simp add: evict_victims_def)
  show ?thesis
  proof (rule evict_scan [OF assms(1-3), of now])
    fix p r
    assume sc: "scan (evictable now (heap s)) (unat (ec_budget (evictParams s))) (from_hand s)
       = (evict_victims now s, p, r)"
      and ev: "evict now s = (map (\<lambda>a. e_key (heap s a)) (evict_victims now s),
       s\<lparr>heap := clear_visited (set p) (heap s),
         sieveList := takeWhile (\<lambda>x. Some x \<noteq> start_hand s) (sieveList s) @ p @ r,
         sieve_hand := begin_it (if r = []
           then takeWhile (\<lambda>x. Some x \<noteq> start_hand s) (sieveList s) @ p @ r else r)\<rparr>)"
    from sc scan_none [OF none b] have "p = from_hand s" "r = []" by auto
    with ev split_at_hand [of s] show ?thesis by simp
  qed
qed

lemma evict_none_then_some:
  assumes "sieve_inv s" "set (sieveList s) \<subseteq> live s" "sieveList s \<noteq> []"
    and "0 < ec_budget (evictParams s)" "evict_victims now s = []"
  shows "evict_victims now' (snd (evict now s)) \<noteq> []"
proof -
  let ?s = "snd (evict now s)"
  have s: "?s = s\<lparr>heap := clear_visited (set (from_hand s)) (heap s), sieve_hand := begin_it (sieveList s)\<rparr>"
    by (rule evict_none [OF assms])
  obtain a where a: "a \<in> set (from_hand s)" using from_hand_nonempty assms(1,3) by fastforce
  have "from_hand ?s = sieveList s"
    using assms(3) by (cases "sieveList s") (auto simp: from_hand_def start_hand_def s)
  moreover have "a \<in> set (sieveList s)" "evictable now' (heap ?s) a"
    using a from_hand_subset [of s] by (auto simp: evictable_def s clear_visited_def)
  ultimately have "filter (evictable now' (heap ?s)) (from_hand ?s) \<noteq> []"
    by (metis (no_types, lifting) filter_empty_conv)
  then show ?thesis using assms(4) by (auto simp: evict_victims_def s word_less_nat_alt)
qed

subsection \<open>Properties\<close>

lemma evict_keys:
  assumes "sieve_inv s" "set (sieveList s) \<subseteq> live s"
  shows "fst (evict now s) = map (\<lambda>a. e_key (heap s a)) (evict_victims now s)"
  by (rule evict_cases [OF assms, of now]) simp

text \<open>
  C21. One call of \<open>evict\<close> removes exactly the first entries from the hand to the end of the
  list that are expired or unvisited, at most the budget of them; it returns their keys in
  that order, keeps the order of the others, and leaves the hand on the list.
\<close>

theorem evict_exact:
  assumes "sieve_inv s" "set (sieveList s) \<subseteq> live s"
  shows "fst (evict now s) = map (\<lambda>a. e_key (heap s a))
      (take (unat (ec_budget (evictParams s))) (filter (evictable now (heap s)) (from_hand s)))
    \<and> sieveList (snd (evict now s)) = filter (\<lambda>a. a \<notin> set (evict_victims now s)) (sieveList s)
    \<and> sieve_inv (snd (evict now s)) \<and> fault (snd (evict now s)) = fault s
    \<and> (sieve_hand (snd (evict now s)) = None \<longleftrightarrow> sieveList (snd (evict now s)) = [])"
proof -
  obtain A h where h: "hand_in (filter (\<lambda>a. a \<notin> set (evict_victims now s)) (sieveList s)) h"
      "h = None \<longrightarrow> filter (\<lambda>a. a \<notin> set (evict_victims now s)) (sieveList s) = []"
    and "evict now s = (map (\<lambda>a. e_key (heap s a)) (evict_victims now s),
      s\<lparr>heap := clear_visited A (heap s),
        sieveList := filter (\<lambda>a. a \<notin> set (evict_victims now s)) (sieveList s), sieve_hand := h\<rparr>)"
    using evict_cases [OF assms, of now] by metis
  moreover from h have "h = None \<longleftrightarrow> filter (\<lambda>a. a \<notin> set (evict_victims now s)) (sieveList s) = []"
    by (cases h) (auto simp: hand_in_def filter_empty_conv)
  ultimately show ?thesis using evict_inv [OF assms, of now] by (simp add: evict_victims_def)
qed

definition example_policy :: sieve_state where
  "example_policy =
     \<lparr>heap = (\<lambda>a. new_entry\<lparr>e_key := (if a = 0 then ''a'' else if a = 1 then ''b'' else ''c''), e_visited := (a = 1)\<rparr>),
      live = {0, 1, 2}, next_addr = 3, fault = False, sieveList = [0, 1, 2], sieve_hand = Some 1,
      evCfg = \<lparr>evc_policy = SievePolicyKind,
        evc_soft = \<lparr>ec_trigger = 0, ec_stop = 0, ec_budget = 2, ec_prob_budget = 0, ec_throttle = False\<rparr>,
        evc_prob_evict = \<lparr>ec_trigger = 0, ec_stop = 0, ec_budget = 0, ec_prob_budget = 0, ec_throttle = False\<rparr>\<rparr>,
      evictParams = \<lparr>ec_trigger = 0, ec_stop = 0, ec_budget = 2, ec_prob_budget = 0, ec_throttle = False\<rparr>\<rparr>"

theorem evict_exact_witness:
  "fst (evict 5 example_policy) = [''c''] \<and> sieveList (snd (evict 5 example_policy)) = [0, 1]"
  using evict_exact [of example_policy 5]
  by (simp add: example_policy_def sieve_inv_def hand_in_def from_hand_def start_hand_def evict_victims_def
      evictable_def is_expired_def new_entry_def)



end
