(* ===== verification/Db_Config.thy ===== *)
theory Db_Config
  imports Sieve
begin

text \<open>
  The configuration records of \<open>include/pool/pool_config.hh\<close> and
  \<open>include/dbconfig.hh\<close>, with their built-in defaults, and the conversions between
  \<open>double\<close> and \<open>size_t\<close> that sizing the pool uses.
\<close>

datatype pool_mode = PoolFixed | PoolByMemory

record PoolConfig =
  pc_mode :: pool_mode
  pc_memory_reserve_percentage :: double
  pc_pool_max_memory_percent :: double
  pc_page_size_goal :: nat
  pc_key_reserve :: nat
  pc_prob_pool_size_percent :: double

record db_config =
  dc_ev_config :: EvictionConfig
  dc_pool :: PoolConfig
  dc_db_port :: u16
  dc_hash :: sstring
  dc_send_shard_details_on_connect :: bool

definition default_db_config :: db_config where
  "default_db_config =
     \<lparr>dc_ev_config =
        \<lparr>evc_policy = SievePolicyKind,
         evc_soft = \<lparr>ec_trigger = 0, ec_stop = 0, ec_budget = 0, ec_prob_budget = 0,
                     ec_throttle = False\<rparr>,
         evc_prob_evict = \<lparr>ec_trigger = 0, ec_stop = 0, ec_budget = 0, ec_prob_budget = 0,
                           ec_throttle = False\<rparr>\<rparr>,
      dc_pool =
        \<lparr>pc_mode = PoolByMemory, pc_memory_reserve_percentage = 15 / 100,
         pc_pool_max_memory_percent = 0, pc_page_size_goal = 0, pc_key_reserve = 0,
         pc_prob_pool_size_percent = 0\<rparr>,
      dc_db_port = 60110, dc_hash = ''fnv1a64'',
      dc_send_shard_details_on_connect = False\<rparr>"

text \<open>Conversion of a non-negative \<open>double\<close> to an unsigned integer truncates.\<close>

definition to_size_t :: "double \<Rightarrow> nat" where
  "to_size_t x = nat \<lfloor>x\<rfloor>"

text \<open>
  What the sizing code relies on of a rounding mode: it is monotone, and it does not move
  the integers a \<open>double\<close> represents exactly.
\<close>

definition rounding :: "(double \<Rightarrow> double) \<Rightarrow> bool" where
  "rounding rnd \<longleftrightarrow> (\<forall>x y. x \<le> y \<longrightarrow> rnd x \<le> rnd y) \<and>
     (\<forall>n :: nat. n \<le> 2 ^ 53 \<longrightarrow> rnd (of_nat n) = of_nat n)"

lemma rounding_mono: "rounding rnd \<Longrightarrow> x \<le> y \<Longrightarrow> rnd x \<le> rnd y"
  by (simp add: rounding_def)

lemma rounding_nat: "rounding rnd \<Longrightarrow> n \<le> 2 ^ 53 \<Longrightarrow> rnd (of_nat n) = of_nat n"
  by (simp add: rounding_def)

lemma rounding_id: "rounding id"
  by (simp add: rounding_def)

lemma to_size_t_mono: "x \<le> y \<Longrightarrow> to_size_t x \<le> to_size_t y"
  by (simp add: to_size_t_def floor_mono nat_mono)

lemma to_size_t_of_nat [simp]: "to_size_t (of_nat n) = n"
  by (simp add: to_size_t_def)

text \<open>A fraction of a count is at most the count, rounding included.\<close>

lemma to_size_t_fraction:
  assumes "rounding rnd" "x \<le> 1" "n \<le> 2 ^ 53"
  shows "to_size_t (rnd (x * rnd (of_nat n))) \<le> n"
proof -
  have "x * rnd (of_nat n) \<le> of_nat n"
    using assms mult_right_mono [of x 1 "of_nat n :: rat"] by (simp add: rounding_nat)
  then have "rnd (x * rnd (of_nat n)) \<le> of_nat n"
    using assms rounding_mono [OF assms(1), of "x * rnd (of_nat n)" "of_nat n"]
    by (simp add: rounding_nat)
  then show ?thesis using to_size_t_mono by fastforce
qed

end
