(* ===== verification/Pool.thy ===== *)
theory Pool
  imports Db_Config
begin

text \<open>
  The object pool of \<open>include/pool/object_pool.hh\<close> and \<open>src/pool/object_pool.cc\<close>:
  \<open>CacheEntryPool\<close> hands out preallocated entries, keeps the probation list of entries
  seen once, and moves entries to the sanctuary list of the SIEVE policy on their second
  use.

  Ownership: a \<open>std::unique_ptr\<close> that the pool has handed out is an address of the set
  \<open>own\<close> of the invariant \<open>pool_inv\<close>. The callback that
  \<open>set_sequential_eviction_callback\<close> installs is an argument \<open>cb\<close> of the operations
  that may run the reaper. The reserved capacity of value buffers is not modelled: it is
  not observable through the interface.
\<close>

record pool_state = sieve_state +
  pool_free :: "addr list"
  value_offset :: nat
  free_after_pool :: nat
  pool_max_memory_percent :: double
  pool_usable_memory :: nat
  max_size :: nat
  prob_pool_max_size :: nat
  prob_threshold :: u64
  reaper_budget :: u64
  prob_count :: u64
  sanc_count :: u64
  pool_initialized :: bool
  prob_eviction_count :: u64
  probation_list :: "addr list"
  probation_hand :: "addr option"
  sieve_attached :: bool

type_synonym 'z evict_callback = "(sstring list \<Rightarrow> 'z pool_state_scheme \<Rightarrow> 'z pool_state_scheme) option"

subsection \<open>Sizes\<close>

definition get_available_slots :: "'z pool_state_scheme \<Rightarrow> nat" where
  "get_available_slots s = length (pool_free s)"

definition get_total_slots :: "'z pool_state_scheme \<Rightarrow> nat" where
  "get_total_slots s = max_size s"

definition get_used_slots :: "'z pool_state_scheme \<Rightarrow> u64" where
  "get_used_slots s = of_nat (max_size s) - of_nat (length (pool_free s))"

definition get_available_prob_slots :: "'z pool_state_scheme \<Rightarrow> u64" where
  "get_available_prob_slots s = of_nat (prob_pool_max_size s) - prob_count s"

definition get_total_prob_slots :: "'z pool_state_scheme \<Rightarrow> nat" where
  "get_total_prob_slots s = prob_pool_max_size s"

definition get_prob_eviction_count :: "'z pool_state_scheme \<Rightarrow> u64" where
  "get_prob_eviction_count s = prob_eviction_count s"

definition get_used_prob_slots :: "'z pool_state_scheme \<Rightarrow> u64" where
  "get_used_prob_slots s = prob_count s"

definition get_used_sanctuary_slots :: "'z pool_state_scheme \<Rightarrow> u64" where
  "get_used_sanctuary_slots s = sanc_count s"

definition get_total_sanctuary_slots :: "'z pool_state_scheme \<Rightarrow> u64" where
  "get_total_sanctuary_slots s = of_nat (get_total_slots s) - of_nat (get_total_prob_slots s)"

text \<open>\<open>size_t\<close> sums and products wrap at 64 bits; \<open>sz\<close> is \<open>sizeof(ttl::Entry)\<close>.\<close>

definition get_per_entry_size_estimate :: "nat \<Rightarrow> 'z pool_state_scheme \<Rightarrow> nat" where
  "get_per_entry_size_estimate sz s = (sz + value_offset s) mod 2 ^ 64"

definition get_max_allowed_memory_for_pool :: "(double \<Rightarrow> double) \<Rightarrow> 'z pool_state_scheme \<Rightarrow> nat" where
  "get_max_allowed_memory_for_pool rnd s =
     to_size_t (rnd (rnd (of_nat (pool_usable_memory s)) * pool_max_memory_percent s))"

definition calculate_optimal_pool_size :: "(double \<Rightarrow> double) \<Rightarrow> nat \<Rightarrow> 'z pool_state_scheme \<Rightarrow> nat" where
  "calculate_optimal_pool_size rnd sz s =
     (let target_memory = get_max_allowed_memory_for_pool rnd s
      in if target_memory = 0 then 0 else target_memory div get_per_entry_size_estimate sz s)"

subsection \<open>Start-up\<close>

fun prepopulate_loop :: "nat \<Rightarrow> 'z pool_state_scheme \<Rightarrow> 'z pool_state_scheme" where
  "prepopulate_loop 0 s = s"
| "prepopulate_loop (Suc n) s =
     (let (a, s1) = make_entry s in prepopulate_loop n (s1\<lparr>pool_free := pool_free s1 @ [a]\<rparr>))"

definition prepopulate_pool :: "nat \<Rightarrow> 'z pool_state_scheme \<Rightarrow> 'z pool_state_scheme" where
  "prepopulate_pool free_mem s = (prepopulate_loop (max_size s) s)\<lparr>free_after_pool := free_mem\<rparr>"

text \<open>The part of \<open>init\<close> common to both branches: the probation sizes.\<close>

definition set_prob_sizes :: "(double \<Rightarrow> double) \<Rightarrow> db_config \<Rightarrow> 'z pool_state_scheme \<Rightarrow> 'z pool_state_scheme" where
  "set_prob_sizes rnd cfg s =
     (let n = to_size_t (of_int \<lfloor>rnd (pc_prob_pool_size_percent (dc_pool cfg) * rnd (of_nat (max_size s)))\<rfloor>)
      in s\<lparr>prob_pool_max_size := n,
           reaper_budget := ec_prob_budget (evc_prob_evict (dc_ev_config cfg)),
           prob_threshold :=
             of_nat (to_size_t (rnd (ec_trigger (evc_prob_evict (dc_ev_config cfg)) * rnd (of_nat n))))\<rparr>)"

text \<open>
  \<open>init\<close>: \<open>total_mem\<close> and \<open>free_mem\<close> are what \<open>seastar::memory::stats()\<close>
  reports before and after the pool is filled. A maximum size of 0 asks for the largest
  pool that fits; a size given by the user is cut down to it when it does not fit.
\<close>

definition pool_init ::
  "(double \<Rightarrow> double) \<Rightarrow> nat \<Rightarrow> nat \<Rightarrow> nat \<Rightarrow> db_config \<Rightarrow> 'z pool_state_scheme \<Rightarrow> 'z pool_state_scheme" where
  "pool_init rnd sz total_mem free_mem cfg s =
     (if pool_initialized s then s
      else
        let s1 = s\<lparr>sieve_attached := True,
                   value_offset := (pc_page_size_goal (dc_pool cfg) + pc_key_reserve (dc_pool cfg)) mod 2 ^ 64,
                   pool_usable_memory :=
                     to_size_t (rnd (rnd (1 - pc_memory_reserve_percentage (dc_pool cfg)) * rnd (of_nat total_mem))),
                   pool_max_memory_percent := pc_pool_max_memory_percent (dc_pool cfg)\<rparr>;
            s2 = (if max_size s1 = 0 then
                    set_prob_sizes rnd cfg (s1\<lparr>max_size := calculate_optimal_pool_size rnd sz s1\<rparr>)
                  else
                    let total_mem_req = (get_per_entry_size_estimate sz s1 * max_size s1) mod 2 ^ 64;
                        s2 = (if get_max_allowed_memory_for_pool rnd s1 < total_mem_req
                              then s1\<lparr>max_size := calculate_optimal_pool_size rnd sz s1\<rparr> else s1)
                    in set_prob_sizes rnd cfg s2)
        in prepopulate_pool free_mem (s2\<lparr>pool_initialized := True\<rparr>))"

subsection \<open>The probation list\<close>

definition remove_from_probation :: "addr \<Rightarrow> 'z pool_state_scheme \<Rightarrow> 'z pool_state_scheme" where
  "remove_from_probation a s =
     (if a \<notin> set (probation_list s) then s
      else
        let next_it = (case next_in (probation_list s) a of
                         None \<Rightarrow> begin_it (probation_list s) | Some b \<Rightarrow> Some b);
            removed_hand = (probation_hand s = Some a);
            xs = remove1 a (probation_list s)
        in s\<lparr>probation_list := xs,
             prob_count := (if 0 < prob_count s then prob_count s - 1 else prob_count s),
             probation_hand := (if xs = [] then None
                                else if removed_hand then next_it else probation_hand s)\<rparr>)"

text \<open>
  The reaper's loop. The hand is dereferenced as it stands: \<open>end()\<close> there, or a node that
  is no longer linked, is a fault. The yield every 1000 evictions is not a step here.
\<close>

function reaper_loop ::
  "nat \<Rightarrow> nat \<Rightarrow> 'z pool_state_scheme \<Rightarrow> sstring list \<Rightarrow> nat \<times> 'z pool_state_scheme \<times> sstring list" where
  "reaper_loop budget evicted s victims =
     (if evicted < budget \<and> probation_list s \<noteq> [] then
        (case probation_hand s of
           None \<Rightarrow> (evicted, raise_if True s, victims)
         | Some a \<Rightarrow>
             (let xs = probation_list s;
                  next_it = (case next_in xs a of None \<Rightarrow> begin_it xs | Some b \<Rightarrow> Some b);
                  s1 = raise_if (a \<notin> set xs) (check_live a s);
                  ys = remove1 a xs
              in reaper_loop budget (Suc evicted)
                   (s1\<lparr>probation_list := ys, prob_count := prob_count s1 - 1,
                       probation_hand := (if ys = [] then None else next_it)\<rparr>)
                   (victims @ [e_key (heap s a)])))
      else (evicted, s, victims))"
  by pat_completeness auto
termination
  by (relation "measure (\<lambda>(budget, evicted, s, victims). budget - evicted)") auto

declare reaper_loop.simps [simp del]

definition run_sequential_reaper :: "'z evict_callback \<Rightarrow> 'z pool_state_scheme \<Rightarrow> 'z pool_state_scheme" where
  "run_sequential_reaper cb s =
     (if probation_list s = [] then s
      else
        let s1 = s\<lparr>probation_hand := begin_it (probation_list s)\<rparr>;
            (evicted, s2, victims) = reaper_loop (unat (reaper_budget s1)) 0 s1 [];
            s3 = s2\<lparr>prob_eviction_count := prob_eviction_count s2 + of_nat evicted\<rparr>
        in (case cb of
              None \<Rightarrow> s3
            | Some on_evict \<Rightarrow> if victims \<noteq> [] then on_evict victims s3 else s3))"

definition promote_to_sanctuary :: "addr \<Rightarrow> 'z pool_state_scheme \<Rightarrow> 'z pool_state_scheme" where
  "promote_to_sanctuary a s =
     (if e_pool_type (heap s a) = Sanctuary then check_live a s
      else
        let s1 = remove_from_probation a (check_live a s);
            s2 = (if sieve_attached s1 then on_insert a s1
                  else upd_entry a (\<lambda>e. e\<lparr>e_pool_type := Sanctuary\<rparr>) s1)
        in s2\<lparr>sanc_count := sanc_count s2 + 1\<rparr>)"

subsection \<open>Acquire\<close>

definition do_acquire :: "'z pool_state_scheme \<Rightarrow> addr option \<times> 'z pool_state_scheme" where
  "do_acquire s =
     (case pool_free s of
        [] \<Rightarrow>
          (let (a, s1) = make_entry s;
               s2 = upd_entry a (\<lambda>e. e\<lparr>e_in_use := True\<rparr>) s1;
               s3 = s2\<lparr>sanc_count := sanc_count s2 + 1\<rparr>;
               s4 = (if sieve_attached s3 then on_insert a s3 else s3)
           in (Some a, s4))
      | a # rest \<Rightarrow>
          (let s1 = s\<lparr>pool_free := rest\<rparr>;
               s2 = upd_entry a (\<lambda>e. e\<lparr>e_in_use := True\<rparr>) s1;
               s3 = s2\<lparr>sanc_count := sanc_count s2 + 1\<rparr>;
               s4 = (if sieve_attached s3 then on_insert a s3 else s3)
           in (Some a, s4)))"

text \<open>
  \<open>do_prob_acquire\<close>: with an empty pool a new entry is made, counted, and not linked
  into the probation list; otherwise the front of the pool is taken after the reaper has
  had its turn, and appended to the list.
\<close>

definition do_prob_acquire :: "'z evict_callback \<Rightarrow> 'z pool_state_scheme \<Rightarrow> addr option \<times> 'z pool_state_scheme" where
  "do_prob_acquire cb s =
     (if pool_free s = [] then
        (let (a, s1) = make_entry s;
             s2 = upd_entry a (\<lambda>e. e\<lparr>e_in_use := True, e_pool_type := Probation\<rparr>) s1;
             s3 = s2\<lparr>prob_count := prob_count s2 + 1\<rparr>
         in (Some a, run_sequential_reaper cb s3))
      else
        (let s1 = (if prob_threshold s \<le> prob_count s then run_sequential_reaper cb s else s)
         in case pool_free s1 of
              [] \<Rightarrow> (None, raise_if True s1)
            | a # rest \<Rightarrow>
                (let s2 = upd_entry a (\<lambda>e. e\<lparr>e_in_use := True, e_pool_type := Probation\<rparr>)
                            (s1\<lparr>pool_free := rest\<rparr>);
                     s3 = s2\<lparr>prob_count := prob_count s2 + 1\<rparr>;
                     s4 = raise_if (a \<in> set (probation_list s3)) s3
                 in (Some a, s4\<lparr>probation_list := probation_list s4 @ [a]\<rparr>))))"

definition acquire :: "'z evict_callback \<Rightarrow> 'z pool_state_scheme \<Rightarrow> addr option \<times> 'z pool_state_scheme" where
  "acquire cb s = (if prob_pool_max_size s \<le> 0 then do_acquire s else do_prob_acquire cb s)"

subsection \<open>Release\<close>

definition reset_entry :: "entry \<Rightarrow> entry" where
  "reset_entry e = e\<lparr>e_in_use := False, e_visited := False, e_value := [], e_key := [],
     e_expires_at := 0, e_ver := 0, e_heat := 0, e_last_access := 0, e_pool_type := Probation\<rparr>"

text \<open>Out of the policy's list, if it is attached, and out of the sanctuary's count.\<close>

definition unlink_sanctuary :: "addr \<Rightarrow> 'z pool_state_scheme \<Rightarrow> 'z pool_state_scheme" where
  "unlink_sanctuary a s =
     (let s1 = (if sieve_attached s then on_erase a s else s)
      in if 0 < sanc_count s1 then s1\<lparr>sanc_count := sanc_count s1 - 1\<rparr> else s1)"

text \<open>Back into the pool when it has room, otherwise destroyed.\<close>

definition return_or_destroy :: "addr \<Rightarrow> 'z pool_state_scheme \<Rightarrow> 'z pool_state_scheme" where
  "return_or_destroy a s =
     (if length (pool_free s) < max_size s then s\<lparr>pool_free := pool_free s @ [a]\<rparr>
      else destroy_entry a
             (raise_if (a \<in> set (sieveList s) \<or> a \<in> set (probation_list s)) s))"

definition do_release :: "addr option \<Rightarrow> 'z pool_state_scheme \<Rightarrow> 'z pool_state_scheme" where
  "do_release ptr s =
     (case ptr of
        None \<Rightarrow> s
      | Some a \<Rightarrow>
          return_or_destroy a (unlink_sanctuary a (upd_entry a reset_entry s)))"

definition do_prob_release :: "addr option \<Rightarrow> 'z pool_state_scheme \<Rightarrow> 'z pool_state_scheme" where
  "do_prob_release ptr s =
     (case ptr of
        None \<Rightarrow> s
      | Some a \<Rightarrow>
          (let s1 = (if e_pool_type (heap s a) = Probation then remove_from_probation a s
                     else unlink_sanctuary a s)
           in return_or_destroy a (upd_entry a reset_entry s1)))"

definition release :: "addr option \<Rightarrow> 'z pool_state_scheme \<Rightarrow> 'z pool_state_scheme" where
  "release ptr s = (if prob_pool_max_size s \<le> 0 then do_release ptr s else do_prob_release ptr s)"

subsection \<open>Frame facts\<close>

lemma pool_fields_memory [simp]:
  "pool_free (raise_if c s) = pool_free s" "max_size (raise_if c s) = max_size s"
  "prob_pool_max_size (raise_if c s) = prob_pool_max_size s"
  "prob_count (raise_if c s) = prob_count s" "sanc_count (raise_if c s) = sanc_count s"
  "probation_list (raise_if c s) = probation_list s"
  "probation_hand (raise_if c s) = probation_hand s"
  "sieve_attached (raise_if c s) = sieve_attached s"
  "pool_free (check_live a s) = pool_free s" "max_size (check_live a s) = max_size s"
  "prob_pool_max_size (check_live a s) = prob_pool_max_size s"
  "prob_count (check_live a s) = prob_count s" "sanc_count (check_live a s) = sanc_count s"
  "probation_list (check_live a s) = probation_list s"
  "probation_hand (check_live a s) = probation_hand s"
  "sieve_attached (check_live a s) = sieve_attached s"
  "pool_free (upd_entry a f s) = pool_free s" "max_size (upd_entry a f s) = max_size s"
  "prob_pool_max_size (upd_entry a f s) = prob_pool_max_size s"
  "prob_count (upd_entry a f s) = prob_count s" "sanc_count (upd_entry a f s) = sanc_count s"
  "probation_list (upd_entry a f s) = probation_list s"
  "probation_hand (upd_entry a f s) = probation_hand s"
  "sieve_attached (upd_entry a f s) = sieve_attached s"
  by (simp_all add: raise_if_def check_live_def upd_entry_def)

lemma reset_entry_new [simp]: "reset_entry e = new_entry"
  by (simp add: reset_entry_def new_entry_def)

text \<open>
  Every list operation of the pool and of the policy is an update of a few fields of the
  shard's state; these equations name them.
\<close>

lemma on_insert_eq:
  "a \<in> live s \<Longrightarrow> a \<notin> set (sieveList s) \<Longrightarrow> on_insert a s =
     s\<lparr>heap := (heap s)(a := (heap s a)\<lparr>e_visited := True, e_pool_type := Sanctuary\<rparr>),
       sieveList := sieveList s @ [a], sieve_hand := sieve_hand (on_insert a s)\<rparr>"
  by (simp add: on_insert_def Let_def upd_entry_live)

lemma on_erase_eq:
  "on_erase a s = s\<lparr>sieveList := remove1 a (sieveList s), sieve_hand := sieve_hand (on_erase a s)\<rparr>"
  by (simp add: on_erase_def Let_def remove1_idem)

lemma remove_from_probation_eq:
  "remove_from_probation a s =
     s\<lparr>probation_list := remove1 a (probation_list s),
       prob_count := prob_count (remove_from_probation a s),
       probation_hand := probation_hand (remove_from_probation a s)\<rparr>"
  by (simp add: remove_from_probation_def Let_def remove1_idem)

text \<open>The probation list is a list with a hand as well.\<close>

interpretation probation: hand_list probation_list probation_hand remove_from_probation
proof unfold_locales
  fix a :: addr and s :: "'z pool_state_scheme"
  show "probation_list (remove_from_probation a s) = remove1 a (probation_list s)"
    by (auto simp: remove_from_probation_def Let_def remove1_idem)
  show "probation_hand (remove_from_probation a s) = (if remove1 a (probation_list s) = [] then None
          else hand_after_erase (probation_list s) (probation_hand s) a)"
    if "a \<in> set (probation_list s)"
    using that by (auto simp: remove_from_probation_def Let_def hand_after_erase_def)
  show "probation_hand (remove_from_probation a s) = probation_hand s"
    if "a \<notin> set (probation_list s)"
    using that by (simp add: remove_from_probation_def)
qed

subsection \<open>The invariant\<close>

text \<open>
  \<open>own\<close> are the entries the pool has handed out, \<open>pend\<close> those of them that the
  policy has just unlinked and that are about to be released, \<open>leaked\<close> the number of
  times the pool was empty on a probation acquire.
  \<open>mem_inv\<close>: every live entry is either owned or in the pool and never both, pooled
  entries carry no data, nothing has faulted.
  \<open>lists_inv\<close>: the two lists hold owned entries, no entry is in both, and the pool type
  of an entry says whether it is in the sanctuary.
  \<open>count_inv\<close>: the counters are the lengths of the lists, the probation counter plus the
  leaked entries.
\<close>

definition mem_inv :: "addr set \<Rightarrow> 'z pool_state_scheme \<Rightarrow> bool" where
  "mem_inv own s \<longleftrightarrow> \<not> fault s \<and> sieve_attached s
     \<and> distinct (pool_free s) \<and> length (pool_free s) \<le> max_size s
     \<and> own \<inter> set (pool_free s) = {} \<and> live s = own \<union> set (pool_free s)
     \<and> (\<forall>a \<in> live s. a < next_addr s) \<and> next_addr s < 2 ^ 63
     \<and> (\<forall>a \<in> own. e_in_use (heap s a)) \<and> (\<forall>a \<in> set (pool_free s). heap s a = new_entry)"

definition lists_inv :: "addr set \<Rightarrow> addr list \<Rightarrow> 'z pool_state_scheme \<Rightarrow> bool" where
  "lists_inv own pend s \<longleftrightarrow> sieve_inv s \<and> hand_in (probation_list s) (probation_hand s)
     \<and> set (sieveList s) \<subseteq> own \<and> set (probation_list s) \<subseteq> own \<and> set pend \<subseteq> own
     \<and> distinct pend \<and> set pend \<inter> set (sieveList s) = {}
     \<and> set (probation_list s) \<inter> (set (sieveList s) \<union> set pend) = {}
     \<and> (\<forall>a \<in> own. e_pool_type (heap s a) = Sanctuary \<longleftrightarrow> a \<in> set (sieveList s) \<union> set pend)
     \<and> (prob_pool_max_size s = 0 \<longrightarrow> own \<subseteq> set (sieveList s) \<union> set pend)"

definition count_inv :: "addr list \<Rightarrow> nat \<Rightarrow> 'z pool_state_scheme \<Rightarrow> bool" where
  "count_inv pend leaked s \<longleftrightarrow> sanc_count s = of_nat (length (sieveList s) + length pend)
     \<and> leaked \<le> next_addr s
     \<and> (if prob_pool_max_size s = 0 then probation_list s = [] \<and> prob_count s = 0
        else prob_count s = of_nat (length (probation_list s) + leaked))"

definition pool_inv :: "addr set \<Rightarrow> addr list \<Rightarrow> nat \<Rightarrow> 'z pool_state_scheme \<Rightarrow> bool" where
  "pool_inv own pend leaked s \<longleftrightarrow> mem_inv own s \<and> lists_inv own pend s \<and> count_inv pend leaked s"

lemmas pool_inv_defs = pool_inv_def mem_inv_def lists_inv_def count_inv_def

lemma distinct_bounded_length:
  assumes "distinct (xs :: nat list)" "\<forall>a \<in> set xs. a < n"
  shows "length xs \<le> n"
proof -
  have "card (set xs) \<le> card {..<n}" using assms(2) by (intro card_mono) auto
  then show ?thesis using assms(1) by (simp add: distinct_card)
qed

lemma pool_inv_own_less: "pool_inv own pend l s \<Longrightarrow> a \<in> own \<Longrightarrow> a < next_addr s"
  by (auto simp: pool_inv_def mem_inv_def)

lemma pool_inv_own_live: "pool_inv own pend l s \<Longrightarrow> a \<in> own \<Longrightarrow> a \<in> live s"
  by (auto simp: pool_inv_def mem_inv_def)

lemma pool_inv_sanc_bound:
  assumes "pool_inv own pend l s"
  shows "length (sieveList s) + length pend < 2 ^ 63"
proof -
  have "length (sieveList s @ pend) \<le> next_addr s"
    using assms by (intro distinct_bounded_length)
      (auto simp: pool_inv_def lists_inv_def mem_inv_def sieve_inv_def hand_in_def)
  then show ?thesis using assms by (auto simp: pool_inv_def mem_inv_def)
qed

lemma pool_inv_prob_bound:
  assumes "pool_inv own pend l s"
  shows "length (probation_list s) + l < 2 ^ 64"
proof -
  have "length (probation_list s) \<le> next_addr s"
    using assms by (intro distinct_bounded_length)
      (auto simp: pool_inv_def lists_inv_def mem_inv_def hand_in_def)
  then show ?thesis using assms by (auto simp: pool_inv_defs)
qed

text \<open>A counter that is positive and in range goes down by one.\<close>

lemma dec_count:
  assumes "c = of_nat (Suc n)" "Suc n < 2 ^ 64"
  shows "(if 0 < c then c - 1 else c) = (of_nat n :: u64)"
  using assms of_nat_u64_zero [of "Suc n"] by (auto simp: word_neq_0_conv [symmetric])

subsection \<open>The operations keep the invariant\<close>

lemma remove_from_probation_sel [simp]:
  "heap (remove_from_probation a s) = heap s" "live (remove_from_probation a s) = live s"
  "next_addr (remove_from_probation a s) = next_addr s" "fault (remove_from_probation a s) = fault s"
  "sieveList (remove_from_probation a s) = sieveList s"
  "sieve_hand (remove_from_probation a s) = sieve_hand s"
  "pool_free (remove_from_probation a s) = pool_free s"
  "max_size (remove_from_probation a s) = max_size s"
  "prob_pool_max_size (remove_from_probation a s) = prob_pool_max_size s"
  "sanc_count (remove_from_probation a s) = sanc_count s"
  "sieve_attached (remove_from_probation a s) = sieve_attached s"
  by (simp_all add: remove_from_probation_def Let_def)

lemma remove_from_probation_count:
  assumes "pool_inv own pend l s" "a \<in> set (probation_list s)"
  shows "prob_pool_max_size s \<noteq> 0"
    and "prob_count (remove_from_probation a s) = of_nat (length (remove1 a (probation_list s)) + l)"
proof -
  show prob: "prob_pool_max_size s \<noteq> 0"
    using assms unfolding pool_inv_def count_inv_def by (cases "prob_pool_max_size s = 0") auto
  let ?n = "length (remove1 a (probation_list s)) + l"
  have "prob_count s = of_nat (Suc ?n)"
    using assms(1) prob length_remove1_in [OF assms(2)] by (simp add: pool_inv_def count_inv_def)
  moreover have "Suc ?n < 2 ^ 64"
    using pool_inv_prob_bound [OF assms(1)] length_remove1_in [OF assms(2)] by simp
  ultimately show "prob_count (remove_from_probation a s) = of_nat ?n"
    using assms(2) dec_count [of "prob_count s" ?n] by (simp add: remove_from_probation_def Let_def)
qed

lemma remove_from_probation_inv:
  assumes "pool_inv own pend l s"
  shows "pool_inv own pend l (remove_from_probation a s)"
proof (cases "a \<in> set (probation_list s)")
  case False
  then show ?thesis using assms by (simp add: remove_from_probation_def)
next
  case True
  obtain c h where eq: "remove_from_probation a s =
      s\<lparr>probation_list := remove1 a (probation_list s), prob_count := c, probation_hand := h\<rparr>"
    using remove_from_probation_eq by blast
  have "hand_in (remove1 a (probation_list s)) h"
    using probation.erase_hand_in [of s a] assms by (simp add: eq pool_inv_def lists_inv_def)
  moreover have "set (remove1 a (probation_list s)) \<subseteq> set (probation_list s)"
    by (rule set_remove1_subset)
  ultimately have "lists_inv own pend (remove_from_probation a s)"
    using assms unfolding eq pool_inv_def lists_inv_def sieve_inv_def by auto
  moreover have "mem_inv own (remove_from_probation a s)"
    using assms unfolding eq pool_inv_def mem_inv_def by simp
  moreover have "count_inv pend l (remove_from_probation a s)"
    using remove_from_probation_count [OF assms True] assms
    unfolding eq pool_inv_def count_inv_def by simp
  ultimately show ?thesis by (simp add: pool_inv_def)
qed

text \<open>
  The end of both release functions: an entry that is in no list is wiped and goes back
  to the pool or is destroyed.
\<close>

lemma finish_release_inv:
  assumes "mem_inv own s" "lists_inv (own - {a}) pend s" "count_inv pend l s" "a \<in> own"
  shows "pool_inv (own - {a}) pend l (return_or_destroy a (upd_entry a reset_entry s))"
proof -
  let ?s = "return_or_destroy a (upd_entry a reset_entry s)"
  have lv: "a \<in> live s" using assms by (auto simp: mem_inv_def)
  have nl: "a \<notin> set (sieveList s)" "a \<notin> set (probation_list s)"
    using assms(2) by (auto simp: lists_inv_def)
  have eq: "?s = (if length (pool_free s) < max_size s
      then s\<lparr>heap := (heap s)(a := new_entry), pool_free := pool_free s @ [a]\<rparr>
      else s\<lparr>heap := (heap s)(a := new_entry), live := live s - {a}\<rparr>)"
    using lv nl by (simp add: return_or_destroy_def upd_entry_live destroy_entry_def check_live_def)
  have "mem_inv (own - {a}) ?s"
    using assms(1,4) unfolding eq mem_inv_def by auto
  moreover have "lists_inv (own - {a}) pend ?s"
    using assms(2) unfolding eq lists_inv_def sieve_inv_def by auto
  moreover have "count_inv pend l ?s"
    using assms(3) unfolding eq count_inv_def by auto
  ultimately show ?thesis by (simp add: pool_inv_def)
qed

lemma unlink_sanctuary_inv:
  assumes "pool_inv own pend l s" "a \<in> set (sieveList s) \<union> set pend"
  shows "mem_inv own (unlink_sanctuary a s)" "lists_inv (own - {a}) (remove1 a pend) (unlink_sanctuary a s)"
    "count_inv (remove1 a pend) l (unlink_sanctuary a s)"
proof -
  let ?n = "length (remove1 a (sieveList s)) + length (remove1 a pend)"
  have at: "sieve_attached s" using assms by (simp add: pool_inv_def mem_inv_def)
  have d: "distinct (sieveList s)" "distinct pend" "set pend \<inter> set (sieveList s) = {}"
    using assms by (auto simp: pool_inv_def lists_inv_def sieve_inv_def hand_in_def)
  have n: "length (sieveList s) + length pend = Suc ?n"
  proof (cases "a \<in> set pend")
    case True
    with d have "a \<notin> set (sieveList s)" by auto
    with True show ?thesis by (simp add: remove1_idem length_remove1_in [OF True])
  next
    case False
    with assms(2) have "a \<in> set (sieveList s)" by simp
    with False show ?thesis by (simp add: remove1_idem length_remove1_in [of a "sieveList s"])
  qed
  obtain h where er: "on_erase a s = s\<lparr>sieveList := remove1 a (sieveList s), sieve_hand := h\<rparr>"
    using on_erase_eq by blast
  have cnt: "(if 0 < sanc_count s then sanc_count s - 1 else sanc_count s) = of_nat ?n"
    using assms(1) n pool_inv_sanc_bound [OF assms(1)]
    by (intro dec_count) (simp_all add: pool_inv_def count_inv_def)
  have eq: "unlink_sanctuary a s =
      s\<lparr>sieveList := remove1 a (sieveList s), sieve_hand := h, sanc_count := of_nat ?n\<rparr>"
    using cnt at er by (simp add: unlink_sanctuary_def Let_def split: if_splits)
  have si: "sieve_inv (on_erase a s)" using assms(1) by (intro on_erase_inv) (simp add: pool_inv_def lists_inv_def)
  show "mem_inv own (unlink_sanctuary a s)"
    using assms(1) unfolding eq pool_inv_def mem_inv_def by simp
  have "sieve_inv (unlink_sanctuary a s)" using si unfolding eq er sieve_inv_def by simp
  then show "lists_inv (own - {a}) (remove1 a pend) (unlink_sanctuary a s)"
    using assms d unfolding eq pool_inv_def lists_inv_def by auto
  show "count_inv (remove1 a pend) l (unlink_sanctuary a s)"
    using assms(1) unfolding eq pool_inv_def count_inv_def by auto
qed

lemma unlink_sanctuary_upd:
  "unlink_sanctuary a (upd_entry a f s) = upd_entry a f (unlink_sanctuary a s)"
  by (simp add: unlink_sanctuary_def Let_def on_erase_def upd_entry_def check_live_def raise_if_def)

text \<open>Releasing an owned entry keeps the invariant for the owners that remain.\<close>

lemma release_inv:
  assumes "pool_inv own pend l s" "a \<in> own"
  shows "pool_inv (own - {a}) (remove1 a pend) l (release (Some a) s)"
proof -
  have ty: "e_pool_type (heap s a) = Sanctuary \<longleftrightarrow> a \<in> set (sieveList s) \<union> set pend"
    using assms by (simp add: pool_inv_def lists_inv_def)
  show ?thesis
  proof (cases "a \<in> set (sieveList s) \<union> set pend")
    case True
    have "release (Some a) s = return_or_destroy a (upd_entry a reset_entry (unlink_sanctuary a s))"
      using True ty
      by (simp add: release_def do_release_def do_prob_release_def unlink_sanctuary_upd)
    with finish_release_inv [OF unlink_sanctuary_inv [OF assms(1) True] assms(2)] show ?thesis
      by simp
  next
    case False
    then have prob: "prob_pool_max_size s \<noteq> 0" and pt: "e_pool_type (heap s a) = Probation"
      using assms ty by (auto simp: pool_inv_def lists_inv_def intro: PoolType.exhaust)
    let ?s = "remove_from_probation a s"
    have inv: "pool_inv own pend l ?s" by (rule remove_from_probation_inv [OF assms(1)])
    have dis: "a \<notin> set (probation_list ?s)" "a \<notin> set (sieveList ?s)" "a \<notin> set pend"
      using assms(1) False
      by (auto simp: pool_inv_def lists_inv_def hand_in_def probation.elems_erase)
    have "lists_inv (own - {a}) pend ?s"
      using inv dis unfolding pool_inv_def lists_inv_def by auto
    then have "pool_inv (own - {a}) pend l (return_or_destroy a (upd_entry a reset_entry ?s))"
      using inv assms(2) by (intro finish_release_inv) (auto simp: pool_inv_def)
    then show ?thesis
      using prob pt dis by (simp add: release_def do_prob_release_def remove1_idem)
  qed
qed

subsection \<open>Promotion\<close>

lemma link_sanctuary_inv:
  assumes "mem_inv own s" "lists_inv (own - {a}) pend s" "count_inv pend l s" "a \<in> own"
  shows "pool_inv own pend l ((on_insert a s)\<lparr>sanc_count := sanc_count (on_insert a s) + 1\<rparr>)"
proof -
  have lv: "a \<in> live s" and nl: "a \<notin> set (sieveList s)" "a \<notin> set pend" "a \<notin> set (probation_list s)"
    using assms by (auto simp: mem_inv_def lists_inv_def)
  obtain h where oi: "on_insert a s =
      s\<lparr>heap := (heap s)(a := (heap s a)\<lparr>e_visited := True, e_pool_type := Sanctuary\<rparr>),
        sieveList := sieveList s @ [a], sieve_hand := h\<rparr>"
    using on_insert_eq [OF lv nl(1)] by blast
  let ?s = "(on_insert a s)\<lparr>sanc_count := sanc_count (on_insert a s) + 1\<rparr>"
  have si: "sieve_inv ?s"
    using on_insert_inv [of s a] assms(2) unfolding oi lists_inv_def sieve_inv_def by simp
  have "mem_inv own ?s"
    using assms(1,4) unfolding oi mem_inv_def by auto
  moreover have "lists_inv own pend ?s"
    using si assms(2,4) nl unfolding oi lists_inv_def by auto
  moreover have "count_inv pend l ?s"
    using assms(3) unfolding oi count_inv_def by (auto simp: algebra_simps)
  ultimately show ?thesis by (simp add: pool_inv_def)
qed

lemma promote_inv:
  assumes "pool_inv own pend l s" "a \<in> own"
  shows "pool_inv own pend l (promote_to_sanctuary a s)"
proof (cases "e_pool_type (heap s a) = Sanctuary")
  case True
  with assms show ?thesis
    by (simp add: promote_to_sanctuary_def check_live_id pool_inv_own_live)
next
  case False
  let ?s = "remove_from_probation a s"
  have inv: "pool_inv own pend l ?s" by (rule remove_from_probation_inv [OF assms(1)])
  have "a \<notin> set (sieveList ?s)" "a \<notin> set (probation_list ?s)" "a \<notin> set pend"
    using assms False by (auto simp: pool_inv_def lists_inv_def hand_in_def probation.elems_erase)
  then have "lists_inv (own - {a}) pend ?s"
    using inv unfolding pool_inv_def lists_inv_def by auto
  then have "pool_inv own pend l ((on_insert a ?s)\<lparr>sanc_count := sanc_count (on_insert a ?s) + 1\<rparr>)"
    using inv assms(2) by (intro link_sanctuary_inv) (simp_all add: pool_inv_def)
  then show ?thesis
    using False assms pool_inv_own_live [OF assms(1,2)]
    by (simp add: promote_to_sanctuary_def check_live_id Let_def pool_inv_def mem_inv_def)
qed

lemma promote_heap:
  assumes "pool_inv own pend l s" "a \<in> own"
  shows "heap (promote_to_sanctuary a s) =
    (if e_pool_type (heap s a) = Sanctuary then heap s
     else (heap s)(a := (heap s a)\<lparr>e_visited := True, e_pool_type := Sanctuary\<rparr>))"
proof -
  have "e_pool_type (heap s a) \<noteq> Sanctuary \<Longrightarrow> a \<notin> set (sieveList s)"
    using assms by (auto simp: pool_inv_def lists_inv_def)
  then show ?thesis
    using assms pool_inv_own_live [OF assms]
    by (simp add: promote_to_sanctuary_def check_live_id Let_def on_insert_def upd_entry_live
        pool_inv_def mem_inv_def)
qed

subsection \<open>Taking entries\<close>

definition fresh_probation :: entry where
  "fresh_probation = new_entry\<lparr>e_in_use := True, e_pool_type := Probation\<rparr>"

definition fresh_sanctuary :: entry where
  "fresh_sanctuary = new_entry\<lparr>e_in_use := True, e_visited := True, e_pool_type := Sanctuary\<rparr>"

text \<open>An entry on its way from the pool, or from the allocator, to an owner.\<close>

lemma take_pooled_mem:
  fixes f :: "entry \<Rightarrow> entry"
  assumes "pool_inv own pend l s" "pool_free s = a # rest" "e_in_use (f new_entry)"
  defines "s1 \<equiv> upd_entry a f (s\<lparr>pool_free := rest\<rparr>)"
  shows "mem_inv (insert a own) s1" "lists_inv own pend s1" "count_inv pend l s1" "a \<notin> own"
    "heap s1 = (heap s)(a := f new_entry)"
proof -
  have lv: "a \<in> live s" and na: "a \<notin> own" and new: "heap s a = new_entry"
    using assms(1,2) by (auto simp: pool_inv_def mem_inv_def)
  have s1: "s1 = s\<lparr>pool_free := rest, heap := (heap s)(a := f new_entry)\<rparr>"
    using lv new by (simp add: s1_def upd_entry_live)
  show "a \<notin> own" by (rule na)
  show "mem_inv (insert a own) s1"
    using assms(1-3) na unfolding s1 pool_inv_def mem_inv_def by auto
  show "lists_inv own pend s1"
    using assms(1) na unfolding s1 pool_inv_def lists_inv_def sieve_inv_def by auto
  show "count_inv pend l s1"
    using assms(1) unfolding s1 pool_inv_def count_inv_def by simp
  show "heap s1 = (heap s)(a := f new_entry)" by (simp add: s1)
qed

lemma take_fresh_mem:
  fixes f :: "entry \<Rightarrow> entry"
  assumes "pool_inv own pend l s" "pool_free s = []" "Suc (next_addr s) < 2 ^ 63"
    and "e_in_use (f new_entry)"
  defines "a \<equiv> next_addr s"
  defines "s1 \<equiv> upd_entry a f (snd (make_entry s))"
  shows "mem_inv (insert a own) s1" "lists_inv own pend s1" "count_inv pend l s1" "a \<notin> own"
    "heap s1 = (heap s)(a := f new_entry)"
proof -
  have na: "a \<notin> own"
    using assms(1) pool_inv_own_less [OF assms(1), of a] by (auto simp: a_def)
  have s1: "s1 = s\<lparr>heap := (heap s)(a := f new_entry), live := insert a (live s), next_addr := Suc a\<rparr>"
    by (simp add: s1_def make_entry_def upd_entry_live a_def)
  show "a \<notin> own" by (rule na)
  show "mem_inv (insert a own) s1"
    using assms(1-4) na unfolding s1 pool_inv_def mem_inv_def a_def by (auto simp: less_Suc_eq)
  show "lists_inv own pend s1"
    using assms(1) na unfolding s1 pool_inv_def lists_inv_def sieve_inv_def by auto
  show "count_inv pend l s1"
    using assms(1) unfolding s1 pool_inv_def count_inv_def a_def by auto
  show "heap s1 = (heap s)(a := f new_entry)" by (simp add: s1)
qed

lemma do_acquire_inv:
  assumes "pool_inv own pend l s" "Suc (next_addr s) < 2 ^ 63"
  obtains a s' where "do_acquire s = (Some a, s')" "a \<notin> own" "pool_inv (insert a own) pend l s'"
    "heap s' = (heap s)(a := fresh_sanctuary)"
proof -
  let ?use = "\<lambda>e. e\<lparr>e_in_use := True\<rparr>"
  obtain a s1 where s1: "mem_inv (insert a own) s1" "lists_inv own pend s1" "count_inv pend l s1"
      "a \<notin> own" "heap s1 = (heap s)(a := new_entry\<lparr>e_in_use := True\<rparr>)"
    and acq: "do_acquire s = (Some a, (on_insert a s1)\<lparr>sanc_count := sanc_count (on_insert a s1) + 1\<rparr>)"
  proof (cases "pool_free s")
    case Nil
    let ?s1 = "upd_entry (next_addr s) ?use (snd (make_entry s))"
    have m: "mem_inv (insert (next_addr s) own) ?s1" "lists_inv own pend ?s1" "count_inv pend l ?s1"
      "next_addr s \<notin> own" "heap ?s1 = (heap s)(next_addr s := new_entry\<lparr>e_in_use := True\<rparr>)"
      using take_fresh_mem [OF assms(1) Nil assms(2), where f = ?use] by simp_all
    have "do_acquire s = (Some (next_addr s),
        (on_insert (next_addr s) ?s1)\<lparr>sanc_count := sanc_count (on_insert (next_addr s) ?s1) + 1\<rparr>)"
      using Nil m(1) by (simp add: do_acquire_def make_entry_def mem_inv_def on_insert_def upd_entry_def check_live_def raise_if_def Let_def)
    with m that show thesis by blast
  next
    case (Cons a rest)
    let ?s1 = "upd_entry a ?use (s\<lparr>pool_free := rest\<rparr>)"
    have m: "mem_inv (insert a own) ?s1" "lists_inv own pend ?s1" "count_inv pend l ?s1"
      "a \<notin> own" "heap ?s1 = (heap s)(a := new_entry\<lparr>e_in_use := True\<rparr>)"
      using take_pooled_mem [OF assms(1) Cons, where f = ?use] by simp_all
    have "do_acquire s = (Some a, (on_insert a ?s1)\<lparr>sanc_count := sanc_count (on_insert a ?s1) + 1\<rparr>)"
      using Cons m(1) by (simp add: do_acquire_def mem_inv_def on_insert_def upd_entry_def check_live_def raise_if_def Let_def)
    with m that show thesis by blast
  qed
  have "lists_inv (insert a own - {a}) pend s1" using s1(2,4) by simp
  from link_sanctuary_inv [OF s1(1) this s1(3)] have
    "pool_inv (insert a own) pend l ((on_insert a s1)\<lparr>sanc_count := sanc_count (on_insert a s1) + 1\<rparr>)"
    by simp
  moreover have "heap (on_insert a s1) = (heap s)(a := fresh_sanctuary)"
    using s1 by (auto simp: on_insert_def Let_def fresh_sanctuary_def lists_inv_def)
  ultimately show thesis using that acq s1(4) by simp
qed

subsection \<open>The reaper is first in, first out\<close>

lemma reaper_loop_fifo:
  assumes "distinct (probation_list s)" "set (probation_list s) \<subseteq> live s"
    and "probation_hand s = begin_it (probation_list s)"
    and "k = min (b - n) (length (probation_list s))"
  shows "reaper_loop b n s vs =
    (n + k, s\<lparr>probation_list := drop k (probation_list s), prob_count := prob_count s - of_nat k,
             probation_hand := begin_it (drop k (probation_list s))\<rparr>,
     vs @ map (\<lambda>a. e_key (heap s a)) (take k (probation_list s)))"
  using assms
proof (induction "probation_list s" arbitrary: s n k vs)
  case Nil
  then show ?case by (subst reaper_loop.simps) simp
next
  case (Cons a xs)
  note pl = Cons.hyps(2) [symmetric]
  show ?case
  proof (cases "n < b")
    case False
    with Cons.prems(3,4) pl show ?thesis by (subst reaper_loop.simps) simp
  next
    case True
    let ?s = "s\<lparr>probation_list := xs, prob_count := prob_count s - 1, probation_hand := begin_it xs\<rparr>"
    define j where "j = min (b - Suc n) (length xs)"
    have k: "k = Suc j"
      using True Cons.prems(4) pl by (simp add: j_def)
    have "reaper_loop b n s vs = reaper_loop b (Suc n) ?s (vs @ [e_key (heap s a)])"
      using True pl Cons.prems
      by (subst reaper_loop.simps) (cases xs; simp add: check_live_id)
    also have "\<dots> = (Suc n + j, ?s\<lparr>probation_list := drop j xs, prob_count := prob_count ?s - of_nat j,
             probation_hand := begin_it (drop j xs)\<rparr>,
        (vs @ [e_key (heap s a)]) @ map (\<lambda>a. e_key (heap ?s a)) (take j xs))"
      using Cons.hyps(1) [of ?s j "Suc n" "vs @ [e_key (heap s a)]"] Cons.prems pl by (simp add: j_def)
    finally show ?thesis by (simp add: k pl)
  qed
qed

definition reap_count :: "'z pool_state_scheme \<Rightarrow> nat" where
  "reap_count s = min (unat (reaper_budget s)) (length (probation_list s))"

definition reap_victims :: "'z pool_state_scheme \<Rightarrow> addr list" where
  "reap_victims s = take (reap_count s) (probation_list s)"

definition reaped :: "'z pool_state_scheme \<Rightarrow> 'z pool_state_scheme" where
  "reaped s = s\<lparr>probation_list := drop (reap_count s) (probation_list s),
     prob_count := prob_count s - of_nat (reap_count s),
     probation_hand := begin_it (drop (reap_count s) (probation_list s)),
     prob_eviction_count := prob_eviction_count s + of_nat (reap_count s)\<rparr>"

lemma run_sequential_reaper_eq:
  assumes "pool_inv own pend l s" "probation_list s \<noteq> []"
  shows "run_sequential_reaper cb s =
    (let victims = map (\<lambda>a. e_key (heap s a)) (reap_victims s)
     in case cb of None \<Rightarrow> reaped s
        | Some on_evict \<Rightarrow> if victims \<noteq> [] then on_evict victims (reaped s) else reaped s)"
proof -
  let ?s = "s\<lparr>probation_hand := begin_it (probation_list s)\<rparr>"
  have d: "distinct (probation_list s)" "set (probation_list s) \<subseteq> live s"
    using assms by (auto simp: pool_inv_def lists_inv_def mem_inv_def hand_in_def)
  have "reaper_loop (unat (reaper_budget s)) 0 ?s [] =
      (reap_count s, ?s\<lparr>probation_list := drop (reap_count s) (probation_list s),
         prob_count := prob_count s - of_nat (reap_count s),
         probation_hand := begin_it (drop (reap_count s) (probation_list s))\<rparr>,
       map (\<lambda>a. e_key (heap s a)) (reap_victims s))"
    using d reaper_loop_fifo [of ?s "reap_count s" "unat (reaper_budget s)" 0 "[]"]
    by (simp add: reap_count_def reap_victims_def)
  then show ?thesis using assms(2)
    by (simp add: run_sequential_reaper_def reaped_def Let_def split: option.split)
qed

lemma reaped_inv:
  assumes "pool_inv own pend l s"
  shows "pool_inv own pend l (reaped s)"
proof -
  let ?k = "reap_count s" and ?xs = "probation_list s"
  have k: "?k \<le> length ?xs" by (simp add: reap_count_def)
  have sub: "set (drop ?k ?xs) \<subseteq> set ?xs" by (rule set_drop_subset)
  have "mem_inv own (reaped s)"
    using assms unfolding reaped_def pool_inv_def mem_inv_def by simp
  moreover have h: "hand_in (drop ?k ?xs) (begin_it (drop ?k ?xs))"
    using assms by (auto simp: hand_in_def pool_inv_def lists_inv_def dest: begin_it_in)
  moreover have "lists_inv own pend (reaped s)"
    using assms sub h unfolding pool_inv_def lists_inv_def sieve_inv_def
    by (auto simp: reaped_def)
  moreover have "count_inv pend l (reaped s)"
  proof (cases "prob_pool_max_size s = 0")
    case True
    then show ?thesis using assms k unfolding reaped_def pool_inv_def count_inv_def by simp
  next
    case False
    have "(of_nat (length ?xs + l) - of_nat ?k :: u64) = of_nat (length (drop ?k ?xs) + l)"
      using k by (simp add: of_nat_diff)
    with False show ?thesis using assms unfolding pool_inv_def count_inv_def
      by (simp add: reaped_def)
  qed
  ultimately show ?thesis by (simp add: pool_inv_def)
qed

lemma reap_victims_own: "pool_inv own pend l s \<Longrightarrow> set (reap_victims s) \<subseteq> own"
  using set_take_subset [of "reap_count s" "probation_list s"]
  by (auto simp: reap_victims_def pool_inv_def lists_inv_def)

text \<open>
  A probation entry is linked when it comes from the pool, and only counted when the pool
  was empty: the latter is what \<open>leaked\<close> records.
\<close>

lemma lists_inv_insert_probation:
  assumes "lists_inv own pend s" "a \<notin> own" "e_pool_type (heap s a) = Probation"
    and "prob_pool_max_size s \<noteq> 0"
  shows "lists_inv (insert a own) pend s"
  using assms unfolding lists_inv_def by auto

lemma prob_alloc_inv:
  assumes "pool_inv own pend l s" "pool_free s = []" "Suc (next_addr s) < 2 ^ 63"
    and "prob_pool_max_size s \<noteq> 0"
  defines "a \<equiv> next_addr s"
  defines "s1 \<equiv> upd_entry a (\<lambda>e. e\<lparr>e_in_use := True, e_pool_type := Probation\<rparr>) (snd (make_entry s))"
  shows "pool_inv (insert a own) pend (Suc l) (s1\<lparr>prob_count := prob_count s1 + 1\<rparr>)"
    "a \<notin> own" "heap s1 = (heap s)(a := fresh_probation)"
proof -
  have m: "mem_inv (insert a own) s1" "lists_inv own pend s1" "count_inv pend l s1" "a \<notin> own"
    "heap s1 = (heap s)(a := fresh_probation)"
    using take_fresh_mem [OF assms(1-3), where f = "\<lambda>e. e\<lparr>e_in_use := True, e_pool_type := Probation\<rparr>"]
    by (simp_all add: s1_def a_def fresh_probation_def)
  have c: "prob_pool_max_size s1 \<noteq> 0" "next_addr s1 = Suc a" "l \<le> a"
    using assms(1,4) by (simp_all add: s1_def make_entry_def a_def pool_inv_def count_inv_def)
  have "lists_inv (insert a own) pend s1"
    using m(2,4) c(1) by (intro lists_inv_insert_probation) (simp_all add: m(5) fresh_probation_def)
  then have "lists_inv (insert a own) pend (s1\<lparr>prob_count := prob_count s1 + 1\<rparr>)"
    unfolding lists_inv_def sieve_inv_def by simp
  moreover have "mem_inv (insert a own) (s1\<lparr>prob_count := prob_count s1 + 1\<rparr>)"
    using m(1) unfolding mem_inv_def by simp
  moreover have "count_inv pend (Suc l) (s1\<lparr>prob_count := prob_count s1 + 1\<rparr>)"
    using m(3) c unfolding count_inv_def by (simp add: algebra_simps)
  ultimately show "pool_inv (insert a own) pend (Suc l) (s1\<lparr>prob_count := prob_count s1 + 1\<rparr>)"
    by (simp add: pool_inv_def)
  show "a \<notin> own" "heap s1 = (heap s)(a := fresh_probation)" by (rule m(4), rule m(5))
qed

lemma prob_take_inv:
  assumes "pool_inv own pend l s" "pool_free s = a # rest" "prob_pool_max_size s \<noteq> 0"
  defines "s1 \<equiv> upd_entry a (\<lambda>e. e\<lparr>e_in_use := True, e_pool_type := Probation\<rparr>) (s\<lparr>pool_free := rest\<rparr>)"
  shows "pool_inv (insert a own) pend l
      (s1\<lparr>prob_count := prob_count s1 + 1, probation_list := probation_list s1 @ [a]\<rparr>)"
    "a \<notin> own" "a \<notin> set (probation_list s)" "heap s1 = (heap s)(a := fresh_probation)"
proof -
  have m: "mem_inv (insert a own) s1" "lists_inv own pend s1" "count_inv pend l s1" "a \<notin> own"
    "heap s1 = (heap s)(a := fresh_probation)"
    using take_pooled_mem [OF assms(1,2), where f = "\<lambda>e. e\<lparr>e_in_use := True, e_pool_type := Probation\<rparr>"]
    by (simp_all add: s1_def fresh_probation_def)
  show na: "a \<notin> own" and hp: "heap s1 = (heap s)(a := fresh_probation)" by (rule m(4), rule m(5))
  have nl: "a \<notin> set (probation_list s)" "a \<notin> set (sieveList s)" "a \<notin> set pend"
    using assms(1) na by (auto simp: pool_inv_def lists_inv_def)
  then show "a \<notin> set (probation_list s)" by simp
  let ?s = "s1\<lparr>prob_count := prob_count s1 + 1, probation_list := probation_list s1 @ [a]\<rparr>"
  have f: "prob_pool_max_size s1 = prob_pool_max_size s" "probation_list s1 = probation_list s"
    "sieveList s1 = sieveList s" by (simp_all add: s1_def)
  have li: "lists_inv (insert a own) pend s1"
    using m(2,4) assms(3) by (intro lists_inv_insert_probation) (simp_all add: f hp fresh_probation_def)
  then have "hand_in (probation_list s @ [a]) (probation_hand s1)"
    using nl(1) unfolding lists_inv_def hand_in_def by (auto simp: f)
  then have "lists_inv (insert a own) pend ?s"
    using li nl unfolding lists_inv_def sieve_inv_def by (auto simp: f)
  moreover have "mem_inv (insert a own) ?s"
    using m(1) unfolding mem_inv_def by simp
  moreover have "count_inv pend l ?s"
    using m(3) assms(3) unfolding count_inv_def by (simp add: f algebra_simps)
  ultimately show "pool_inv (insert a own) pend l ?s" by (simp add: pool_inv_def)
qed

subsection \<open>Evicting from the sanctuary\<close>

lemma pool_inv_sieve:
  "pool_inv own pend l s \<Longrightarrow> sieve_inv s"
  "pool_inv own pend l s \<Longrightarrow> set (sieveList s) \<subseteq> live s"
  by (auto simp: pool_inv_def lists_inv_def mem_inv_def)

lemma evict_victims_distinct: "sieve_inv s \<Longrightarrow> distinct (evict_victims now s)"
  by (simp add: evict_victims_def from_hand_def sieve_inv_def hand_in_def distinct_dropWhile)

text \<open>The policy unlinks the entries \<open>V\<close> and clears the marks of \<open>A\<close>.\<close>

lemma unlink_pend_inv:
  assumes "pool_inv own pend l s" "distinct V" "set V \<subseteq> set (sieveList s)" "A \<subseteq> set (sieveList s)"
    and "hand_in (filter (\<lambda>a. a \<notin> set V) (sieveList s)) h"
  defines "t \<equiv> s\<lparr>heap := clear_visited A (heap s), sieveList := filter (\<lambda>a. a \<notin> set V) (sieveList s), sieve_hand := h\<rparr>"
  shows "pool_inv own (V @ pend) l t"
proof -
  let ?ys = "filter (\<lambda>a. a \<notin> set V) (sieveList s)"
  have "distinct (sieveList s)" using assms(1) by (simp add: pool_inv_def lists_inv_def sieve_inv_def hand_in_def)
  then have len: "length ?ys + length V = length (sieveList s)" using assms(2,3) by (intro length_filter_notin)
  have own: "A \<subseteq> own" using assms(1,4) by (auto simp: pool_inv_def lists_inv_def)
  have "mem_inv own t"
    using assms(1) own unfolding t_def pool_inv_def mem_inv_def by (auto simp: clear_visited_def)
  moreover have "sieve_inv t" using assms(5) by (simp add: t_def sieve_inv_def)
  then have "lists_inv own (V @ pend) t"
    using assms(1-3) unfolding t_def pool_inv_def lists_inv_def by (auto simp: clear_visited_def)
  moreover have "length ?ys + length (V @ pend) = length (sieveList s) + length pend" using len by simp
  then have "count_inv (V @ pend) l t"
    using assms(1) unfolding t_def pool_inv_def count_inv_def by (simp del: of_nat_add length_append)
  ultimately show ?thesis by (simp add: pool_inv_def)
qed

lemma evict_pend_inv:
  assumes "pool_inv own [] l s"
  shows "pool_inv own (evict_victims now s) l (snd (evict now s))"
proof (rule evict_cases [OF pool_inv_sieve [OF assms], of now])
  fix A h
  let ?v = "evict_victims now s" and ?ys = "filter (\<lambda>a. a \<notin> set (evict_victims now s)) (sieveList s)"
  assume A: "A \<subseteq> set (from_hand s)" and h: "hand_in ?ys h"
    and ev: "evict now s = (map (\<lambda>a. e_key (heap s a)) ?v,
       s\<lparr>heap := clear_visited A (heap s), sieveList := ?ys, sieve_hand := h\<rparr>)"
  have "A \<subseteq> set (sieveList s)" using A from_hand_subset [of s] by auto
  moreover have "distinct ?v" using pool_inv_sieve(1) [OF assms] by (rule evict_victims_distinct)
  ultimately show ?thesis
    using unlink_pend_inv [OF assms _ evict_victims_subset _ h, of A] by (simp add: ev)
qed

lemma on_erase_pend_inv:
  assumes "pool_inv own pend l s" "a \<in> set (sieveList s)"
  shows "pool_inv own (a # pend) l (on_erase a s)"
proof -
  obtain h where er: "on_erase a s = s\<lparr>sieveList := remove1 a (sieveList s), sieve_hand := h\<rparr>"
    using on_erase_eq by blast
  have d: "distinct (sieveList s)" using assms by (auto simp: pool_inv_def lists_inv_def sieve_inv_def hand_in_def)
  have "sieve_inv (on_erase a s)" using assms(1) by (intro on_erase_inv pool_inv_sieve(1))
  then have "lists_inv own (a # pend) (on_erase a s)"
    using assms d unfolding er pool_inv_def lists_inv_def by auto
  moreover have "mem_inv own (on_erase a s)"
    using assms unfolding er pool_inv_def mem_inv_def by simp
  moreover have "count_inv (a # pend) l (on_erase a s)"
    using assms length_remove1_in [OF assms(2)] unfolding er pool_inv_def count_inv_def by auto
  ultimately show ?thesis by (simp add: pool_inv_def)
qed

subsection \<open>Start-up establishes the invariant\<close>

lemma prepopulate_loop_eq:
  "prepopulate_loop n s =
     s\<lparr>heap := (\<lambda>a. if a \<in> {next_addr s..<next_addr s + n} then new_entry else heap s a),
       live := live s \<union> {next_addr s..<next_addr s + n}, next_addr := next_addr s + n,
       pool_free := pool_free s @ [next_addr s..<next_addr s + n]\<rparr>"
proof (induction n arbitrary: s)
  case 0
  then show ?case by simp
next
  case (Suc n)
  let ?a = "next_addr s"
  have up: "[?a..<?a + Suc n] = ?a # [Suc ?a..<Suc ?a + n]"
    by (simp add: upt_conv_Cons)
  have hp: "(\<lambda>a. if a \<in> {?a..<?a + Suc n} then new_entry else heap s a) =
      (\<lambda>a. if a \<in> {Suc ?a..<Suc ?a + n} then new_entry else ((heap s)(?a := new_entry)) a)"
    and lv: "live s \<union> {?a..<?a + Suc n} = insert ?a (live s) \<union> {Suc ?a..<Suc ?a + n}"
    by (auto simp: fun_eq_iff)
  have "prepopulate_loop (Suc n) s = prepopulate_loop n
      (s\<lparr>heap := (heap s)(?a := new_entry), live := insert ?a (live s), next_addr := Suc ?a,
         pool_free := pool_free s @ [?a]\<rparr>)"
    by (simp add: make_entry_def)
  also have "\<dots> = s\<lparr>heap := (\<lambda>a. if a \<in> {?a..<?a + Suc n} then new_entry else heap s a),
       live := live s \<union> {?a..<?a + Suc n}, next_addr := ?a + Suc n,
       pool_free := pool_free s @ [?a..<?a + Suc n]\<rparr>"
    unfolding Suc.IH up hp lv by (simp cong: if_cong)
  finally show ?case .
qed

definition pristine :: "'z pool_state_scheme \<Rightarrow> bool" where
  "pristine s \<longleftrightarrow> \<not> pool_initialized s \<and> \<not> fault s \<and> live s = {} \<and> next_addr s = 0
     \<and> sieveList s = [] \<and> sieve_hand s = None \<and> probation_list s = [] \<and> probation_hand s = None
     \<and> pool_free s = [] \<and> prob_count s = 0 \<and> sanc_count s = 0"


lemma prepopulate_inv:
  assumes "pristine s" "sieve_attached s" "max_size s < 2 ^ 63"
  shows "pool_inv {} [] 0 (prepopulate_pool m (s\<lparr>pool_initialized := True\<rparr>))"
  using assms unfolding prepopulate_pool_def prepopulate_loop_eq pool_inv_def
  by (simp add: pristine_def hand_in_def sieve_inv_def mem_inv_def lists_inv_def count_inv_def)

text \<open>What the sizing step of \<open>init\<close> leaves: a pool that is still empty, with its sizes set.\<close>

lemma pristine_sizes [simp]:
  "pristine (set_prob_sizes rnd cfg s) = pristine s"
  "pristine (s\<lparr>max_size := m\<rparr>) = pristine s"
  "pristine (s\<lparr>sieve_attached := b, value_offset := v, pool_usable_memory := u,
     pool_max_memory_percent := p\<rparr>) = pristine s"
  "sieve_attached (set_prob_sizes rnd cfg s) = sieve_attached s"
  "max_size (set_prob_sizes rnd cfg s) = max_size s"
  by (simp_all add: pristine_def set_prob_sizes_def Let_def)

lemma prepopulate_pool_max_size [simp]:
  "max_size (prepopulate_pool m (s\<lparr>pool_initialized := True\<rparr>)) = max_size s"
  by (simp add: prepopulate_pool_def prepopulate_loop_eq)

lemma prepopulate_pool_prob [simp]:
  "prob_pool_max_size (prepopulate_pool m (s\<lparr>pool_initialized := True\<rparr>)) = prob_pool_max_size s"
  by (simp add: prepopulate_pool_def prepopulate_loop_eq)

lemma prepopulate_pool_free [simp]:
  "length (pool_free (prepopulate_pool m (s\<lparr>pool_initialized := True\<rparr>))) = length (pool_free s) + max_size s"
  by (simp add: prepopulate_pool_def prepopulate_loop_eq)

lemma pool_init_shape:
  assumes "pristine s"
  obtains t where "pool_init rnd sz tm fm cfg s =
      prepopulate_pool fm ((set_prob_sizes rnd cfg t)\<lparr>pool_initialized := True\<rparr>)"
    "pristine t" "sieve_attached t"
proof (cases "pool_initialized s")
  case True
  then show ?thesis using assms by (simp add: pristine_def)
next
  case False
  let ?s1 = "s\<lparr>sieve_attached := True,
      value_offset := (pc_page_size_goal (dc_pool cfg) + pc_key_reserve (dc_pool cfg)) mod 2 ^ 64,
      pool_usable_memory :=
        to_size_t (rnd (rnd (1 - pc_memory_reserve_percentage (dc_pool cfg)) * rnd (of_nat tm))),
      pool_max_memory_percent := pc_pool_max_memory_percent (dc_pool cfg)\<rparr>"
  let ?t = "if max_size s = 0 \<or> get_max_allowed_memory_for_pool rnd ?s1
                < (get_per_entry_size_estimate sz ?s1 * max_size s) mod 2 ^ 64
            then ?s1\<lparr>max_size := calculate_optimal_pool_size rnd sz ?s1\<rparr> else ?s1"
  have "pool_init rnd sz tm fm cfg s =
      prepopulate_pool fm ((set_prob_sizes rnd cfg ?t)\<lparr>pool_initialized := True\<rparr>)"
    using False unfolding pool_init_def Let_def by simp
  moreover have "pristine ?t" "sieve_attached ?t" using assms by simp_all
  ultimately show ?thesis by (rule that)
qed

lemma pool_init_inv:
  assumes "pristine s" "max_size (pool_init rnd sz tm fm cfg s) < 2 ^ 63"
  shows "pool_inv {} [] 0 (pool_init rnd sz tm fm cfg s)"
  using pool_init_shape [OF assms(1)] assms(2) prepopulate_inv
  by (metis prepopulate_pool_max_size pristine_sizes(1) pristine_sizes(4))

lemma pool_init_full:
  assumes "pristine s"
  shows "get_available_slots (pool_init rnd sz tm fm cfg s) = get_total_slots (pool_init rnd sz tm fm cfg s)"
proof -
  obtain t where t: "pool_init rnd sz tm fm cfg s =
      prepopulate_pool fm ((set_prob_sizes rnd cfg t)\<lparr>pool_initialized := True\<rparr>)" "pristine t"
    using pool_init_shape [OF assms] by metis
  have "pool_free (set_prob_sizes rnd cfg t) = []"
    using t(2) by (simp add: set_prob_sizes_def Let_def pristine_def)
  then show ?thesis by (simp add: t get_available_slots_def get_total_slots_def)
qed

text \<open>The sizes the two triggers work with are within the pool.\<close>

lemma set_prob_sizes_bounds:
  assumes "rounding rnd" "max_size s \<le> 2 ^ 53" "pc_prob_pool_size_percent (dc_pool cfg) \<le> 1"
    "ec_trigger (evc_prob_evict (dc_ev_config cfg)) \<le> 1"
  shows "prob_pool_max_size (set_prob_sizes rnd cfg s) \<le> max_size s"
    "unat (prob_threshold (set_prob_sizes rnd cfg s)) \<le> prob_pool_max_size (set_prob_sizes rnd cfg s)"
proof -
  let ?n = "prob_pool_max_size (set_prob_sizes rnd cfg s)"
  let ?t = "to_size_t (rnd (ec_trigger (evc_prob_evict (dc_ev_config cfg)) * rnd (of_nat ?n)))"
  have n: "?n = to_size_t (rnd (pc_prob_pool_size_percent (dc_pool cfg) * rnd (of_nat (max_size s))))"
    by (simp add: set_prob_sizes_def Let_def to_size_t_def)
  show 1: "?n \<le> max_size s" unfolding n by (rule to_size_t_fraction [OF assms(1,3,2)])
  have t: "?t \<le> ?n" using 1 assms(2) by (intro to_size_t_fraction [OF assms(1,4)]) simp
  have "prob_threshold (set_prob_sizes rnd cfg s) = of_nat ?t"
    by (simp add: set_prob_sizes_def Let_def)
  moreover have "?t < 2 ^ 64" using t 1 assms(2) by simp
  ultimately have "unat (prob_threshold (set_prob_sizes rnd cfg s)) = ?t"
    by (simp add: unat_of_nat_u64)
  then show "unat (prob_threshold (set_prob_sizes rnd cfg s)) \<le> ?n" using t by simp
qed

lemma pool_init_bounds:
  assumes "pristine s" "rounding rnd" "max_size (pool_init rnd sz tm fm cfg s) \<le> 2 ^ 53"
    "pc_prob_pool_size_percent (dc_pool cfg) \<le> 1"
    "ec_trigger (evc_prob_evict (dc_ev_config cfg)) \<le> 1"
  shows "prob_pool_max_size (pool_init rnd sz tm fm cfg s) \<le> max_size (pool_init rnd sz tm fm cfg s)"
    "unat (prob_threshold (pool_init rnd sz tm fm cfg s)) \<le> prob_pool_max_size (pool_init rnd sz tm fm cfg s)"
proof -
  obtain t where t: "pool_init rnd sz tm fm cfg s =
      prepopulate_pool fm ((set_prob_sizes rnd cfg t)\<lparr>pool_initialized := True\<rparr>)"
    using pool_init_shape [OF assms(1)] by metis
  have th: "prob_threshold (pool_init rnd sz tm fm cfg s) = prob_threshold (set_prob_sizes rnd cfg t)"
    by (simp add: t prepopulate_pool_def prepopulate_loop_eq)
  have "max_size t \<le> 2 ^ 53" using assms(3) by (simp add: t)
  note b = set_prob_sizes_bounds [OF assms(2) this assms(4,5)]
  show "prob_pool_max_size (pool_init rnd sz tm fm cfg s) \<le> max_size (pool_init rnd sz tm fm cfg s)"
    using b(1) by (simp add: t)
  show "unat (prob_threshold (pool_init rnd sz tm fm cfg s)) \<le> prob_pool_max_size (pool_init rnd sz tm fm cfg s)"
    unfolding th using b(2) by (simp add: t)
qed

text \<open>
  The filled pool fits in the share of memory it is allowed, whatever size the caller
  asked for, as long as the product of that size with the estimate of an entry does not
  wrap at 64 bits.
\<close>

lemma pool_init_fits:
  fixes rnd sz tm fm cfg and s :: "'z pool_state_scheme"
  assumes "\<not> pool_initialized s"
    "max_size s * ((sz + (pc_page_size_goal (dc_pool cfg) + pc_key_reserve (dc_pool cfg)) mod 2 ^ 64) mod 2 ^ 64) < 2 ^ 64"
  defines "t \<equiv> pool_init rnd sz tm fm cfg s"
  shows "max_size t * get_per_entry_size_estimate sz t \<le> get_max_allowed_memory_for_pool rnd t"
proof -
  let ?s1 = "s\<lparr>sieve_attached := True,
      value_offset := (pc_page_size_goal (dc_pool cfg) + pc_key_reserve (dc_pool cfg)) mod 2 ^ 64,
      pool_usable_memory :=
        to_size_t (rnd (rnd (1 - pc_memory_reserve_percentage (dc_pool cfg)) * rnd (of_nat tm))),
      pool_max_memory_percent := pc_pool_max_memory_percent (dc_pool cfg)\<rparr>"
  let ?e = "get_per_entry_size_estimate sz ?s1" and ?m = "get_max_allowed_memory_for_pool rnd ?s1"
  have opt: "calculate_optimal_pool_size rnd sz ?s1 * ?e \<le> ?m"
    by (simp add: calculate_optimal_pool_size_def Let_def)
  have e: "get_per_entry_size_estimate sz t = ?e" and m: "get_max_allowed_memory_for_pool rnd t = ?m"
    and sz: "max_size t = (if max_size s = 0 \<or> ?m < (?e * max_size s) mod 2 ^ 64
                           then calculate_optimal_pool_size rnd sz ?s1 else max_size s)"
    using assms(1) unfolding t_def pool_init_def Let_def set_prob_sizes_def
    by (simp_all add: prepopulate_pool_def prepopulate_loop_eq get_per_entry_size_estimate_def
        get_max_allowed_memory_for_pool_def)
  have "(?e * max_size s) mod 2 ^ 64 = max_size s * ?e"
    using assms(2) by (simp add: get_per_entry_size_estimate_def mult.commute)
  then show ?thesis using opt unfolding e m sz by (auto simp: not_less)
qed

subsection \<open>Properties\<close>

definition example_pool_config :: db_config where
  "example_pool_config = default_db_config
     \<lparr>dc_ev_config := \<lparr>evc_policy = SievePolicyKind,
        evc_soft = \<lparr>ec_trigger = 3 / 4, ec_stop = 1 / 2, ec_budget = 2, ec_prob_budget = 0, ec_throttle = False\<rparr>,
        evc_prob_evict = \<lparr>ec_trigger = 1, ec_stop = 0, ec_budget = 0, ec_prob_budget = 1, ec_throttle = False\<rparr>\<rparr>,
      dc_pool := \<lparr>pc_mode = PoolByMemory, pc_memory_reserve_percentage = 1 / 2,
        pc_pool_max_memory_percent = 1 / 2, pc_page_size_goal = 20, pc_key_reserve = 4,
        pc_prob_pool_size_percent = 1 / 2\<rparr>\<rparr>"

definition blank_pool :: pool_state where
  "blank_pool =
     \<lparr>heap = (\<lambda>_. new_entry), live = {}, next_addr = 0, fault = False,
      sieveList = [], sieve_hand = None, evCfg = dc_ev_config example_pool_config,
      evictParams = evc_soft (dc_ev_config example_pool_config),
      pool_free = [], value_offset = 65432, free_after_pool = 0, pool_max_memory_percent = 7 / 10,
      pool_usable_memory = 0, max_size = 0, prob_pool_max_size = 0, prob_threshold = 0,
      reaper_budget = 0, prob_count = 0, sanc_count = 0, pool_initialized = False,
      prob_eviction_count = 0, probation_list = [], probation_hand = None, sieve_attached = False\<rparr>"

lemma blank_pool_pristine: "pristine blank_pool"
  by (simp add: pristine_def blank_pool_def)

definition example_pool :: pool_state where
  "example_pool = pool_init id 76 1600 0 example_pool_config blank_pool"

lemma example_pool_eq:
  "example_pool =
     \<lparr>heap = (\<lambda>_. new_entry), live = {0..<4}, next_addr = 4, fault = False,
      sieveList = [], sieve_hand = None, evCfg = dc_ev_config example_pool_config,
      evictParams = evc_soft (dc_ev_config example_pool_config),
      pool_free = [0..<4], value_offset = 24, free_after_pool = 0, pool_max_memory_percent = 1 / 2,
      pool_usable_memory = 800, max_size = 4, prob_pool_max_size = 2, prob_threshold = 2,
      reaper_budget = 1, prob_count = 0, sanc_count = 0, pool_initialized = True,
      prob_eviction_count = 0, probation_list = [], probation_hand = None, sieve_attached = True\<rparr>"
  by (simp add: example_pool_def blank_pool_def pool_init_def Let_def set_prob_sizes_def
      prepopulate_pool_def prepopulate_loop_eq calculate_optimal_pool_size_def
      get_max_allowed_memory_for_pool_def get_per_entry_size_estimate_def to_size_t_def
      example_pool_config_def default_db_config_def cong: if_cong)

lemma example_pool_inv: "pool_inv {} [] 0 example_pool"
  unfolding example_pool_def
  by (rule pool_init_inv [OF blank_pool_pristine])
    (simp add: example_pool_eq [unfolded example_pool_def])

text \<open>
  C23. Start-up fills the pool to its size and puts it in a consistent state: all slots are available, no
  entry is owned or linked, and the counters agree with the lists.
\<close>

theorem pool_init_consistent:
  assumes "pristine s" "max_size (pool_init rnd sz tm fm cfg s) < 2 ^ 63"
  shows "pool_inv {} [] 0 (pool_init rnd sz tm fm cfg s)
    \<and> get_available_slots (pool_init rnd sz tm fm cfg s) = get_total_slots (pool_init rnd sz tm fm cfg s)"
  using pool_init_inv [OF assms] pool_init_full [OF assms(1)] by simp

theorem pool_init_consistent_witness:
  "pool_inv {} [] 0 (pool_init id 76 1600 0 example_pool_config blank_pool)"
  using pool_init_consistent [OF blank_pool_pristine, of id 76 1600 0 example_pool_config]
  by (simp add: example_pool_eq [unfolded example_pool_def])

text \<open>
  C24. The pool fits in the memory it may use: whatever size was asked for, the size chosen at
  start-up times the estimated size of an entry is within the allowed share of the usable
  memory, provided the requested size times the estimate does not wrap at 64 bits.
\<close>

theorem pool_init_within_budget:
  assumes "\<not> pool_initialized s"
    "max_size s * ((sz + (pc_page_size_goal (dc_pool cfg) + pc_key_reserve (dc_pool cfg)) mod 2 ^ 64) mod 2 ^ 64) < 2 ^ 64"
  shows "max_size (pool_init rnd sz tm fm cfg s) * get_per_entry_size_estimate sz (pool_init rnd sz tm fm cfg s)
    \<le> get_max_allowed_memory_for_pool rnd (pool_init rnd sz tm fm cfg s)"
  by (rule pool_init_fits [OF assms])

theorem pool_init_within_budget_witness:
  "max_size example_pool * get_per_entry_size_estimate 76 example_pool \<le> get_max_allowed_memory_for_pool id example_pool"
  using pool_init_within_budget [of blank_pool 76 example_pool_config id 1600 0]
  by (simp add: blank_pool_def example_pool_def)

text \<open>
  The sizes derived from fractions are ordered: for fractions of at most one and a pool of at most 2^53
  slots, the probation trigger is at most the probation pool's size, which is at most the
  pool's size, whatever rounding the floating-point operations do.
\<close>

theorem pool_init_ordered_sizes:
  assumes "pristine s" "rounding rnd" "max_size (pool_init rnd sz tm fm cfg s) \<le> 2 ^ 53"
    "pc_prob_pool_size_percent (dc_pool cfg) \<le> 1" "ec_trigger (evc_prob_evict (dc_ev_config cfg)) \<le> 1"
  shows "get_total_prob_slots (pool_init rnd sz tm fm cfg s) \<le> get_total_slots (pool_init rnd sz tm fm cfg s)
    \<and> unat (prob_threshold (pool_init rnd sz tm fm cfg s)) \<le> get_total_prob_slots (pool_init rnd sz tm fm cfg s)"
  using pool_init_bounds [OF assms] by (simp add: get_total_prob_slots_def get_total_slots_def)

theorem pool_init_ordered_sizes_witness:
  "get_total_prob_slots example_pool \<le> get_total_slots example_pool"
  using pool_init_ordered_sizes [OF blank_pool_pristine rounding_id, of 76 1600 0 example_pool_config]
  by (simp add: example_pool_eq [unfolded example_pool_def] example_pool_def)
    (simp add: example_pool_config_def)

text \<open>
  Releasing an owned entry: the entry is wiped, belongs to no list, and is in the pool, or is
  destroyed when the pool is full; every other entry is untouched.
\<close>

theorem release_entry:
  assumes "pool_inv own [] l s" "a \<in> own"
  shows "pool_inv (own - {a}) [] l (release (Some a) s)
    \<and> heap (release (Some a) s) = (heap s)(a := new_entry)
    \<and> a \<notin> set (sieveList (release (Some a) s)) \<union> set (probation_list (release (Some a) s))
    \<and> (a \<in> set (pool_free (release (Some a) s)) \<or> a \<notin> live (release (Some a) s))"
proof -
  have inv: "pool_inv (own - {a}) [] l (release (Some a) s)" using release_inv [OF assms] by simp
  then have "a \<notin> set (sieveList (release (Some a) s)) \<union> set (probation_list (release (Some a) s))"
    and "a \<in> set (pool_free (release (Some a) s)) \<or> a \<notin> live (release (Some a) s)"
    by (auto simp: pool_inv_def lists_inv_def mem_inv_def)
  moreover have "heap (release (Some a) s) = (heap s)(a := new_entry)"
    by (simp add: release_def do_release_def do_prob_release_def Let_def return_or_destroy_def
      unlink_sanctuary_def on_erase_def destroy_entry_def)
  ultimately show ?thesis using inv by simp
qed

definition example_pool1 :: pool_state where
  "example_pool1 = snd (acquire None example_pool)"

lemma example_pool1_inv: "pool_inv {0} [] 0 example_pool1" "probation_list example_pool1 = [0]"
  "reaper_budget example_pool1 = 1"
proof -
  have pf: "pool_free example_pool = 0 # [1, 2, 3]" by (simp add: example_pool_eq upt_rec)
  have "prob_pool_max_size example_pool \<noteq> 0" by (simp add: example_pool_eq)
  note t = prob_take_inv [OF example_pool_inv pf this]
  have eq: "example_pool1 =
      (let s1 = upd_entry 0 (\<lambda>e. e\<lparr>e_in_use := True, e_pool_type := Probation\<rparr>) (example_pool\<lparr>pool_free := [1, 2, 3]\<rparr>)
       in s1\<lparr>prob_count := prob_count s1 + 1, probation_list := probation_list s1 @ [0]\<rparr>)"
    using pf t(3) by (simp add: example_pool1_def acquire_def do_prob_acquire_def Let_def example_pool_eq)
  show "pool_inv {0} [] 0 example_pool1" using t(1) by (simp add: eq Let_def)
  show "probation_list example_pool1 = [0]" "reaper_budget example_pool1 = 1"
    by (simp_all add: eq Let_def example_pool_eq upd_entry_def check_live_def)
qed

theorem release_entry_witness:
  "pool_inv {} [] 0 (release (Some 0) example_pool1)"
  using release_entry [OF example_pool1_inv(1), of 0] by simp

text \<open>
  The reaper is first in, first out: it unlinks the oldest probation entries, as many as its budget
  allows, hands their keys to the callback in that order, and counts them.
\<close>

theorem reaper_fifo:
  assumes "pool_inv own pend l s" "probation_list s \<noteq> []" "0 < unat (reaper_budget s)"
  shows "run_sequential_reaper (Some on_evict) s =
      on_evict (map (\<lambda>a. e_key (heap s a)) (take (unat (reaper_budget s)) (probation_list s))) (reaped s)
    \<and> probation_list (reaped s) = drop (unat (reaper_budget s)) (probation_list s)
    \<and> prob_eviction_count (reaped s) =
        prob_eviction_count s + of_nat (min (unat (reaper_budget s)) (length (probation_list s)))
    \<and> pool_inv own pend l (reaped s)"
proof -
  have k: "take (reap_count s) (probation_list s) = take (unat (reaper_budget s)) (probation_list s)"
    "drop (reap_count s) (probation_list s) = drop (unat (reaper_budget s)) (probation_list s)"
    by (simp_all add: reap_count_def min_def)
  have "take (unat (reaper_budget s)) (probation_list s) \<noteq> []" using assms(2,3) by simp
  then have "run_sequential_reaper (Some on_evict) s =
      on_evict (map (\<lambda>a. e_key (heap s a)) (take (unat (reaper_budget s)) (probation_list s))) (reaped s)"
    using run_sequential_reaper_eq [OF assms(1,2), of "Some on_evict"]
    by (simp add: reap_victims_def k Let_def)
  moreover have "probation_list (reaped s) = drop (unat (reaper_budget s)) (probation_list s)"
    using k(2) by (simp add: reaped_def)
  moreover have "prob_eviction_count (reaped s) =
      prob_eviction_count s + of_nat (min (unat (reaper_budget s)) (length (probation_list s)))"
    by (simp add: reaped_def reap_count_def)
  ultimately show ?thesis using reaped_inv [OF assms(1)] by simp
qed

theorem reaper_fifo_witness:
  "run_sequential_reaper (Some (\<lambda>ks s. s\<lparr>max_size := length ks\<rparr>)) example_pool1 = (reaped example_pool1)\<lparr>max_size := 1\<rparr>"
  using reaper_fifo [OF example_pool1_inv(1), of "\<lambda>ks s. s\<lparr>max_size := length ks\<rparr>"] example_pool1_inv(2,3)
  by simp

end
