(* ===== verification/Store.thy ===== *)
theory Store
  imports Pool
begin

text \<open>
  The store of one shard: \<open>include/kv_store.hh\<close>, \<open>src/kv_store.cc\<close> and its counters
  (\<open>include/shard_stats.hh\<close>). The store's record extends the pool's, which extends the
  policy's, so that a state holds everything one \<open>store\<close> object reaches.

  Parameters: \<open>rnd\<close> (rounding of \<open>double\<close> operations), \<open>sz\<close>
  (\<open>sizeof(ttl::Entry)\<close>), what \<open>seastar::memory::stats()\<close> reports, and the values
  that the calls of \<open>now_s()\<close> return. A coroutine is one step here: its yield points
  are not.
\<close>

subsection \<open>Counters\<close>

record shard_stats =
  st_pool_fallback_allocs :: u64
  st_eviction_count :: u64
  st_cache_miss :: u64

record shard_stats_snapshot =
  sn_pool_fallback_allocs :: u64
  sn_pool_available_slots :: nat
  sn_pool_total_slots :: nat
  sn_key_count :: nat
  sn_eviction_count :: u64
  sn_cache_miss :: u64
  sn_probationary_pool_total_slots :: nat
  sn_probationary_pool_used_slots :: u64
  sn_probationary_eviction_count :: u64

definition stats_record_pool_fallback_alloc :: "shard_stats \<Rightarrow> shard_stats" where
  "stats_record_pool_fallback_alloc st = st\<lparr>st_pool_fallback_allocs := st_pool_fallback_allocs st + 1\<rparr>"

definition stats_record_eviction :: "shard_stats \<Rightarrow> shard_stats" where
  "stats_record_eviction st = st\<lparr>st_eviction_count := st_eviction_count st + 1\<rparr>"

definition stats_record_cache_miss_count :: "u64 \<Rightarrow> shard_stats \<Rightarrow> shard_stats" where
  "stats_record_cache_miss_count n st = st\<lparr>st_cache_miss := st_cache_miss st + 1\<rparr>"

definition stats_snapshot ::
  "nat \<Rightarrow> nat \<Rightarrow> nat \<Rightarrow> nat \<Rightarrow> u64 \<Rightarrow> u64 \<Rightarrow> shard_stats \<Rightarrow> shard_stats_snapshot" where
  "stats_snapshot available slots keys prob_total prob_used prob_evicted st =
     \<lparr>sn_pool_fallback_allocs = st_pool_fallback_allocs st, sn_pool_available_slots = available,
      sn_pool_total_slots = slots, sn_key_count = keys, sn_eviction_count = st_eviction_count st,
      sn_cache_miss = st_cache_miss st, sn_probationary_pool_total_slots = prob_total,
      sn_probationary_pool_used_slots = prob_used, sn_probationary_eviction_count = prob_evicted\<rparr>"

subsection \<open>The store\<close>

text \<open>
  \<open>kvmap\<close> is \<open>_map\<close>, with the address a \<open>unique_ptr\<close> holds; \<open>sieve_policy\<close> says
  that the optional policy has a value; \<open>pq\<close> is the content of the priority queue.
\<close>

record store_state = pool_state +
  kvmap :: "sstring \<rightharpoonup> addr"
  ev_cfg :: EvictionConfig
  usable_memory :: nat
  sieve_policy :: bool
  stats :: shard_stats
  pq :: "heap_node list"

definition record_pool_fallback_alloc :: "'z store_state_scheme \<Rightarrow> 'z store_state_scheme" where
  "record_pool_fallback_alloc s = s\<lparr>stats := stats_record_pool_fallback_alloc (stats s)\<rparr>"

definition record_eviction :: "'z store_state_scheme \<Rightarrow> 'z store_state_scheme" where
  "record_eviction s = s\<lparr>stats := stats_record_eviction (stats s)\<rparr>"

definition record_cache_miss_count :: "u64 \<Rightarrow> 'z store_state_scheme \<Rightarrow> 'z store_state_scheme" where
  "record_cache_miss_count n s = s\<lparr>stats := stats_record_cache_miss_count n (stats s)\<rparr>"

text \<open>\<open>flat_hash_map::extract\<close> and \<open>try_emplace\<close>.\<close>

definition map_extract :: "sstring \<Rightarrow> 'z store_state_scheme \<Rightarrow> addr option \<times> 'z store_state_scheme" where
  "map_extract k s = (kvmap s k, s\<lparr>kvmap := (kvmap s)(k := None)\<rparr>)"

definition try_emplace ::
  "sstring \<Rightarrow> addr \<Rightarrow> 'z store_state_scheme \<Rightarrow> addr \<times> bool \<times> 'z store_state_scheme" where
  "try_emplace k a s =
     (case kvmap s k of
        Some b \<Rightarrow> (b, False, s)
      | None \<Rightarrow> (a, True, s\<lparr>kvmap := (kvmap s)(k \<mapsto> a)\<rparr>))"

text \<open>
  The loop over victim keys, which is the callback that \<open>start\<close> installs in the pool and
  the second half of \<open>check_memory_and_evict\<close>.
\<close>

fun release_victims :: "sstring list \<Rightarrow> 'z store_state_scheme \<Rightarrow> 'z store_state_scheme" where
  "release_victims [] s = s"
| "release_victims (key # keys) s =
     release_victims keys
       (case map_extract key s of
          (None, s1) \<Rightarrow> s1
        | (Some a, s1) \<Rightarrow> record_eviction (release (Some a) s1))"

subsection \<open>Start and stop\<close>

definition set_usable_memory ::
  "(double \<Rightarrow> double) \<Rightarrow> nat \<Rightarrow> double \<Rightarrow> 'z store_state_scheme \<Rightarrow> 'z store_state_scheme" where
  "set_usable_memory rnd total_mem reserve s =
     s\<lparr>usable_memory := to_size_t (rnd (rnd (1 - reserve) * rnd (of_nat total_mem)))\<rparr>"

definition emplace_policy :: "'z store_state_scheme \<Rightarrow> 'z store_state_scheme" where
  "emplace_policy s =
     (if sieve_policy s then s
      else s\<lparr>sieve_policy := True, sieveList := [], sieve_hand := None, evCfg := ev_cfg s,
             evictParams := evc_soft (ev_cfg s)\<rparr>)"

definition store_start ::
  "(double \<Rightarrow> double) \<Rightarrow> nat \<Rightarrow> nat \<Rightarrow> nat \<Rightarrow> db_config \<Rightarrow> 'z store_state_scheme \<Rightarrow> 'z store_state_scheme" where
  "store_start rnd sz total_mem free_mem cfg s =
     (let s1 = set_usable_memory rnd total_mem (pc_memory_reserve_percentage (dc_pool cfg)) s;
          s2 = emplace_policy (s1\<lparr>ev_cfg := dc_ev_config cfg\<rparr>)
      in pool_init rnd sz total_mem free_mem cfg s2)"

text \<open>
  \<open>stop\<close> clears the map, and with it destroys the entries the map owns; the destructor
  of a hook asserts that it is not linked.
\<close>

definition store_stop :: "'z store_state_scheme \<Rightarrow> 'z store_state_scheme" where
  "store_stop s =
     (raise_if (\<exists>a \<in> ran (kvmap s). a \<in> set (sieveList s) \<or> a \<in> set (probation_list s) \<or> a \<notin> live s) s)
       \<lparr>live := live s - ran (kvmap s), kvmap := Map.empty\<rparr>"

text \<open>
  A store object as its constructor leaves it; its pool is \<open>CacheEntryPool{0}\<close>. The
  fields of the policy, which does not exist yet, hold any configuration \<open>ev\<close>.
\<close>

definition empty_eviction_config :: EvictionConfig where
  "empty_eviction_config =
     \<lparr>evc_policy = SievePolicyKind,
      evc_soft = \<lparr>ec_trigger = 0, ec_stop = 0, ec_budget = 0, ec_prob_budget = 0, ec_throttle = False\<rparr>,
      evc_prob_evict = \<lparr>ec_trigger = 0, ec_stop = 0, ec_budget = 0, ec_prob_budget = 0, ec_throttle = False\<rparr>\<rparr>"

definition new_store :: "EvictionConfig \<Rightarrow> store_state" where
  "new_store ev =
     \<lparr>heap = (\<lambda>_. new_entry), live = {}, next_addr = 0, fault = False,
      sieveList = [], sieve_hand = None, evCfg = ev, evictParams = evc_soft ev,
      pool_free = [], value_offset = 65432, free_after_pool = 0, pool_max_memory_percent = 7 / 10,
      pool_usable_memory = 0, max_size = 0, prob_pool_max_size = 0, prob_threshold = 0,
      reaper_budget = 0, prob_count = 0, sanc_count = 0, pool_initialized = False,
      prob_eviction_count = 0, probation_list = [], probation_hand = None, sieve_attached = False,
      kvmap = Map.empty, ev_cfg = empty_eviction_config, usable_memory = 0, sieve_policy = False,
      stats = \<lparr>st_pool_fallback_allocs = 0, st_eviction_count = 0, st_cache_miss = 0\<rparr>, pq = []\<rparr>"

subsection \<open>Eviction\<close>

definition pool_usage_fraction :: "(double \<Rightarrow> double) \<Rightarrow> 'z store_state_scheme \<Rightarrow> double" where
  "pool_usage_fraction rnd s = rnd (rnd (of_nat (unat (get_used_slots s))) / rnd (of_nat (get_total_slots s)))"

definition check_memory_and_evict ::
  "(double \<Rightarrow> double) \<Rightarrow> u64 \<Rightarrow> 'z store_state_scheme \<Rightarrow> 'z store_state_scheme" where
  "check_memory_and_evict rnd now s =
     (if get_total_slots s = 0 then s
      else if ec_trigger (evc_soft (ev_cfg s)) \<le> pool_usage_fraction rnd s then
        (let s1 = set_eviction_type soft (raise_if (\<not> sieve_policy s) s)
         in if \<not> sieve_policy s1 then s1
            else let (sieve_victims, s2) = evict now s1 in release_victims sieve_victims s2)
      else s)"

subsection \<open>SET and GET\<close>

definition note_fallback :: "'z store_state_scheme \<Rightarrow> 'z store_state_scheme" where
  "note_fallback s = (if get_available_slots s = 0 then record_pool_fallback_alloc s else s)"

text \<open>
  What both forms of SET do with the acquired entry \<open>a\<close>, already filled in: it becomes
  the entry of a new key, or its value is moved into the entry the key has and \<open>a\<close> goes
  back to the pool.
\<close>

definition emplace_or_update ::
  "sstring \<Rightarrow> addr \<Rightarrow> bool \<Rightarrow> 'z store_state_scheme \<Rightarrow> 'z store_state_scheme" where
  "emplace_or_update key a update_ttl s =
     (case try_emplace key a s of
        (b, inserted, s1) \<Rightarrow>
          if inserted then s1
          else
            let s2 = upd_entry b (\<lambda>e. update_from e (heap s1 a) update_ttl) s1;
                s3 = promote_to_sanctuary b s2
            in release (Some a) s3)"

definition store_set ::
  "(double \<Rightarrow> double) \<Rightarrow> u64 \<Rightarrow> sstring \<Rightarrow> sstring \<Rightarrow> 'z store_state_scheme \<Rightarrow> bool \<times> 'z store_state_scheme" where
  "store_set rnd now key value s =
     (case acquire (Some release_victims) (note_fallback s) of
        (None, s1) \<Rightarrow> (False, s1)
      | (Some a, s1) \<Rightarrow>
          (let s2 = upd_entry a (\<lambda>e. e\<lparr>e_key := key, e_value := value\<rparr>) s1;
               s3 = emplace_or_update key a False s2
           in (True, check_memory_and_evict rnd now s3)))"

text \<open>\<open>now\<close> is what the first \<open>now_s()\<close> of \<open>set_with_ttl\<close> returns, \<open>now'\<close> the second.\<close>

definition set_with_ttl ::
  "(double \<Rightarrow> double) \<Rightarrow> u64 \<Rightarrow> u64 \<Rightarrow> sstring \<Rightarrow> sstring \<Rightarrow> u64 \<Rightarrow> 'z store_state_scheme
   \<Rightarrow> bool \<times> 'z store_state_scheme" where
  "set_with_ttl rnd now now' key value ttl s =
     (case acquire (Some release_victims) (note_fallback s) of
        (None, s1) \<Rightarrow> (False, s1)
      | (Some a, s1) \<Rightarrow>
          (let s2 = upd_entry a (\<lambda>e. e\<lparr>e_key := key, e_value := value, e_expires_at := now + ttl\<rparr>) s1;
               s3 = emplace_or_update key a True s2
           in (True, check_memory_and_evict rnd now' s3)))"

definition store_get ::
  "u64 \<Rightarrow> sstring \<Rightarrow> 'z store_state_scheme \<Rightarrow> sstring option \<times> 'z store_state_scheme" where
  "store_get now key s =
     (case kvmap s key of
        None \<Rightarrow> (None, s)
      | Some a \<Rightarrow>
          (let s0 = check_live a s
           in if e_expires_at (heap s0 a) \<noteq> 0 \<and> e_expires_at (heap s0 a) \<le> now then
                (let s1 = on_erase a (raise_if (\<not> sieve_policy s0) s0);
                     (node, s2) = map_extract key s1
                 in (None, release node s2))
              else
                (let s1 = promote_to_sanctuary a s0;
                     s2 = on_hit a (raise_if (\<not> sieve_policy s1) s1)
                 in (Some (e_value (heap s2 a)), s2))))"

subsection \<open>Expiry queue\<close>

text \<open>
  \<open>priority_queue::top\<close> is an element that no other precedes under the comparator; of
  several, the first. \<open>pop\<close> removes it.
\<close>

fun pq_top :: "heap_node list \<Rightarrow> heap_node option" where
  "pq_top [] = None"
| "pq_top (x # xs) = (case pq_top xs of None \<Rightarrow> Some x
                       | Some y \<Rightarrow> if MinExpiry x y then Some y else Some x)"

definition pq_pop :: "heap_node list \<Rightarrow> heap_node list" where
  "pq_pop xs = (case pq_top xs of None \<Rightarrow> [] | Some x \<Rightarrow> remove1 x xs)"

text \<open>\<open>store::is_expired\<close> does not treat a deadline of 0 as "never".\<close>

definition store_is_expired :: "u64 \<Rightarrow> u64 \<Rightarrow> bool" where
  "store_is_expired now expires_at \<longleftrightarrow> expires_at \<le> now"

text \<open>What the loop does with the node it took from the queue.\<close>

definition evict_ttl_key :: "heap_node \<Rightarrow> 'z store_state_scheme \<Rightarrow> 'z store_state_scheme" where
  "evict_ttl_key hd_node s =
     (case map_extract (hn_key hd_node) s of
        (None, s2) \<Rightarrow> s2
      | (Some a, s2) \<Rightarrow>
          (let s3 = check_live a s2
           in if e_ver (heap s3 a) = hn_ver hd_node
              then release (Some a) (on_erase a (raise_if (\<not> sieve_policy s3) s3))
              else s3\<lparr>kvmap := (kvmap s3)(hn_key hd_node \<mapsto> a)\<rparr>))"

fun evict_ttl_keys :: "u64 \<Rightarrow> nat \<Rightarrow> 'z store_state_scheme \<Rightarrow> 'z store_state_scheme" where
  "evict_ttl_keys now 0 s = s"
| "evict_ttl_keys now (Suc budget) s =
     (case pq_top (pq s) of
        None \<Rightarrow> s
      | Some hd_node \<Rightarrow>
          if \<not> store_is_expired now (hn_expires_at hd_node) then s
          else evict_ttl_keys now budget (evict_ttl_key hd_node (s\<lparr>pq := pq_pop (pq s)\<rparr>)))"

definition snapshot_stats :: "'z store_state_scheme \<Rightarrow> shard_stats_snapshot" where
  "snapshot_stats s =
     stats_snapshot (get_available_slots s) (get_total_slots s) (card (dom (kvmap s)))
       (get_total_prob_slots s) (get_used_prob_slots s) (get_prob_eviction_count s) (stats s)"

subsection \<open>Frame facts\<close>

lemma store_fields_memory [simp]:
  "kvmap (raise_if c s) = kvmap s" "sieve_policy (raise_if c s) = sieve_policy s"
  "stats (raise_if c s) = stats s" "ev_cfg (raise_if c s) = ev_cfg s" "pq (raise_if c s) = pq s"
  "kvmap (check_live a s) = kvmap s" "sieve_policy (check_live a s) = sieve_policy s"
  "stats (check_live a s) = stats s" "ev_cfg (check_live a s) = ev_cfg s" "pq (check_live a s) = pq s"
  "kvmap (upd_entry a f s) = kvmap s" "sieve_policy (upd_entry a f s) = sieve_policy s"
  "stats (upd_entry a f s) = stats s" "ev_cfg (upd_entry a f s) = ev_cfg s"
  "pq (upd_entry a f s) = pq s"
  "kvmap (destroy_entry a s) = kvmap s" "sieve_policy (destroy_entry a s) = sieve_policy s"
  "stats (destroy_entry a s) = stats s" "ev_cfg (destroy_entry a s) = ev_cfg s"
  "pq (destroy_entry a s) = pq s"
  by (simp_all add: raise_if_def check_live_def upd_entry_def destroy_entry_def)

lemma store_fields_erase [simp]:
  "kvmap (on_erase a s) = kvmap s" "sieve_policy (on_erase a s) = sieve_policy s"
  "stats (on_erase a s) = stats s" "ev_cfg (on_erase a s) = ev_cfg s" "pq (on_erase a s) = pq s"
  by (simp_all add: on_erase_def Let_def)

lemma store_fields_probation [simp]:
  "kvmap (remove_from_probation a s) = kvmap s" "sieve_policy (remove_from_probation a s) = sieve_policy s"
  "stats (remove_from_probation a s) = stats s" "ev_cfg (remove_from_probation a s) = ev_cfg s"
  "pq (remove_from_probation a s) = pq s"
  by (simp_all add: remove_from_probation_def Let_def)

lemma store_fields_unlink [simp]:
  "kvmap (unlink_sanctuary a s) = kvmap s" "sieve_policy (unlink_sanctuary a s) = sieve_policy s"
  "stats (unlink_sanctuary a s) = stats s" "ev_cfg (unlink_sanctuary a s) = ev_cfg s"
  "pq (unlink_sanctuary a s) = pq s"
  by (simp_all add: unlink_sanctuary_def Let_def)

lemma store_fields_return [simp]:
  "kvmap (return_or_destroy a s) = kvmap s" "sieve_policy (return_or_destroy a s) = sieve_policy s"
  "stats (return_or_destroy a s) = stats s" "ev_cfg (return_or_destroy a s) = ev_cfg s"
  "pq (return_or_destroy a s) = pq s"
  by (simp_all add: return_or_destroy_def)

lemma store_fields_release [simp]:
  "kvmap (release p s) = kvmap s" "sieve_policy (release p s) = sieve_policy s"
  "stats (release p s) = stats s" "ev_cfg (release p s) = ev_cfg s" "pq (release p s) = pq s"
  by (simp_all add: release_def do_release_def do_prob_release_def Let_def split: option.split)

lemma store_fields_insert [simp]:
  "kvmap (on_insert a s) = kvmap s" "sieve_policy (on_insert a s) = sieve_policy s"
  "stats (on_insert a s) = stats s" "ev_cfg (on_insert a s) = ev_cfg s" "pq (on_insert a s) = pq s"
  by (simp_all add: on_insert_def Let_def)

lemma store_fields_promote [simp]:
  "kvmap (promote_to_sanctuary a s) = kvmap s" "sieve_policy (promote_to_sanctuary a s) = sieve_policy s"
  "stats (promote_to_sanctuary a s) = stats s" "ev_cfg (promote_to_sanctuary a s) = ev_cfg s"
  "pq (promote_to_sanctuary a s) = pq s"
  by (simp_all add: promote_to_sanctuary_def Let_def)

subsection \<open>The invariant of a store\<close>

text \<open>
  \<open>leaks\<close>: with a probation pool, each fallback allocation is counted there for good.
  \<open>extra\<close> are entries a running operation owns besides the map, \<open>pend\<close> the entries
  the policy has unlinked and that the operation is about to release.
\<close>

definition leaks :: "'z store_state_scheme \<Rightarrow> nat" where
  "leaks s = (if prob_pool_max_size s = 0 then 0 else unat (st_pool_fallback_allocs (stats s)))"

definition keyed :: "'z store_state_scheme \<Rightarrow> bool" where
  "keyed s \<longleftrightarrow> (\<forall>k a. kvmap s k = Some a \<longrightarrow> e_key (heap s a) = k)"

definition kv_inv :: "addr set \<Rightarrow> addr list \<Rightarrow> 'z store_state_scheme \<Rightarrow> bool" where
  "kv_inv extra pend s \<longleftrightarrow> sieve_policy s \<and> keyed s \<and> extra \<inter> ran (kvmap s) = {}
     \<and> pool_inv (extra \<union> ran (kvmap s)) pend (leaks s) s"

abbreviation store_inv :: "'z store_state_scheme \<Rightarrow> bool" where
  "store_inv \<equiv> kv_inv {} []"

text \<open>The store as its clients see it: the value and the deadline of every key.\<close>

definition contents :: "'z store_state_scheme \<Rightarrow> sstring \<rightharpoonup> sstring \<times> u64" where
  "contents s k = map_option (\<lambda>a. (e_value (heap s a), e_expires_at (heap s a))) (kvmap s k)"

lemma keyed_inj: "keyed s \<Longrightarrow> kvmap s k = Some a \<Longrightarrow> kvmap s k' = Some a \<Longrightarrow> k = k'"
  by (auto simp: keyed_def)

lemma restrict_UNIV [simp]: "m |` UNIV = m"
  by (simp add: restrict_map_def)

lemma ran_extract:
  assumes "keyed s" "kvmap s k = Some a"
  shows "ran ((kvmap s)(k := None)) = ran (kvmap s) - {a}"
proof -
  have *: "((kvmap s)(k := None)) k' = Some b \<longleftrightarrow> kvmap s k' = Some b \<and> b \<noteq> a" for k' b
  proof (cases "k' = k")
    case False
    then have "kvmap s k' \<noteq> Some a" using keyed_inj [OF assms(1) _ assms(2)] by blast
    with False show ?thesis by auto
  qed (simp add: assms(2))
  show ?thesis by (rule set_eqI) (simp only: ran_def * mem_Collect_eq Diff_iff singleton_iff, blast)
qed

text \<open>The fields that the pool's invariant does not read.\<close>

lemma pool_inv_other_fields [simp]:
  "pool_inv own pend l (s\<lparr>kvmap := m\<rparr>) = pool_inv own pend l s"
  "pool_inv own pend l (s\<lparr>stats := st\<rparr>) = pool_inv own pend l s"
  "pool_inv own pend l (s\<lparr>pq := q\<rparr>) = pool_inv own pend l s"
  "pool_inv own pend l (s\<lparr>ev_cfg := c\<rparr>) = pool_inv own pend l s"
  "pool_inv own pend l (s\<lparr>usable_memory := u\<rparr>) = pool_inv own pend l s"
  by (simp_all add: pool_inv_defs sieve_inv_def)

lemma pool_inv_params [simp]:
  "pool_inv own pend l (set_eviction_type type s) = pool_inv own pend l s"
  by (simp add: set_eviction_type_def pool_inv_defs sieve_inv_def)

text \<open>Writing the data fields of an owned entry keeps the pool's invariant.\<close>

lemma pool_inv_upd_entry:
  assumes "pool_inv own pend l s" "a \<in> own"
    and "\<And>e. e_in_use (f e) = e_in_use e" "\<And>e. e_pool_type (f e) = e_pool_type e"
  shows "pool_inv own pend l (upd_entry a f s)"
proof -
  have lv: "a \<in> live s" using assms by (simp add: pool_inv_own_live)
  then have eq: "upd_entry a f s = s\<lparr>heap := (heap s)(a := f (heap s a))\<rparr>" by (rule upd_entry_live)
  have "mem_inv own (upd_entry a f s)"
    using assms unfolding eq pool_inv_def mem_inv_def by auto
  moreover have "lists_inv own pend (upd_entry a f s)"
    using assms unfolding eq pool_inv_def lists_inv_def sieve_inv_def by auto
  moreover have "count_inv pend l (upd_entry a f s)"
    using assms unfolding eq pool_inv_def count_inv_def by simp
  ultimately show ?thesis by (simp add: pool_inv_def)
qed

lemma heap_release [simp]: "heap (release (Some a) s) = (heap s)(a := new_entry)"
  by (simp add: release_def do_release_def do_prob_release_def Let_def return_or_destroy_def
      unlink_sanctuary_def on_erase_def destroy_entry_def)

lemma prob_max_release [simp]: "prob_pool_max_size (release p s) = prob_pool_max_size s"
  by (simp add: release_def do_release_def do_prob_release_def Let_def return_or_destroy_def
      unlink_sanctuary_def on_erase_def destroy_entry_def split: option.split)

lemma leaks_release [simp]: "leaks (release p s) = leaks s"
  by (simp add: leaks_def)

lemma leaks_fields [simp]:
  "leaks (s\<lparr>kvmap := m\<rparr>) = leaks s" "leaks (record_eviction s) = leaks s"
  by (simp_all add: leaks_def record_eviction_def stats_record_eviction_def)

lemma keyed_extract:
  assumes "keyed s" "kvmap s k = Some a"
  shows "keyed (release (Some a) (s\<lparr>kvmap := (kvmap s)(k := None)\<rparr>))"
proof -
  have "e_key (((heap s)(a := new_entry)) b) = k'" if "((kvmap s)(k := None)) k' = Some b" for k' b
    using that assms keyed_inj [OF assms(1), of k' b k]
    by (cases "k' = k"; cases "b = a") (simp_all add: keyed_def)
  then show ?thesis by (simp add: keyed_def)
qed

text \<open>Taking a key out of the map and giving its entry back.\<close>

lemma extract_release_inv:
  assumes "kv_inv extra pend s" "kvmap s k = Some a"
  shows "kv_inv extra (remove1 a pend) (release (Some a) (s\<lparr>kvmap := (kvmap s)(k := None)\<rparr>))"
proof -
  let ?s = "s\<lparr>kvmap := (kvmap s)(k := None)\<rparr>"
  have own: "extra \<union> (ran (kvmap s) - {a}) = extra \<union> ran (kvmap s) - {a}"
    and disj: "extra \<inter> (ran (kvmap s) - {a}) = {}"
    using assms(1) ranI [of "kvmap s", OF assms(2)] unfolding kv_inv_def by blast+
  have "pool_inv (extra \<union> ran (kvmap s) - {a}) (remove1 a pend) (leaks s) (release (Some a) ?s)"
    using assms by (intro release_inv) (simp_all add: kv_inv_def ranI)
  moreover have "keyed (release (Some a) ?s)"
    using assms by (intro keyed_extract) (simp_all add: kv_inv_def)
  ultimately show ?thesis
    using assms disj by (simp add: kv_inv_def own ran_extract)
qed

lemma record_eviction_inv [simp]: "kv_inv extra pend (record_eviction s) = kv_inv extra pend s"
  by (simp add: kv_inv_def keyed_def leaks_def record_eviction_def stats_record_eviction_def)

lemma remove1_filter_out:
  "distinct xs \<Longrightarrow> \<not> P a \<Longrightarrow> filter P (remove1 a xs) = filter P xs"
  by (induction xs) auto

lemma restrict_upd_None: "(m(k := None)) |` (- set ks) = m |` (- set (k # ks))"
  by (auto simp: restrict_map_def fun_eq_iff)

lemma release_victims_inv:
  "kv_inv extra pend s \<Longrightarrow>
   kv_inv extra (filter (\<lambda>a. a \<in> extra \<union> ran (kvmap s |` (- set ks))) pend) (release_victims ks s)"
proof (induction ks arbitrary: pend s)
  case Nil
  then have "set pend \<subseteq> extra \<union> ran (kvmap s)"
    by (simp add: kv_inv_def pool_inv_def lists_inv_def)
  then have "filter (\<lambda>a. a \<in> extra \<union> ran (kvmap s)) pend = pend"
    by (simp add: filter_id_conv subset_iff)
  with Nil show ?case by simp
next
  case (Cons k ks)
  show ?case
  proof (cases "kvmap s k")
    case None
    then have "s\<lparr>kvmap := (kvmap s)(k := None)\<rparr> = s" by (simp add: fun_upd_idem)
    moreover have "kvmap s |` (- set (k # ks)) = kvmap s |` (- set ks)"
      using None by (auto simp: restrict_map_def fun_eq_iff)
    ultimately show ?thesis using Cons.IH [OF Cons.prems] None by (simp add: map_extract_def)
  next
    case (Some a)
    let ?s = "release (Some a) (s\<lparr>kvmap := (kvmap s)(k := None)\<rparr>)"
    have d: "distinct pend" using Cons.prems by (simp add: kv_inv_def pool_inv_def lists_inv_def)
    have na: "a \<notin> extra \<union> ran (kvmap s |` (- set (k # ks)))"
    proof -
      have "keyed s" "a \<notin> extra"
        using Cons.prems Some by (auto simp: kv_inv_def intro: ranI)
      moreover have "k' = k" if "kvmap s k' = Some a" for k'
        using keyed_inj [OF \<open>keyed s\<close> that Some] .
      ultimately show ?thesis by (auto simp: ran_def restrict_map_def split: if_splits)
    qed
    have "kv_inv extra (remove1 a pend) (record_eviction ?s)"
      using extract_release_inv [OF Cons.prems Some] by simp
    note IH = Cons.IH [OF this]
    have m: "kvmap (record_eviction ?s) = (kvmap s)(k := None)" by (simp add: record_eviction_def)
    have "kv_inv extra (filter (\<lambda>a. a \<in> extra \<union> ran (kvmap s |` (- set (k # ks)))) (remove1 a pend))
        (release_victims ks (record_eviction ?s))"
      using IH unfolding m restrict_upd_None .
    then show ?thesis using Some na remove1_filter_out [OF d, of "\<lambda>a. a \<in> extra \<union> ran (kvmap s |` (- set (k # ks)))" a]
      by (simp add: map_extract_def)
  qed
qed

lemma release_victims_step:
  fixes k :: sstring
  assumes "keyed s"
  defines "t \<equiv> (case map_extract k s of (None, s1) \<Rightarrow> s1
              | (Some a, s1) \<Rightarrow> record_eviction (release (Some a) s1))"
  shows "keyed t" "kvmap t = (kvmap s)(k := None)" "contents t = (contents s)(k := None)"
proof -
  show m: "kvmap t = (kvmap s)(k := None)"
    by (cases "kvmap s k") (simp_all add: t_def map_extract_def record_eviction_def)
  have h: "heap t b = heap s b" if "kvmap s k' = Some b" "k' \<noteq> k" for k' b
    using that keyed_inj [OF assms(1), of k' b k]
    by (cases "kvmap s k") (auto simp: t_def map_extract_def record_eviction_def)
  show "keyed t" using assms(1) h by (simp add: keyed_def m)
  show "contents t = (contents s)(k := None)"
  proof
    fix k' show "contents t k' = ((contents s)(k := None)) k'"
      using h [of k'] by (cases "kvmap s k'") (auto simp: contents_def m)
  qed
qed

lemma release_victims_map: "keyed s \<Longrightarrow> kvmap (release_victims ks s) = kvmap s |` (- set ks)"
proof (induction ks arbitrary: s)
  case (Cons k ks)
  note t = release_victims_step [OF Cons.prems, of k]
  show ?case using Cons.IH [OF t(1)] unfolding t(2) restrict_upd_None by simp
qed simp

lemma release_victims_contents:
  "keyed s \<Longrightarrow> contents (release_victims ks s) = contents s |` (- set ks)"
proof (induction ks arbitrary: s)
  case (Cons k ks)
  note t = release_victims_step [OF Cons.prems, of k]
  show ?case using Cons.IH [OF t(1)] unfolding t(3) restrict_upd_None by simp
qed simp

lemma release_frame [simp]:
  "max_size (release p s) = max_size s" "evictParams (release p s) = evictParams s"
  "next_addr (release p s) = next_addr s" "reaper_budget (release p s) = reaper_budget s"
  "prob_threshold (release p s) = prob_threshold s"
  by (simp_all add: release_def do_release_def do_prob_release_def Let_def return_or_destroy_def
      unlink_sanctuary_def on_erase_def destroy_entry_def upd_entry_def check_live_def raise_if_def
      remove_from_probation_def split: option.split)

lemma release_pool_nonempty: "pool_free s \<noteq> [] \<Longrightarrow> pool_free (release p s) \<noteq> []"
  by (simp add: release_def do_release_def do_prob_release_def Let_def return_or_destroy_def
      unlink_sanctuary_def on_erase_def destroy_entry_def upd_entry_def check_live_def raise_if_def
      remove_from_probation_def split: option.split)

lemma release_victims_frame [simp]:
  "prob_pool_max_size (release_victims ks s) = prob_pool_max_size s"
  "max_size (release_victims ks s) = max_size s" "next_addr (release_victims ks s) = next_addr s"
  "sieve_policy (release_victims ks s) = sieve_policy s" "ev_cfg (release_victims ks s) = ev_cfg s"
  "pq (release_victims ks s) = pq s"
  "st_pool_fallback_allocs (stats (release_victims ks s)) = st_pool_fallback_allocs (stats s)"
  by (induction ks s rule: release_victims.induct)
    (simp_all add: map_extract_def record_eviction_def stats_record_eviction_def split: option.split)

lemma release_victims_pool_nonempty:
  "pool_free s \<noteq> [] \<Longrightarrow> pool_free (release_victims ks s) \<noteq> []"
  by (induction ks s rule: release_victims.induct)
    (simp_all add: map_extract_def record_eviction_def release_pool_nonempty split: option.split)

text \<open>Only the entries of removed keys are touched, and each removal is counted.\<close>

lemma release_victims_heap:
  "a \<notin> ran (kvmap s) \<Longrightarrow> heap (release_victims ks s) a = heap s a"
proof (induction ks arbitrary: s)
  case (Cons k ks)
  show ?case
  proof (cases "kvmap s k")
    case None
    then have "s\<lparr>kvmap := (kvmap s)(k := None)\<rparr> = s" by (simp add: fun_upd_idem)
    then show ?thesis using Cons None by (simp add: map_extract_def)
  next
    case (Some b)
    let ?t = "record_eviction (release (Some b) (s\<lparr>kvmap := (kvmap s)(k := None)\<rparr>))"
    have "a \<noteq> b" using Cons.prems ranI [of "kvmap s", OF Some] by auto
    moreover have "a \<notin> ran (kvmap ?t)"
      using Cons.prems by (auto simp: record_eviction_def ran_def split: if_splits)
    note Cons.IH [OF this]
    ultimately show ?thesis
      using Some by (simp add: map_extract_def record_eviction_def)
  qed
qed simp

lemma release_victims_count:
  "st_eviction_count (stats (release_victims ks s)) =
     st_eviction_count (stats s) + of_nat (card (set ks \<inter> dom (kvmap s)))"
proof (induction ks arbitrary: s)
  case (Cons k ks)
  show ?case
  proof (cases "kvmap s k")
    case None
    then have "s\<lparr>kvmap := (kvmap s)(k := None)\<rparr> = s" by (simp add: fun_upd_idem)
    moreover have "insert k (set ks) \<inter> dom (kvmap s) = set ks \<inter> dom (kvmap s)" using None by auto
    ultimately show ?thesis using Cons None by (simp add: map_extract_def)
  next
    case (Some b)
    let ?t = "record_eviction (release (Some b) (s\<lparr>kvmap := (kvmap s)(k := None)\<rparr>))"
    have d: "dom (kvmap ?t) = dom (kvmap s) - {k}" by (simp add: record_eviction_def)
    have "insert k (set ks) \<inter> dom (kvmap s) = insert k (set ks \<inter> (dom (kvmap s) - {k}))"
      using Some by auto
    then have "card (insert k (set ks) \<inter> dom (kvmap s)) = Suc (card (set ks \<inter> (dom (kvmap s) - {k})))"
      by simp
    then show ?thesis using Cons.IH [of ?t] Some unfolding d
      by (simp add: map_extract_def record_eviction_def stats_record_eviction_def)
  qed
qed simp

text \<open>
  What an operation that evicts leaves of the store: exactly the keys of \<open>K\<close> are gone,
  every other key has the entry it had, and the eviction counter has gone up by the size
  of \<open>K\<close>.
\<close>

definition drops :: "sstring set \<Rightarrow> 'z store_state_scheme \<Rightarrow> 'z store_state_scheme \<Rightarrow> bool" where
  "drops K s t \<longleftrightarrow> K \<subseteq> dom (kvmap s) \<and> kvmap t = kvmap s |` (- K) \<and> contents t = contents s |` (- K)
     \<and> st_eviction_count (stats t) = st_eviction_count (stats s) + of_nat (card K)
     \<and> st_pool_fallback_allocs (stats t) = st_pool_fallback_allocs (stats s)
     \<and> ev_cfg t = ev_cfg s \<and> max_size t = max_size s \<and> next_addr t = next_addr s \<and> pq t = pq s
     \<and> prob_pool_max_size t = prob_pool_max_size s \<and> sieve_policy t = sieve_policy s"

lemma drops_refl: "drops {} s s"
  by (simp add: drops_def)

lemma drops_release_victims:
  assumes "keyed s"
  shows "drops (set ks \<inter> dom (kvmap s)) s (release_victims ks s)"
proof -
  have r: "m |` (- set ks) = m |` (- (set ks \<inter> dom (kvmap s)))" if "dom m = dom (kvmap s)"
    for m :: "sstring \<rightharpoonup> 'b"
    using that by (auto simp: restrict_map_def fun_eq_iff)
  have "dom (contents s) = dom (kvmap s)" by (auto simp: contents_def)
  from r [OF this] r [of "kvmap s"] show ?thesis
    by (simp add: drops_def release_victims_map [OF assms] release_victims_contents [OF assms]
        release_victims_count)
qed

lemma kv_inv_frame:
  assumes "kv_inv extra pend s" "pool_inv (extra \<union> ran (kvmap s)) pend' (leaks s) t"
    and "kvmap t = kvmap s" "stats t = stats s" "sieve_policy t = sieve_policy s"
    and "prob_pool_max_size t = prob_pool_max_size s"
    and "\<And>a. a \<in> ran (kvmap s) \<Longrightarrow> e_key (heap t a) = e_key (heap s a)"
  shows "kv_inv extra pend' t"
proof -
  have "keyed t" using assms(1,3) assms(7) [OF ranI] by (simp add: kv_inv_def keyed_def)
  moreover have "leaks t = leaks s" using assms by (simp add: leaks_def)
  ultimately show ?thesis using assms by (simp add: kv_inv_def)
qed

lemma reaped_sel [simp]:
  "kvmap (reaped s) = kvmap s" "stats (reaped s) = stats s" "sieve_policy (reaped s) = sieve_policy s"
  "prob_pool_max_size (reaped s) = prob_pool_max_size s" "heap (reaped s) = heap s"
  "max_size (reaped s) = max_size s" "ev_cfg (reaped s) = ev_cfg s" "next_addr (reaped s) = next_addr s"
  "pq (reaped s) = pq s" "pool_free (reaped s) = pool_free s"
  by (simp_all add: reaped_def)

lemma contents_reaped [simp]: "contents (reaped s) = contents s"
  by (simp add: contents_def fun_eq_iff)

lemma reaped_kv_inv: "kv_inv extra [] s \<Longrightarrow> kv_inv extra [] (reaped s)"
  by (rule kv_inv_frame [where s = s]) (auto simp: kv_inv_def intro: reaped_inv)

lemma reaper_store:
  assumes "kv_inv extra [] s"
  obtains K where "drops K s (run_sequential_reaper (Some release_victims) s)"
    "kv_inv extra [] (run_sequential_reaper (Some release_victims) s)"
    "\<And>a. a \<notin> ran (kvmap s) \<Longrightarrow> heap (run_sequential_reaper (Some release_victims) s) a = heap s a"
    "pool_free s \<noteq> [] \<Longrightarrow> pool_free (run_sequential_reaper (Some release_victims) s) \<noteq> []"
    "K \<subseteq> (\<lambda>a. e_key (heap s a)) ` set (probation_list s)"
proof (cases "probation_list s = []")
  case True
  then have "run_sequential_reaper (Some release_victims) s = s" by (simp add: run_sequential_reaper_def)
  then show ?thesis using that [of "{}"] assms drops_refl [of s] by simp
next
  case False
  let ?ks = "map (\<lambda>a. e_key (heap s a)) (reap_victims s)"
  have eq: "run_sequential_reaper (Some release_victims) s = release_victims ?ks (reaped s)"
    using run_sequential_reaper_eq [of "extra \<union> ran (kvmap s)" "[]" "leaks s" s] assms False
    by (auto simp: kv_inv_def Let_def)
  have inv: "kv_inv extra [] (reaped s)" using assms by (rule reaped_kv_inv)
  have "drops (set ?ks \<inter> dom (kvmap s)) (reaped s) (release_victims ?ks (reaped s))"
    using drops_release_victims [of "reaped s" ?ks] inv by (simp add: kv_inv_def)
  then have "drops (set ?ks \<inter> dom (kvmap s)) s (release_victims ?ks (reaped s))"
    unfolding drops_def by simp
  moreover have "kv_inv extra [] (release_victims ?ks (reaped s))"
    using release_victims_inv [OF inv, of ?ks] by simp
  moreover have "set ?ks \<subseteq> (\<lambda>a. e_key (heap s a)) ` set (probation_list s)"
    using set_take_subset by (fastforce simp: reap_victims_def)
  ultimately show ?thesis
    using that [of "set ?ks \<inter> dom (kvmap s)"] release_victims_heap [of _ "reaped s" ?ks]
      release_victims_pool_nonempty [of "reaped s" ?ks] unfolding eq by auto
qed

subsection \<open>Acquiring an entry\<close>

lemma store_fields_make [simp]:
  "kvmap (snd (make_entry s)) = kvmap s" "stats (snd (make_entry s)) = stats s"
  "sieve_policy (snd (make_entry s)) = sieve_policy s" "ev_cfg (snd (make_entry s)) = ev_cfg s"
  "pq (snd (make_entry s)) = pq s" "max_size (snd (make_entry s)) = max_size s"
  "prob_pool_max_size (snd (make_entry s)) = prob_pool_max_size s"
  "next_addr (snd (make_entry s)) = Suc (next_addr s)"
  by (simp_all add: make_entry_def)

lemma on_insert_frame [simp]:
  "max_size (on_insert a s) = max_size s" "prob_pool_max_size (on_insert a s) = prob_pool_max_size s"
  "next_addr (on_insert a s) = next_addr s"
  by (simp_all add: on_insert_def Let_def)

lemma do_acquire_frame:
  assumes "do_acquire s = (p, t)"
  shows "kvmap t = kvmap s" "stats t = stats s" "sieve_policy t = sieve_policy s" "ev_cfg t = ev_cfg s"
    "pq t = pq s" "max_size t = max_size s" "prob_pool_max_size t = prob_pool_max_size s"
    "next_addr t \<le> Suc (next_addr s)"
proof -
  have t: "t = snd (do_acquire s)" using assms by simp
  show "kvmap t = kvmap s" "stats t = stats s" "sieve_policy t = sieve_policy s" "ev_cfg t = ev_cfg s"
    "pq t = pq s" "max_size t = max_size s" "prob_pool_max_size t = prob_pool_max_size s"
    "next_addr t \<le> Suc (next_addr s)"
    unfolding t by (simp_all add: do_acquire_def Let_def split_beta split: list.split)
qed

text \<open>The entry that SET gets, and what acquiring it has done to the rest of the store.\<close>

definition acquired :: "addr \<Rightarrow> sstring set \<Rightarrow> 'z store_state_scheme \<Rightarrow> 'z store_state_scheme \<Rightarrow> bool" where
  "acquired a K s t \<longleftrightarrow> kv_inv {a} [] t \<and> (heap t a = fresh_probation \<or> heap t a = fresh_sanctuary)
     \<and> K \<subseteq> dom (kvmap s) \<and> kvmap t = kvmap s |` (- K) \<and> contents t = contents s |` (- K)
     \<and> st_eviction_count (stats t) = st_eviction_count (stats s) + of_nat (card K)
     \<and> ev_cfg t = ev_cfg s \<and> max_size t = max_size s \<and> pq t = pq s
     \<and> prob_pool_max_size t = prob_pool_max_size s \<and> next_addr t \<le> Suc (next_addr s)"

lemma contents_cong:
  assumes "kvmap t = kvmap s" "\<And>a. a \<in> ran (kvmap s) \<Longrightarrow> heap t a = heap s a"
  shows "contents t = contents s"
proof
  fix k show "contents t k = contents s k"
    using assms(1) assms(2) [OF ranI] by (cases "kvmap s k") (simp_all add: contents_def)
qed

lemma note_fallback_sel [simp]:
  "kvmap (note_fallback s) = kvmap s" "heap (note_fallback s) = heap s"
  "next_addr (note_fallback s) = next_addr s" "sieve_policy (note_fallback s) = sieve_policy s"
  "prob_pool_max_size (note_fallback s) = prob_pool_max_size s" "ev_cfg (note_fallback s) = ev_cfg s"
  "pq (note_fallback s) = pq s" "max_size (note_fallback s) = max_size s"
  "pool_free (note_fallback s) = pool_free s"
  "st_eviction_count (stats (note_fallback s)) = st_eviction_count (stats s)"
  "pool_inv own pend l (note_fallback s) = pool_inv own pend l s"
  by (simp_all add: note_fallback_def record_pool_fallback_alloc_def stats_record_pool_fallback_alloc_def)

lemma contents_note_fallback [simp]: "contents (note_fallback s) = contents s"
  by (simp add: contents_def fun_eq_iff)

text \<open>An entry that comes from the pool or the allocator, for an operation that owns \<open>extra\<close> already.\<close>

lemma kv_inv_add_entry:
  assumes "kv_inv extra pend s" "pool_inv (insert a (extra \<union> ran (kvmap s))) pend (leaks t) t"
    and "a \<notin> extra \<union> ran (kvmap s)" "kvmap t = kvmap s" "sieve_policy t = sieve_policy s" "heap t = (heap s)(a := e)"
  shows "kv_inv (insert a extra) pend t" "contents t = contents s"
proof -
  have h: "b \<in> ran (kvmap s) \<Longrightarrow> heap t b = heap s b" for b using assms(3,6) by auto
  show "contents t = contents s" by (rule contents_cong [OF assms(4) h])
  have "keyed t" using assms(1) h [OF ranI] by (simp add: keyed_def kv_inv_def assms(4))
  then show "kv_inv (insert a extra) pend t" using assms by (auto simp: kv_inv_def)
qed

lemma do_acquire_kv_inv:
  assumes "kv_inv extra pend s" "Suc (next_addr s) < 2 ^ 63" "prob_pool_max_size s = 0"
  obtains a t where "do_acquire (note_fallback s) = (Some a, t)" "a \<notin> extra \<union> ran (kvmap s)"
    "kv_inv (insert a extra) pend t" "contents t = contents s" "heap t = (heap s)(a := fresh_sanctuary)"
proof -
  let ?s = "note_fallback s" and ?own = "extra \<union> ran (kvmap s)"
  have "pool_inv ?own pend 0 ?s" using assms(1,3) by (simp add: kv_inv_def leaks_def)
  then obtain a t where t: "do_acquire ?s = (Some a, t)" "a \<notin> ?own"
      "pool_inv (insert a ?own) pend 0 t" "heap t = (heap s)(a := fresh_sanctuary)"
    using do_acquire_inv [of ?own pend 0 ?s] assms(2) by (metis note_fallback_sel(2,3))
  note f = do_acquire_frame [OF t(1), unfolded note_fallback_sel]
  have "leaks t = 0" using assms(3) f(7) by (simp add: leaks_def)
  then show ?thesis using that [OF t(1,2)] t kv_inv_add_entry [OF assms(1) _ t(2) f(1,3) t(4)] by simp
qed

lemma alloc_kv_inv:
  assumes "kv_inv extra pend s" "Suc (next_addr s) < 2 ^ 63" "prob_pool_max_size s \<noteq> 0" "pool_free s = []"
  defines "s1 \<equiv> upd_entry (next_addr s) (\<lambda>e. e\<lparr>e_in_use := True, e_pool_type := Probation\<rparr>) (snd (make_entry (note_fallback s)))"
  defines "s2 \<equiv> s1\<lparr>prob_count := prob_count s1 + 1\<rparr>"
  shows "kv_inv (insert (next_addr s) extra) pend s2" "contents s2 = contents s"
    "heap s2 = (heap s)(next_addr s := fresh_probation)" "next_addr s \<notin> extra \<union> ran (kvmap s)"
proof -
  have f: "kvmap s2 = kvmap s" "sieve_policy s2 = sieve_policy s" "prob_pool_max_size s2 = prob_pool_max_size s"
      "stats s2 = stats (note_fallback s)"
    by (simp_all add: s2_def s1_def)
  have "pool_inv (extra \<union> ran (kvmap s)) pend (leaks s) (note_fallback s)" using assms(1) by (simp add: kv_inv_def)
  from prob_alloc_inv [OF this] have
    m: "pool_inv (insert (next_addr s) (extra \<union> ran (kvmap s))) pend (Suc (leaks s)) s2"
      "next_addr s \<notin> extra \<union> ran (kvmap s)" "heap s2 = (heap s)(next_addr s := fresh_probation)"
    using assms(2-4) by (simp_all add: s2_def s1_def)
  have "leaks s \<le> next_addr s" using assms(1) by (simp add: kv_inv_def pool_inv_def count_inv_def)
  then have "unat (st_pool_fallback_allocs (stats s)) < 2 ^ 63" using assms(2,3) by (simp add: leaks_def)
  then have "unat (st_pool_fallback_allocs (stats s) + 1) = Suc (leaks s)"
    using assms(3) by (simp add: leaks_def unat_word_ariths)
  then have "leaks s2 = Suc (leaks s)"
    using assms(3,4) by (simp add: leaks_def f note_fallback_def get_available_slots_def
        record_pool_fallback_alloc_def stats_record_pool_fallback_alloc_def)
  with m kv_inv_add_entry [OF assms(1) _ m(2) f(1,2) m(3)]
  show "kv_inv (insert (next_addr s) extra) pend s2" "contents s2 = contents s"
    "heap s2 = (heap s)(next_addr s := fresh_probation)" "next_addr s \<notin> extra \<union> ran (kvmap s)"
    by simp_all
qed

lemma prob_take_kv_inv:
  assumes "kv_inv extra pend s" "pool_free s = a # rest" "prob_pool_max_size s \<noteq> 0"
  defines "s1 \<equiv> upd_entry a (\<lambda>e. e\<lparr>e_in_use := True, e_pool_type := Probation\<rparr>) (s\<lparr>pool_free := rest\<rparr>)"
  defines "t \<equiv> s1\<lparr>prob_count := prob_count s1 + 1, probation_list := probation_list s1 @ [a]\<rparr>"
  shows "kv_inv (insert a extra) pend t" "contents t = contents s" "heap t = (heap s)(a := fresh_probation)"
    "a \<notin> set (probation_list s)" "a \<notin> extra \<union> ran (kvmap s)"
proof -
  have p: "pool_inv (extra \<union> ran (kvmap s)) pend (leaks s) s" using assms(1) by (simp add: kv_inv_def)
  note m = prob_take_inv [OF p assms(2,3), folded s1_def, folded t_def]
  have f: "kvmap t = kvmap s" "heap t = (heap s)(a := fresh_probation)" "leaks t = leaks s" "sieve_policy t = sieve_policy s"
    using m(4) by (simp_all add: t_def s1_def leaks_def)
  show "kv_inv (insert a extra) pend t" "contents t = contents s"
    using kv_inv_add_entry [OF assms(1) _ m(2) f(1,4,2)] m(1) by (simp_all add: f(3))
  show "heap t = (heap s)(a := fresh_probation)" "a \<notin> set (probation_list s)" "a \<notin> extra \<union> ran (kvmap s)"
    using f(2) m(2,3) by simp_all
qed

lemma acquire_direct:
  assumes "store_inv s" "Suc (next_addr s) < 2 ^ 63" "prob_pool_max_size s = 0"
  obtains a t where "acquire cb (note_fallback s) = (Some a, t)" "acquired a {} s t"
proof -
  obtain a t where t: "do_acquire (note_fallback s) = (Some a, t)" "kv_inv {a} [] t" "contents t = contents s"
      "heap t = (heap s)(a := fresh_sanctuary)"
    using do_acquire_kv_inv [OF assms] by metis
  note f = do_acquire_frame [OF t(1), unfolded note_fallback_sel]
  have "st_eviction_count (stats t) = st_eviction_count (stats s)" using f(2) by simp
  then have "acquired a {} s t" using t f by (simp add: acquired_def)
  moreover have "acquire cb (note_fallback s) = (Some a, t)" using t(1) assms(3) by (simp add: acquire_def)
  ultimately show ?thesis using that by blast
qed

lemma acquired_drops:
  assumes "drops K s t" "kv_inv {a} [] t" "heap t a = fresh_probation \<or> heap t a = fresh_sanctuary"
    and "kvmap s = kvmap r" "contents s = contents r"
    and "st_eviction_count (stats s) = st_eviction_count (stats r)" "ev_cfg s = ev_cfg r" "pq s = pq r"
    and "max_size s = max_size r" "prob_pool_max_size s = prob_pool_max_size r" "next_addr s \<le> Suc (next_addr r)"
  shows "acquired a K r t"
  using assms by (simp add: drops_def acquired_def)

lemma acquire_alloc:
  assumes "store_inv s" "Suc (next_addr s) < 2 ^ 63" "prob_pool_max_size s \<noteq> 0" "pool_free s = []"
  obtains a K t where "acquire (Some release_victims) (note_fallback s) = (Some a, t)" "acquired a K s t"
    "heap t a = fresh_probation" "K \<subseteq> (\<lambda>a. e_key (heap s a)) ` set (probation_list s)"
proof -
  let ?s = "note_fallback s" and ?a = "next_addr s"
  let ?s1 = "upd_entry ?a (\<lambda>e. e\<lparr>e_in_use := True, e_pool_type := Probation\<rparr>) (snd (make_entry ?s))"
  define s2 where "s2 = ?s1\<lparr>prob_count := prob_count ?s1 + 1\<rparr>"
  let ?t = "run_sequential_reaper (Some release_victims) s2"
  note m = alloc_kv_inv [OF assms, folded s2_def]
  have f: "kvmap s2 = kvmap s" "ev_cfg s2 = ev_cfg s" "pq s2 = pq s" "max_size s2 = max_size s"
    "prob_pool_max_size s2 = prob_pool_max_size s" "next_addr s2 = Suc (next_addr s)"
    "st_eviction_count (stats s2) = st_eviction_count (stats s)" "probation_list s2 = probation_list s"
    by (simp_all add: s2_def) (simp add: note_fallback_def record_pool_fallback_alloc_def make_entry_def)
  have "kv_inv {?a} [] s2" using m(1) by simp
  from reaper_store [OF this] obtain K where K: "drops K s2 ?t" "kv_inv {?a} [] ?t"
      "\<And>b. b \<notin> ran (kvmap s2) \<Longrightarrow> heap ?t b = heap s2 b"
      "K \<subseteq> (\<lambda>a. e_key (heap s2 a)) ` set (probation_list s2)" by metis
  have ha: "heap ?t ?a = fresh_probation" using K(3) [of ?a] m(3,4) f(1) by simp
  have "acquired ?a K s ?t" by (rule acquired_drops [OF K(1,2)]) (use ha m(2) f in simp_all)
  moreover have "acquire (Some release_victims) ?s = (Some ?a, ?t)"
    using assms by (simp add: acquire_def do_prob_acquire_def make_entry_def Let_def s2_def)
  moreover have "K \<subseteq> (\<lambda>a. e_key (heap s a)) ` set (probation_list s)"
  proof -
    have "?a \<notin> set (probation_list s)"
      using assms(1) m(4) by (auto simp: kv_inv_def pool_inv_def lists_inv_def)
    then have "(\<lambda>a. e_key (heap s2 a)) ` set (probation_list s) = (\<lambda>a. e_key (heap s a)) ` set (probation_list s)"
      by (intro image_cong) (auto simp: m(3))
    then show ?thesis using K(4) f by simp
  qed
  ultimately show ?thesis using that ha by simp
qed

lemma acquire_pooled:
  assumes "store_inv s" "prob_pool_max_size s \<noteq> 0" "pool_free s \<noteq> []"
  obtains a K t where "acquire (Some release_victims) (note_fallback s) = (Some a, t)" "acquired a K s t"
    "heap t a = fresh_probation" "K \<subseteq> (\<lambda>a. e_key (heap s a)) ` set (probation_list s)"
    "\<not> prob_threshold s \<le> prob_count s \<Longrightarrow> K = {}"
proof -
  have nf: "note_fallback s = s" using assms(3) by (simp add: note_fallback_def get_available_slots_def)
  let ?run = "prob_threshold s \<le> prob_count s"
  define r where "r = (if ?run then run_sequential_reaper (Some release_victims) s else s)"
  obtain K where K: "drops K s r" "store_inv r" "pool_free r \<noteq> []" "\<not> ?run \<Longrightarrow> K = {}"
      "K \<subseteq> (\<lambda>a. e_key (heap s a)) ` set (probation_list s)"
  proof (cases ?run)
    case True
    then show ?thesis using reaper_store [OF assms(1)] assms(3) that by (metis r_def)
  next
    case False
    then show ?thesis using that [of "{}"] assms drops_refl [of s] by (simp add: r_def)
  qed
  from K(3) obtain a rest where pf: "pool_free r = a # rest" by (cases "pool_free r") auto
  let ?s1 = "upd_entry a (\<lambda>e. e\<lparr>e_in_use := True, e_pool_type := Probation\<rparr>) (r\<lparr>pool_free := rest\<rparr>)"
  let ?t = "?s1\<lparr>prob_count := prob_count ?s1 + 1, probation_list := probation_list ?s1 @ [a]\<rparr>"
  have pr: "prob_pool_max_size r \<noteq> 0" using K(1) assms(2) by (simp add: drops_def)
  note m = prob_take_kv_inv [OF K(2) pf pr]
  have ha: "heap ?t a = fresh_probation" unfolding m(3) by simp
  have "acquire (Some release_victims) s = (Some a, ?t)"
    using assms pf m(4) by (simp add: acquire_def do_prob_acquire_def Let_def r_def)
  moreover have "acquired a K s ?t"
    using K(1) m(1,2) ha by (simp add: acquired_def drops_def)
  ultimately show ?thesis using that [of a ?t K] ha K(4,5) nf by simp
qed

lemma acquire_store:
  assumes "store_inv s" "Suc (next_addr s) < 2 ^ 63"
  obtains a K t where "acquire (Some release_victims) (note_fallback s) = (Some a, t)" "acquired a K s t"
    "K \<subseteq> (\<lambda>a. e_key (heap s a)) ` set (probation_list s)"
    "pool_free s \<noteq> [] \<Longrightarrow> \<not> prob_threshold s \<le> prob_count s \<Longrightarrow> K = {}"
proof (cases "prob_pool_max_size s = 0")
  case True
  from acquire_direct [OF assms True] that show ?thesis by (metis empty_subsetI)
next
  case False
  show ?thesis
  proof (cases "pool_free s = []")
    case True
    from acquire_alloc [OF assms False True] that True show ?thesis by metis
  next
    case nonempty: False
    from acquire_pooled [OF assms(1) False nonempty] that show ?thesis by metis
  qed
qed

subsection \<open>Eviction\<close>

lemma evict_frame:
  assumes "store_inv s"
  obtains A where "A \<subseteq> set (from_hand s)"
    "evict now s = (map (\<lambda>a. e_key (heap s a)) (evict_victims now s), snd (evict now s))"
    "heap (snd (evict now s)) = clear_visited A (heap s)"
    "kvmap (snd (evict now s)) = kvmap s" "stats (snd (evict now s)) = stats s"
    "sieve_policy (snd (evict now s)) = sieve_policy s"
    "prob_pool_max_size (snd (evict now s)) = prob_pool_max_size s"
    "max_size (snd (evict now s)) = max_size s" "ev_cfg (snd (evict now s)) = ev_cfg s"
    "next_addr (snd (evict now s)) = next_addr s" "pq (snd (evict now s)) = pq s"
proof -
  have "sieve_inv s" "set (sieveList s) \<subseteq> live s"
    using assms pool_inv_sieve [of "{} \<union> ran (kvmap s)" "[]" "leaks s" s] by (auto simp: kv_inv_def)
  then obtain A h where "A \<subseteq> set (from_hand s)"
      "evict now s = (map (\<lambda>a. e_key (heap s a)) (evict_victims now s),
       s\<lparr>heap := clear_visited A (heap s),
         sieveList := filter (\<lambda>a. a \<notin> set (evict_victims now s)) (sieveList s), sieve_hand := h\<rparr>)"
    using evict_cases [of s now] by metis
  then show ?thesis by (intro that [of A]) simp_all
qed

lemma evict_kv_inv:
  assumes "store_inv s"
  shows "kv_inv {} (evict_victims now s) (snd (evict now s))"
    "contents (snd (evict now s)) = contents s"
proof -
  obtain A where f: "heap (snd (evict now s)) = clear_visited A (heap s)"
    "kvmap (snd (evict now s)) = kvmap s" "stats (snd (evict now s)) = stats s"
    "sieve_policy (snd (evict now s)) = sieve_policy s"
    "prob_pool_max_size (snd (evict now s)) = prob_pool_max_size s"
    using evict_frame [OF assms] by metis
  have "pool_inv (ran (kvmap s)) (evict_victims now s) (leaks s) (snd (evict now s))"
    using evict_pend_inv [of "ran (kvmap s)" "leaks s" s now] assms by (simp add: kv_inv_def)
  then show "kv_inv {} (evict_victims now s) (snd (evict now s))"
    by (intro kv_inv_frame [OF assms]) (simp_all add: f clear_visited_def)
  show "contents (snd (evict now s)) = contents s"
    by (simp add: contents_def fun_eq_iff f(1,2) clear_visited_def if_distrib cong: if_cong)
qed

text \<open>The keys the policy may remove now.\<close>

definition evictable_keys :: "u64 \<Rightarrow> 'z store_state_scheme \<Rightarrow> sstring set" where
  "evictable_keys now s =
     {k. \<exists>a. kvmap s k = Some a \<and> a \<in> set (sieveList s) \<and> evictable now (heap s) a}"

lemma set_eviction_type_sel [simp]:
  "kvmap (set_eviction_type type s) = kvmap s" "heap (set_eviction_type type s) = heap s"
  "sieveList (set_eviction_type type s) = sieveList s" "stats (set_eviction_type type s) = stats s"
  "sieve_policy (set_eviction_type type s) = sieve_policy s" "ev_cfg (set_eviction_type type s) = ev_cfg s"
  "max_size (set_eviction_type type s) = max_size s" "pq (set_eviction_type type s) = pq s"
  "next_addr (set_eviction_type type s) = next_addr s"
  "prob_pool_max_size (set_eviction_type type s) = prob_pool_max_size s"
  "pool_free (set_eviction_type type s) = pool_free s" "fault (set_eviction_type type s) = fault s"
  by (simp_all add: set_eviction_type_def)

lemma set_eviction_type_inv [simp]: "kv_inv extra pend (set_eviction_type type s) = kv_inv extra pend s"
  by (simp add: kv_inv_def keyed_def leaks_def)

lemma evict_release_store:
  assumes "store_inv s"
  obtains K where "drops K s (release_victims (fst (evict now s)) (snd (evict now s)))"
    "store_inv (release_victims (fst (evict now s)) (snd (evict now s)))" "K \<subseteq> evictable_keys now s"
proof -
  let ?v = "evict_victims now s" and ?s = "snd (evict now s)"
  let ?ks = "map (\<lambda>a. e_key (heap s a)) ?v"
  obtain A where f: "evict now s = (?ks, ?s)"
    "heap ?s = clear_visited A (heap s)"
    "kvmap ?s = kvmap s" "stats ?s = stats s" "sieve_policy ?s = sieve_policy s"
    "prob_pool_max_size ?s = prob_pool_max_size s" "max_size ?s = max_size s" "ev_cfg ?s = ev_cfg s"
    "next_addr ?s = next_addr s" "pq ?s = pq s"
    using evict_frame [OF assms] by metis
  have fst: "fst (evict now s) = ?ks" using arg_cong [OF f(1), of fst] by simp
  note inv = evict_kv_inv [OF assms, of now]
  have "drops (set ?ks \<inter> dom (kvmap s)) ?s (release_victims ?ks ?s)"
    using drops_release_victims [of ?s ?ks] inv(1) f(3) by (simp add: kv_inv_def)
  then have d: "drops (set ?ks \<inter> dom (kvmap s)) s (release_victims ?ks ?s)"
    unfolding drops_def using inv(2) f by simp
  have v: "set ?v \<subseteq> ran (kvmap s)" "set ?v \<subseteq> set (sieveList s)" "\<forall>a \<in> set ?v. evictable now (heap s) a"
    using inv(1) f(3) evict_victims_subset [of now s]
    by (auto simp: kv_inv_def pool_inv_def lists_inv_def evict_victims_def dest: in_set_takeD)
  have kd: "keyed s" using assms by (simp add: kv_inv_def)
  have gone: "a \<notin> ran (kvmap s |` (- set ?ks))" if "a \<in> set ?v" for a
    using that kd by (auto simp: ran_def restrict_map_def keyed_def split: if_splits)
  have "kv_inv {} [] (release_victims ?ks ?s)"
    using release_victims_inv [OF inv(1), of ?ks] gone unfolding f(3)
    by (simp add: filter_empty_conv)
  moreover have "set ?ks \<inter> dom (kvmap s) \<subseteq> evictable_keys now s"
  proof
    fix k assume "k \<in> set ?ks \<inter> dom (kvmap s)"
    then obtain a where a: "a \<in> set ?v" "k = e_key (heap s a)" by auto
    then obtain k' where "kvmap s k' = Some a" using v(1) by (auto simp: ran_def)
    then have "kvmap s k = Some a" using a kd by (simp add: keyed_def)
    then show "k \<in> evictable_keys now s" using a v by (auto simp: evictable_keys_def)
  qed
  ultimately show ?thesis using that [of "set ?ks \<inter> dom (kvmap s)"] d fst by simp
qed

lemma check_memory_store:
  assumes "store_inv s"
  obtains K where "drops K s (check_memory_and_evict rnd now s)"
    "store_inv (check_memory_and_evict rnd now s)" "K \<subseteq> evictable_keys now s"
    "pool_usage_fraction rnd s < ec_trigger (evc_soft (ev_cfg s)) \<Longrightarrow> K = {}"
proof (cases "get_total_slots s = 0 \<or> pool_usage_fraction rnd s < ec_trigger (evc_soft (ev_cfg s))")
  case True
  then have "check_memory_and_evict rnd now s = s" by (auto simp: check_memory_and_evict_def)
  then show ?thesis using that [of "{}"] assms drops_refl [of s] by simp
next
  case False
  let ?s = "set_eviction_type soft s"
  have c: "contents ?s = contents s" by (simp add: contents_def fun_eq_iff)
  have inv: "store_inv ?s" using assms by simp
  have eq: "check_memory_and_evict rnd now s = release_victims (fst (evict now ?s)) (snd (evict now ?s))"
    using False assms by (simp add: check_memory_and_evict_def kv_inv_def Let_def split_beta)
  obtain K where K: "drops K ?s (check_memory_and_evict rnd now s)"
      "store_inv (check_memory_and_evict rnd now s)" "K \<subseteq> evictable_keys now ?s"
    using evict_release_store [OF inv, of now] unfolding eq by metis
  have "drops K s (check_memory_and_evict rnd now s)" using K(1) unfolding drops_def by (simp add: c)
  moreover have "evictable_keys now ?s = evictable_keys now s" by (simp add: evictable_keys_def)
  ultimately show ?thesis using that K False by auto
qed

subsection \<open>SET\<close>

text \<open>What the map holds after \<open>emplace_or_update\<close>: a new key gets the entry's deadline.\<close>

definition set_value :: "bool \<Rightarrow> sstring \<times> u64 \<Rightarrow> (sstring \<times> u64) option \<Rightarrow> sstring \<times> u64" where
  "set_value update_ttl v old =
     (case old of None \<Rightarrow> v | Some w \<Rightarrow> (fst v, if update_ttl then snd v else snd w))"

lemma promote_frame [simp]:
  "max_size (promote_to_sanctuary a s) = max_size s"
  "prob_pool_max_size (promote_to_sanctuary a s) = prob_pool_max_size s"
  "next_addr (promote_to_sanctuary a s) = next_addr s"
  by (simp_all add: promote_to_sanctuary_def Let_def remove_from_probation_def)

lemma kv_inv_upd_entry:
  assumes "kv_inv extra pend s" "a \<in> extra \<union> ran (kvmap s)"
    and "\<And>e. e_in_use (f e) = e_in_use e" "\<And>e. e_pool_type (f e) = e_pool_type e"
    and "a \<in> ran (kvmap s) \<Longrightarrow> e_key (f (heap s a)) = e_key (heap s a)"
  shows "kv_inv extra pend (upd_entry a f s)"
proof (rule kv_inv_frame [OF assms(1)])
  show "pool_inv (extra \<union> ran (kvmap s)) pend (leaks s) (upd_entry a f s)"
    using assms by (intro pool_inv_upd_entry) (simp_all add: kv_inv_def)
qed (use assms(5) in auto)

lemma kv_inv_promote:
  assumes "kv_inv extra pend s" "a \<in> extra \<union> ran (kvmap s)"
  shows "kv_inv extra pend (promote_to_sanctuary a s)"
proof (rule kv_inv_frame [OF assms(1)])
  have p: "pool_inv (extra \<union> ran (kvmap s)) pend (leaks s) s" using assms(1) by (simp add: kv_inv_def)
  show "pool_inv (extra \<union> ran (kvmap s)) pend (leaks s) (promote_to_sanctuary a s)"
    by (rule promote_inv [OF p assms(2)])
  show "e_key (heap (promote_to_sanctuary a s) b) = e_key (heap s b)" for b
    by (simp add: promote_heap [OF p assms(2)])
qed simp_all

lemma contents_promote:
  assumes "kv_inv extra pend s" "a \<in> extra \<union> ran (kvmap s)"
  shows "contents (promote_to_sanctuary a s) = contents s"
proof -
  have "pool_inv (extra \<union> ran (kvmap s)) pend (leaks s) s" using assms(1) by (simp add: kv_inv_def)
  from promote_heap [OF this assms(2)] show ?thesis
    by (auto simp: contents_def fun_eq_iff intro!: option.map_cong)
qed

lemma kv_inv_release_extra:
  assumes "kv_inv extra pend s" "a \<in> extra"
  shows "kv_inv (extra - {a}) (remove1 a pend) (release (Some a) s)" "contents (release (Some a) s) = contents s"
proof -
  have na: "a \<notin> ran (kvmap s)" using assms by (auto simp: kv_inv_def)
  have "pool_inv (extra \<union> ran (kvmap s) - {a}) (remove1 a pend) (leaks s) (release (Some a) s)"
    using assms by (intro release_inv) (simp_all add: kv_inv_def)
  moreover have "extra \<union> ran (kvmap s) - {a} = (extra - {a}) \<union> ran (kvmap s)" using na by auto
  moreover have h: "b \<in> ran (kvmap s) \<Longrightarrow> heap (release (Some a) s) b = heap s b" for b using na by auto
  moreover have "keyed (release (Some a) s)"
    using assms h [OF ranI] by (simp add: keyed_def kv_inv_def del: heap_release)
  ultimately show "kv_inv (extra - {a}) (remove1 a pend) (release (Some a) s)"
    using assms by (auto simp: kv_inv_def)
  show "contents (release (Some a) s) = contents s" by (rule contents_cong [OF _ h]) simp_all
qed

text \<open>
  \<open>emplace_or_update\<close> with an entry that the operation owns: a new key takes the entry over,
  otherwise its value moves to the entry of the key and the entry is released.
\<close>

lemma emplace_new:
  fixes u :: bool
  assumes "kv_inv extra pend s" "a \<in> extra" "e_key (heap s a) = key" "kvmap s key = None"
  defines "t \<equiv> emplace_or_update key a u s"
  shows "t = s\<lparr>kvmap := (kvmap s)(key \<mapsto> a)\<rparr>" "kv_inv (extra - {a}) pend t"
    "contents t = (contents s)(key \<mapsto> (e_value (heap s a), e_expires_at (heap s a)))"
proof -
  show t: "t = s\<lparr>kvmap := (kvmap s)(key \<mapsto> a)\<rparr>"
    using assms(4) by (simp add: t_def emplace_or_update_def try_emplace_def)
  have r: "ran (kvmap t) = insert a (ran (kvmap s))" using assms(4) by (simp add: t ran_map_upd)
  have own: "insert a (extra - {a} \<union> ran (kvmap s)) = extra \<union> ran (kvmap s)" using assms(2) by auto
  have "keyed t" using assms(1,3) by (simp add: kv_inv_def keyed_def t)
  then show "kv_inv (extra - {a}) pend t" using assms(1) r by (auto simp: kv_inv_def t own)
  show "contents t = (contents s)(key \<mapsto> (e_value (heap s a), e_expires_at (heap s a)))"
    by (simp add: t contents_def fun_eq_iff)
qed

lemma contents_update:
  assumes "keyed s" "kvmap s key = Some b"
  shows "contents (upd_entry b (\<lambda>e. update_from e x u) s) =
    (contents s)(key \<mapsto> set_value u (e_value x, e_expires_at x) (contents s key))"
proof
  fix k
  show "contents (upd_entry b (\<lambda>e. update_from e x u) s) k =
      ((contents s)(key \<mapsto> set_value u (e_value x, e_expires_at x) (contents s key))) k"
    using assms(2) keyed_inj [OF assms(1), of k b key]
    by (cases "kvmap s k") (auto simp: contents_def set_value_def update_from_def Let_def)
qed

lemma emplace_present:
  fixes u :: bool
  assumes "kv_inv extra pend s" "a \<in> extra" "kvmap s key = Some b"
  defines "t \<equiv> emplace_or_update key a u s"
  shows "kv_inv (extra - {a}) (remove1 a pend) t" "kvmap t = kvmap s"
    "contents t = (contents s)(key \<mapsto> set_value u (e_value (heap s a), e_expires_at (heap s a)) (contents s key))"
proof -
  let ?f = "\<lambda>e. update_from e (heap s a) u"
  let ?s2 = "upd_entry b ?f s"
  let ?s3 = "promote_to_sanctuary b ?s2"
  have t: "t = release (Some a) ?s3"
    using assms(3) by (simp add: t_def emplace_or_update_def try_emplace_def Let_def)
  then show "kvmap t = kvmap s" by simp
  have b: "b \<in> extra \<union> ran (kvmap s)" using assms(3) by (auto intro: ranI)
  have i2: "kv_inv extra pend ?s2"
    using b by (intro kv_inv_upd_entry [OF assms(1)]) (auto simp: update_from_def Let_def)
  have b2: "b \<in> extra \<union> ran (kvmap ?s2)" using b by simp
  note i3 = kv_inv_promote [OF i2 b2] and c3 = contents_promote [OF i2 b2]
  show "kv_inv (extra - {a}) (remove1 a pend) t"
    unfolding t by (rule kv_inv_release_extra [OF i3 assms(2)])
  have "keyed s" using assms(1) by (simp add: kv_inv_def)
  note contents_update [OF this assms(3)]
  then show "contents t = (contents s)(key \<mapsto>
      set_value u (e_value (heap s a), e_expires_at (heap s a)) (contents s key))"
    unfolding t kv_inv_release_extra(2) [OF i3 assms(2)] c3 .
qed

lemma emplace_kv_inv:
  fixes u :: bool
  assumes "kv_inv extra pend s" "a \<in> extra" "e_key (heap s a) = key"
  defines "t \<equiv> emplace_or_update key a u s"
  shows "kv_inv (extra - {a}) (if kvmap s key = None then pend else remove1 a pend) t"
    "contents t = (contents s)(key \<mapsto> set_value u (e_value (heap s a), e_expires_at (heap s a)) (contents s key))"
    "dom (kvmap t) = insert key (dom (kvmap s))"
proof -
  have "kv_inv (extra - {a}) (if kvmap s key = None then pend else remove1 a pend) t \<and> contents t =
      (contents s)(key \<mapsto> set_value u (e_value (heap s a), e_expires_at (heap s a)) (contents s key))
      \<and> dom (kvmap t) = insert key (dom (kvmap s))"
  proof (cases "kvmap s key")
    case None
    then have "contents s key = None" by (simp add: contents_def)
    then show ?thesis using emplace_new [OF assms(1-3) None, of u, folded t_def] None by (simp add: set_value_def)
  next
    case (Some b)
    then show ?thesis using emplace_present [OF assms(1,2) Some, of u, folded t_def] by auto
  qed
  then show "kv_inv (extra - {a}) (if kvmap s key = None then pend else remove1 a pend) t"
    "contents t = (contents s)(key \<mapsto> set_value u (e_value (heap s a), e_expires_at (heap s a)) (contents s key))"
    "dom (kvmap t) = insert key (dom (kvmap s))" by blast+
qed

lemma emplace_store:
  assumes "kv_inv {a} [] s" "e_key (heap s a) = key"
  shows "store_inv (emplace_or_update key a u s)"
  using emplace_kv_inv(1) [OF assms(1) _ assms(2), of u] by (auto split: if_splits)

lemma emplace_frame [simp]:
  "stats (emplace_or_update key a u s) = stats s" "ev_cfg (emplace_or_update key a u s) = ev_cfg s"
  "max_size (emplace_or_update key a u s) = max_size s" "pq (emplace_or_update key a u s) = pq s"
  "next_addr (emplace_or_update key a u s) = next_addr s"
  "prob_pool_max_size (emplace_or_update key a u s) = prob_pool_max_size s"
  by (simp_all add: emplace_or_update_def try_emplace_def Let_def split: option.split)

text \<open>
  The two SET operations, from acquiring the entry to the eviction check: \<open>K1\<close> are the
  probation keys the reaper removed, \<open>K2\<close> the keys the policy removed afterwards.
\<close>

definition set_result ::
  "bool \<Rightarrow> sstring \<Rightarrow> sstring \<times> u64 \<Rightarrow> sstring set \<Rightarrow> sstring set
   \<Rightarrow> (sstring \<rightharpoonup> sstring \<times> u64) \<Rightarrow> (sstring \<rightharpoonup> sstring \<times> u64)" where
  "set_result u key v K1 K2 m =
     (let m1 = m |` (- K1) in (m1(key \<mapsto> set_value u v (m1 key))) |` (- K2))"

lemma set_core:
  fixes f :: "entry \<Rightarrow> entry"
  assumes "store_inv s" "Suc (next_addr s) < 2 ^ 63"
    and "\<And>e. e_in_use (f e) = e_in_use e" "\<And>e. e_pool_type (f e) = e_pool_type e"
    and "\<And>e. e_visited (f e) = e_visited e"
    and "e_key (f fresh_probation) = key" "e_key (f fresh_sanctuary) = key"
    and v: "(e_value (f fresh_probation), e_expires_at (f fresh_probation)) = v"
      "(e_value (f fresh_sanctuary), e_expires_at (f fresh_sanctuary)) = v"
  obtains a K1 K2 s1 s3 t where
    "acquire (Some release_victims) (note_fallback s) = (Some a, s1)"
    "s3 = emplace_or_update key a u (upd_entry a f s1)" "t = check_memory_and_evict rnd now s3"
    "store_inv t" "contents t = set_result u key v K1 K2 (contents s)"
    "K1 \<subseteq> dom (kvmap s) \<inter> (\<lambda>a. e_key (heap s a)) ` set (probation_list s)"
    "K2 \<subseteq> insert key (dom (kvmap s) - K1) \<inter> evictable_keys now s3"
    "st_eviction_count (stats t) = st_eviction_count (stats s) + of_nat (card K1 + card K2)"
    "next_addr t \<le> Suc (next_addr s)" "ev_cfg t = ev_cfg s" "max_size t = max_size s" "pq t = pq s"
    "pool_free s \<noteq> [] \<Longrightarrow> \<not> prob_threshold s \<le> prob_count s \<Longrightarrow> K1 = {}"
    "pool_usage_fraction rnd s3 < ec_trigger (evc_soft (ev_cfg s)) \<Longrightarrow> K2 = {}"
    "prob_pool_max_size t = prob_pool_max_size s" "kv_inv {a} [] (upd_entry a f s1)"
    "heap s1 a = fresh_probation \<or> heap s1 a = fresh_sanctuary"
    "kvmap s1 = kvmap s |` (- K1)"
proof -
  obtain a K1 s1 where a: "acquire (Some release_victims) (note_fallback s) = (Some a, s1)"
      "acquired a K1 s s1" "K1 \<subseteq> (\<lambda>a. e_key (heap s a)) ` set (probation_list s)"
      "pool_free s \<noteq> [] \<Longrightarrow> \<not> prob_threshold s \<le> prob_count s \<Longrightarrow> K1 = {}"
    using acquire_store [OF assms(1,2)] by metis
  let ?s2 = "upd_entry a f s1"
  define s3 where "s3 = emplace_or_update key a u ?s2"
  note q = a(2) [unfolded acquired_def]
  have k: "e_key (heap ?s2 a) = key" using q assms(6,7) by auto
  have val: "(e_value (heap ?s2 a), e_expires_at (heap ?s2 a)) = v" using q v by auto
  have na: "a \<notin> ran (kvmap s1)" using conjunct1 [OF q] by (simp add: kv_inv_def)
  have i2: "kv_inv {a} [] ?s2"
    using q na assms(3,4) by (intro kv_inv_upd_entry) auto
  have "contents ?s2 = contents s1" using na by (intro contents_cong) auto
  then have c2: "contents ?s2 = contents s |` (- K1)" using q by simp
  note e = emplace_store [OF i2 k, of u, folded s3_def]
    emplace_kv_inv(2,3) [OF i2 singletonI k, of u, folded s3_def, unfolded val c2]
  obtain K2 where K2: "drops K2 s3 (check_memory_and_evict rnd now s3)"
      "store_inv (check_memory_and_evict rnd now s3)" "K2 \<subseteq> evictable_keys now s3"
      "pool_usage_fraction rnd s3 < ec_trigger (evc_soft (ev_cfg s3)) \<Longrightarrow> K2 = {}"
    using check_memory_store [OF e(1)] by metis
  have f3: "stats s3 = stats s1" "ev_cfg s3 = ev_cfg s1" "max_size s3 = max_size s1" "pq s3 = pq s1"
      "next_addr s3 = next_addr s1" "prob_pool_max_size s3 = prob_pool_max_size s1"
    by (simp_all add: s3_def)
  have dm: "dom (kvmap s3) = insert key (dom (kvmap s) - K1)" using e(3) q by (simp add: Diff_eq)
  show ?thesis
    by (rule that [OF a(1) s3_def refl, of K1 K2])
      (use K2 q f3 e(2) a(3,4) dm i2 in \<open>auto simp: drops_def set_result_def Let_def\<close>)
qed

text \<open>A key that was not there is not removed by the eviction check of its own SET.\<close>

lemma new_key_stays:
  assumes "kv_inv {a} [] s" "kvmap s key = None" "\<not> is_expired now (e_expires_at (heap s a))"
    and "e_pool_type (heap s a) = Sanctuary \<Longrightarrow> e_visited (heap s a)"
  shows "key \<notin> evictable_keys now (emplace_or_update key a u s)"
proof -
  have "a \<in> set (sieveList s) \<Longrightarrow> e_pool_type (heap s a) = Sanctuary"
    using assms(1) by (simp add: kv_inv_def pool_inv_def lists_inv_def)
  then show ?thesis using assms
    by (auto simp: evictable_keys_def emplace_or_update_def try_emplace_def evictable_def)
qed

text \<open>Both forms of SET are instances of one operation.\<close>

definition set_entry ::
  "(double \<Rightarrow> double) \<Rightarrow> u64 \<Rightarrow> sstring \<Rightarrow> bool \<Rightarrow> (entry \<Rightarrow> entry) \<Rightarrow> 'z store_state_scheme \<Rightarrow> bool \<times> 'z store_state_scheme" where
  "set_entry rnd now key u f s =
     (case acquire (Some release_victims) (note_fallback s) of
        (None, s1) \<Rightarrow> (False, s1)
      | (Some a, s1) \<Rightarrow>
          (True, check_memory_and_evict rnd now (emplace_or_update key a u (upd_entry a f s1))))"

lemma store_set_entry:
  "store_set rnd now key value s = set_entry rnd now key False (\<lambda>e. e\<lparr>e_key := key, e_value := value\<rparr>) s"
  unfolding store_set_def set_entry_def Let_def ..

lemma set_with_ttl_entry:
  "set_with_ttl rnd now now' key value ttl s =
     set_entry rnd now' key True (\<lambda>e. e\<lparr>e_key := key, e_value := value, e_expires_at := now + ttl\<rparr>) s"
  unfolding set_with_ttl_def set_entry_def Let_def ..

text \<open>The functions that fill in an acquired entry.\<close>

definition fills :: "sstring \<Rightarrow> sstring \<times> u64 \<Rightarrow> (entry \<Rightarrow> entry) \<Rightarrow> bool" where
  "fills key v f \<longleftrightarrow> (\<forall>e. e_in_use (f e) = e_in_use e \<and> e_pool_type (f e) = e_pool_type e
     \<and> e_visited (f e) = e_visited e \<and> e_key (f e) = key \<and> e_value (f e) = fst v
     \<and> (e_expires_at e = 0 \<longrightarrow> e_expires_at (f e) = snd v))"

lemma fills_set: "fills key (value, 0) (\<lambda>e. e\<lparr>e_key := key, e_value := value\<rparr>)"
  by (simp add: fills_def)

lemma fills_set_with_ttl:
  "fills key (value, now + ttl) (\<lambda>e. e\<lparr>e_key := key, e_value := value, e_expires_at := now + ttl\<rparr>)"
  by (simp add: fills_def)

lemma set_entry_cases:
  assumes "store_inv s" "Suc (next_addr s) < 2 ^ 63" "fills key v f"
  obtains K1 K2 t where "set_entry rnd now key u f s = (True, t)" "store_inv t"
    "contents t = set_result u key v K1 K2 (contents s)"
    "K1 \<subseteq> dom (kvmap s)" "K2 \<subseteq> insert key (dom (kvmap s) - K1)"
    "st_eviction_count (stats t) = st_eviction_count (stats s) + of_nat (card K1 + card K2)"
    "next_addr t \<le> Suc (next_addr s)" "max_size t = max_size s"
    "kvmap s key = None \<Longrightarrow> \<not> is_expired now (snd v) \<Longrightarrow> key \<notin> K2"
proof -
  have v: "(e_value (f fresh_probation), e_expires_at (f fresh_probation)) = v"
      "(e_value (f fresh_sanctuary), e_expires_at (f fresh_sanctuary)) = v"
    using assms(3) by (simp_all add: fills_def fresh_probation_def fresh_sanctuary_def new_entry_def)
  note f = assms(3) [unfolded fills_def]
  have ty: "e_visited (f e) = e_visited e" "e_pool_type (f e) = e_pool_type e" for e using f by simp_all
  show ?thesis
  proof (rule set_core [OF assms(1,2), of f key v u rnd now])
    fix a K1 K2 s1 s3 t
    assume c: "acquire (Some release_victims) (note_fallback s) = (Some a, s1)"
      "s3 = emplace_or_update key a u (upd_entry a f s1)" "t = check_memory_and_evict rnd now s3"
      and K2: "K2 \<subseteq> insert key (dom (kvmap s) - K1) \<inter> evictable_keys now s3"
      and i2: "kv_inv {a} [] (upd_entry a f s1)"
      and h: "heap s1 a = fresh_probation \<or> heap s1 a = fresh_sanctuary"
      and m: "kvmap s1 = kvmap s |` (- K1)"
      and r: "store_inv t" "contents t = set_result u key v K1 K2 (contents s)"
      "K1 \<subseteq> dom (kvmap s) \<inter> (\<lambda>a. e_key (heap s a)) ` set (probation_list s)"
      "st_eviction_count (stats t) = st_eviction_count (stats s) + of_nat (card K1 + card K2)"
      "next_addr t \<le> Suc (next_addr s)" "max_size t = max_size s"
    have "key \<notin> K2" if "kvmap s key = None" "\<not> is_expired now (snd v)"
    proof -
      have "kvmap (upd_entry a f s1) key = None" using that(1) m by (simp add: restrict_map_def)
      moreover have "\<not> is_expired now (e_expires_at (heap (upd_entry a f s1) a))"
        using that(2) h v by (elim disjE) (simp_all add: prod_eq_iff)
      moreover have "e_visited (heap (upd_entry a f s1) a)"
        if "e_pool_type (heap (upd_entry a f s1) a) = Sanctuary"
        using that h ty by (elim disjE) (simp_all add: fresh_probation_def fresh_sanctuary_def)
      ultimately have "key \<notin> evictable_keys now s3" unfolding c(2) by (rule new_key_stays [OF i2])
      then show ?thesis using K2 by blast
    qed
    moreover have "set_entry rnd now key u f s = (True, t)" using c by (simp add: set_entry_def)
    moreover have "K1 \<subseteq> dom (kvmap s)" "K2 \<subseteq> insert key (dom (kvmap s) - K1)" using r(3) K2 by blast+
    ultimately show ?thesis using r by (intro that [of t K1 K2])
  qed (rule v | simp add: f)+
qed

lemmas store_set_cases =
  set_entry_cases [where u = False, OF _ _ fills_set, folded store_set_entry, unfolded snd_conv]

lemmas set_with_ttl_cases =
  set_entry_cases [where u = True and now = now', OF _ _ fills_set_with_ttl,
    folded set_with_ttl_entry, unfolded snd_conv] for now'

subsection \<open>GET\<close>

lemma store_get_miss: "kvmap s key = None \<Longrightarrow> store_get now key s = (None, s)"
  by (simp add: store_get_def)

lemma store_get_live:
  assumes "kv_inv extra pend s" "kvmap s key = Some a"
  shows "store_get now key s =
    (if e_expires_at (heap s a) \<noteq> 0 \<and> e_expires_at (heap s a) \<le> now
     then (None, release (Some a) ((on_erase a s)\<lparr>kvmap := (kvmap s)(key := None)\<rparr>))
     else (Some (e_value (heap s a)), on_hit a (promote_to_sanctuary a s)))"
proof -
  have a: "a \<in> extra \<union> ran (kvmap s)" using ranI [of "kvmap s", OF assms(2)] by simp
  have p: "pool_inv (extra \<union> ran (kvmap s)) pend (leaks s) s" and sp: "sieve_policy s"
    using assms(1) by (simp_all add: kv_inv_def)
  have "check_live a s = s" using p a by (intro check_live_id) (rule pool_inv_own_live)
  moreover have "e_value (heap (on_hit a (promote_to_sanctuary a s)) a) = e_value (heap s a)"
    by (simp add: on_hit_def promote_heap [OF p a])
  ultimately show ?thesis
    using assms(2) sp by (simp add: store_get_def Let_def map_extract_def)
qed

lemma store_get_expired:
  assumes "kv_inv extra pend s" "kvmap s key = Some a"
  defines "t \<equiv> release (Some a) ((on_erase a s)\<lparr>kvmap := (kvmap s)(key := None)\<rparr>)"
  shows "kv_inv extra (remove1 a pend) t" "contents t = (contents s)(key := None)"
proof -
  have kd: "keyed s" and p: "pool_inv (extra \<union> ran (kvmap s)) pend (leaks s) s"
    using assms(1) by (simp_all add: kv_inv_def)
  have hp: "heap (on_erase a s) = heap s" by (simp add: on_erase_def Let_def)
  have pm: "prob_pool_max_size (on_erase a s) = prob_pool_max_size s" by (simp add: on_erase_def Let_def)
  show "kv_inv extra (remove1 a pend) t"
  proof (cases "a \<in> set (sieveList s)")
    case True
    then have "a \<notin> set pend" using p by (auto simp: pool_inv_def lists_inv_def)
    moreover have "kv_inv extra (a # pend) (on_erase a s)"
      by (intro kv_inv_frame [OF assms(1) on_erase_pend_inv [OF p True]]) (simp_all add: hp pm)
    from extract_release_inv [OF this, of key a] assms(2) have "kv_inv extra pend t" by (simp add: t_def)
    ultimately show ?thesis by (simp add: remove1_idem)
  next
    case False
    then have "on_erase a s = s" by (simp add: on_erase_def)
    with extract_release_inv [OF assms(1,2)] show ?thesis by (simp add: t_def)
  qed
  show "contents t = (contents s)(key := None)"
  proof
    fix k show "contents t k = ((contents s)(key := None)) k"
      using assms(2) keyed_inj [OF kd, of k a key] by (cases "kvmap s k") (auto simp: t_def contents_def hp)
  qed
qed

lemma store_get_hit:
  assumes "kv_inv extra pend s" "kvmap s key = Some a"
  defines "t \<equiv> on_hit a (promote_to_sanctuary a s)"
  shows "kv_inv extra pend t" "contents t = contents s" "e_visited (heap t a)"
    "e_pool_type (heap t a) = Sanctuary" "a \<in> set (sieveList t) \<union> set pend"
proof -
  have a: "a \<in> extra \<union> ran (kvmap s)" using ranI [of "kvmap s", OF assms(2)] by simp
  note i1 = kv_inv_promote [OF assms(1) a]
  show inv: "kv_inv extra pend t"
    unfolding t_def on_hit_def using a by (intro kv_inv_upd_entry [OF i1]) simp_all
  have p: "pool_inv (extra \<union> ran (kvmap s)) pend (leaks s) s" using assms(1) by (simp add: kv_inv_def)
  note h = promote_heap [OF p a]
  have "contents t = contents (promote_to_sanctuary a s)"
    by (auto simp: t_def on_hit_def contents_def fun_eq_iff intro!: option.map_cong)
  then show "contents t = contents s" using contents_promote [OF assms(1) a] by simp
  show "e_visited (heap t a)" by (simp add: t_def on_hit_def)
  show st: "e_pool_type (heap t a) = Sanctuary" by (simp add: t_def on_hit_def h)
  have "kvmap t key = Some a" using assms(2) by (simp add: t_def on_hit_def)
  then have "a \<in> ran (kvmap t)" by (rule ranI)
  then show "a \<in> set (sieveList t) \<union> set pend" using inv st by (simp add: kv_inv_def pool_inv_def lists_inv_def)
qed

subsection \<open>The expiry queue\<close>

lemma on_erase_map_upd: "on_erase a (s\<lparr>kvmap := m\<rparr>) = (on_erase a s)\<lparr>kvmap := m\<rparr>"
  by (simp add: on_erase_def Let_def)

lemma pq_upd_inv [simp]: "kv_inv extra pend (s\<lparr>pq := q\<rparr>) = kv_inv extra pend s"
  by (simp add: kv_inv_def keyed_def leaks_def)

lemma contents_pq [simp]: "contents (s\<lparr>pq := q\<rparr>) = contents s"
  by (simp add: contents_def fun_eq_iff)

lemma on_erase_frame [simp]:
  "next_addr (on_erase a s) = next_addr s" "max_size (on_erase a s) = max_size s"
  by (simp_all add: on_erase_def Let_def)

lemma evict_ttl_key_store:
  assumes "store_inv s"
  shows "store_inv (evict_ttl_key h s) \<and> contents (evict_ttl_key h s) \<subseteq>\<^sub>m contents s \<and> next_addr (evict_ttl_key h s) = next_addr s"
proof (cases "kvmap s (hn_key h)")
  case None
  then have "evict_ttl_key h s = s" by (simp add: evict_ttl_key_def map_extract_def fun_upd_idem)
  then show ?thesis using assms by simp
next
  case (Some a)
  let ?k = "hn_key h"
  have "a \<in> live s" using assms ranI [of "kvmap s", OF Some] by (auto simp: kv_inv_def intro: pool_inv_own_live)
  then have lv: "check_live a (s\<lparr>kvmap := (kvmap s)(?k := None)\<rparr>) = s\<lparr>kvmap := (kvmap s)(?k := None)\<rparr>"
    by (simp add: check_live_id)
  show ?thesis
  proof (cases "e_ver (heap s a) = hn_ver h")
    case True
    then have e: "evict_ttl_key h s = release (Some a) ((on_erase a s)\<lparr>kvmap := (kvmap s)(?k := None)\<rparr>)"
      using Some lv assms by (simp add: evict_ttl_key_def map_extract_def on_erase_map_upd kv_inv_def)
    have "(contents s)(?k := None) \<subseteq>\<^sub>m contents s" by (simp add: map_le_def)
    then show ?thesis using store_get_expired [OF assms Some] unfolding e by simp
  next
    case False
    then have "evict_ttl_key h s = s" using Some lv by (simp add: evict_ttl_key_def map_extract_def fun_upd_idem)
    then show ?thesis using assms by simp
  qed
qed

lemma evict_ttl_keys_store:
  assumes "store_inv s"
  shows "store_inv (evict_ttl_keys now n s) \<and> contents (evict_ttl_keys now n s) \<subseteq>\<^sub>m contents s
    \<and> next_addr (evict_ttl_keys now n s) = next_addr s"
  using assms
proof (induction now n s rule: evict_ttl_keys.induct)
  case (2 now budget s)
  have "store_inv (s\<lparr>pq := pq_pop (pq s)\<rparr>)" using "2.prems" by simp
  note k = evict_ttl_key_store [OF this]
  show ?case
  proof (cases "pq_top (pq s)")
    case (Some h)
    then show ?thesis
      using "2.IH" [OF Some] "2.prems" k [of h] by (cases "store_is_expired now (hn_expires_at h)") (auto intro: map_le_trans)
  qed (use "2.prems" in simp)
qed simp

end
