(* ===== verification/Cache.thy ===== *)
theory Cache
  imports Store
begin

text \<open>
  What a shard's store promises its clients, and that the store keeps it. The
  specification is a map from keys to a value and a deadline: GET is exact, and
  SET may drop any keys (eviction) but never changes a value it keeps. \<open>store_exec\<close>
  is one call of the interface of \<open>include/kv_store.hh\<close>; a client's calls run one after
  the other.
\<close>

subsection \<open>Calls\<close>

datatype store_op =
    OpSet u64 sstring sstring
  | OpSetEx u64 u64 sstring sstring u64
  | OpGet u64 sstring
  | OpEvictTtl u64 nat
  | OpMiss

datatype store_ret = RSet bool | RGet "sstring option" | RUnit

fun store_exec :: "(double \<Rightarrow> double) \<Rightarrow> store_op \<Rightarrow> 'z store_state_scheme \<Rightarrow> store_ret \<times> 'z store_state_scheme" where
  "store_exec rnd (OpSet now key v) s = (let (r, t) = store_set rnd now key v s in (RSet r, t))"
| "store_exec rnd (OpSetEx now now' key v ttl) s =
     (let (r, t) = set_with_ttl rnd now now' key v ttl s in (RSet r, t))"
| "store_exec rnd (OpGet now key) s = (let (r, t) = store_get now key s in (RGet r, t))"
| "store_exec rnd (OpEvictTtl now n) s = (RUnit, evict_ttl_keys now n s)"
| "store_exec rnd OpMiss s = (RUnit, record_cache_miss_count 1 s)"

fun store_run :: "(double \<Rightarrow> double) \<Rightarrow> store_op list \<Rightarrow> 'z store_state_scheme \<Rightarrow> store_ret list \<times> 'z store_state_scheme" where
  "store_run rnd [] s = ([], s)"
| "store_run rnd (op # ops) s =
     (let (r, t) = store_exec rnd op s; (rs, u) = store_run rnd ops t in (r # rs, u))"

subsection \<open>The specification\<close>

type_synonym cache = "sstring \<rightharpoonup> sstring \<times> u64"

definition cache_lookup :: "u64 \<Rightarrow> sstring \<Rightarrow> cache \<Rightarrow> sstring option" where
  "cache_lookup now key m =
     (case m key of None \<Rightarrow> None | Some (v, e) \<Rightarrow> if is_expired now e then None else Some v)"

definition cache_expire :: "u64 \<Rightarrow> sstring \<Rightarrow> cache \<Rightarrow> cache" where
  "cache_expire now key m =
     (case m key of None \<Rightarrow> m | Some (v, e) \<Rightarrow> if is_expired now e then m(key := None) else m)"

inductive cache_step :: "store_op \<Rightarrow> store_ret \<Rightarrow> cache \<Rightarrow> cache \<Rightarrow> bool" where
  step_set: "m1 \<subseteq>\<^sub>m m \<Longrightarrow> m2 \<subseteq>\<^sub>m m1(key \<mapsto> set_value False (v, 0) (m1 key))
     \<Longrightarrow> cache_step (OpSet now key v) (RSet True) m m2"
| step_set_ex: "m1 \<subseteq>\<^sub>m m \<Longrightarrow> m2 \<subseteq>\<^sub>m m1(key \<mapsto> (v, now + ttl))
     \<Longrightarrow> cache_step (OpSetEx now now' key v ttl) (RSet True) m m2"
| step_get: "cache_step (OpGet now key) (RGet (cache_lookup now key m)) m (cache_expire now key m)"
| step_evict: "m' \<subseteq>\<^sub>m m \<Longrightarrow> cache_step (OpEvictTtl now n) RUnit m m'"
| step_miss: "cache_step OpMiss RUnit m m"

inductive_cases cache_step_setE: "cache_step (OpSet now key v) r m m'"
inductive_cases cache_step_set_exE: "cache_step (OpSetEx now now' key v ttl) r m m'"
inductive_cases cache_step_getE: "cache_step (OpGet now key) r m m'"
inductive_cases cache_step_evictE: "cache_step (OpEvictTtl now n) r m m'"
inductive_cases cache_step_missE: "cache_step OpMiss r m m'"

inductive cache_run :: "store_op list \<Rightarrow> store_ret list \<Rightarrow> cache \<Rightarrow> cache \<Rightarrow> bool" where
  run_nil: "cache_run [] [] m m"
| run_cons: "cache_step op r m m1 \<Longrightarrow> cache_run ops rs m1 m2 \<Longrightarrow> cache_run (op # ops) (r # rs) m m2"

inductive_simps cache_run_Nil: "cache_run [] rs m m'"
inductive_simps cache_run_Cons: "cache_run (op # ops) rs m m'"

text \<open>The value the last SET of a key in a sequence of calls wrote.\<close>

fun write_of :: "store_op \<Rightarrow> (sstring \<times> sstring) option" where
  "write_of (OpSet now key v) = Some (key, v)"
| "write_of (OpSetEx now now' key v ttl) = Some (key, v)"
| "write_of op = None"

fun last_write :: "sstring \<Rightarrow> sstring option \<Rightarrow> store_op list \<Rightarrow> sstring option" where
  "last_write key w [] = w"
| "last_write key w (op # ops) =
     last_write key (case write_of op of None \<Rightarrow> w | Some (k, v) \<Rightarrow> if k = key then Some v else w) ops"

subsection \<open>The store refines the specification\<close>

lemma set_result_le:
  "set_result u key v K1 K2 m \<subseteq>\<^sub>m (m |` (- K1))(key \<mapsto> set_value u v ((m |` (- K1)) key))"
  by (simp add: set_result_def Let_def map_le_def)

lemma restrict_le: "m |` A \<subseteq>\<^sub>m m"
  by (auto simp: map_le_def)

lemma set_value_ttl [simp]: "set_value True v old = v"
  by (simp add: set_value_def split: option.split)

lemma store_get_kv_inv:
  assumes "kv_inv extra pend s"
  obtains pend' where "kv_inv extra pend' (snd (store_get now key s))" "set pend' \<subseteq> set pend"
    "fst (store_get now key s) = cache_lookup now key (contents s)"
    "contents (snd (store_get now key s)) = cache_expire now key (contents s)"
    "next_addr (snd (store_get now key s)) = next_addr s"
proof (cases "kvmap s key")
  case None
  then show ?thesis using assms that [of pend]
    by (simp add: store_get_miss contents_def cache_lookup_def cache_expire_def)
next
  case (Some a)
  note e = store_get_expired [OF assms Some] and h = store_get_hit [OF assms Some]
  have c: "contents s key = Some (e_value (heap s a), e_expires_at (heap s a))"
    using Some by (simp add: contents_def)
  show ?thesis
  proof (cases "is_expired now (e_expires_at (heap s a))")
    case True
    then show ?thesis using e that [of "remove1 a pend"] set_remove1_subset [of a pend]
      by (simp add: store_get_live [OF assms Some] cache_lookup_def cache_expire_def c is_expired_def)
  next
    case False
    then have g: "store_get now key s = (Some (e_value (heap s a)), on_hit a (promote_to_sanctuary a s))"
      unfolding store_get_live [OF assms Some] by (auto simp: is_expired_def)
    have "next_addr (on_hit a (promote_to_sanctuary a s)) = next_addr s" by (simp add: on_hit_def)
    with False show ?thesis using h(1,2) that [of pend]
      by (simp add: g cache_lookup_def cache_expire_def c)
  qed
qed

lemma store_get_spec:
  assumes "store_inv s"
  shows "fst (store_get now key s) = cache_lookup now key (contents s)"
    "contents (snd (store_get now key s)) = cache_expire now key (contents s)"
    "store_inv (snd (store_get now key s))" "next_addr (snd (store_get now key s)) = next_addr s"
  using store_get_kv_inv [OF assms, of now key] by auto

lemma cache_miss_store [simp]:
  "store_inv (record_cache_miss_count n s) = store_inv s"
  "contents (record_cache_miss_count n s) = contents s"
  "next_addr (record_cache_miss_count n s) = next_addr s"
  by (simp_all add: record_cache_miss_count_def stats_record_cache_miss_count_def kv_inv_def keyed_def
      leaks_def contents_def fun_eq_iff)

lemma set_result_step:
  "cache_step (OpSet now key v) (RSet True) m (set_result False key (v, 0) K1 K2 m)"
  by (rule step_set [OF restrict_le set_result_le])

lemma set_result_step_ex:
  "cache_step (OpSetEx now now' key v ttl) (RSet True) m (set_result True key (v, now + ttl) K1 K2 m)"
  by (rule step_set_ex [OF restrict_le]) (rule set_result_le [of True key "(v, now + ttl)", unfolded set_value_ttl])

lemma store_exec_refines:
  assumes "store_inv s" "Suc (next_addr s) < 2 ^ 63" "store_exec rnd op s = (r, t)"
  shows "cache_step op r (contents s) (contents t) \<and> store_inv t \<and> next_addr t \<le> Suc (next_addr s)"
proof (cases op)
  case (OpSet now key v)
  obtain K1 K2 t' where "store_set rnd now key v s = (True, t')" "store_inv t'"
    "contents t' = set_result False key (v, 0) K1 K2 (contents s)" "next_addr t' \<le> Suc (next_addr s)"
    using store_set_cases [OF assms(1,2)] by metis
  then show ?thesis using assms(3) OpSet set_result_step [of now key v "contents s" K1 K2] by simp
next
  case (OpSetEx now now' key v ttl)
  obtain K1 K2 t' where "set_with_ttl rnd now now' key v ttl s = (True, t')" "store_inv t'"
    "contents t' = set_result True key (v, now + ttl) K1 K2 (contents s)" "next_addr t' \<le> Suc (next_addr s)"
    using set_with_ttl_cases [OF assms(1,2)] by metis
  then show ?thesis
    using assms(3) OpSetEx set_result_step_ex [of now now' key v ttl "contents s" K1 K2] by simp
next
  case (OpGet now key)
  then show ?thesis using assms(3) store_get_spec [OF assms(1), of now key] step_get [of now key "contents s"]
    by (auto split: prod.splits)
next
  case (OpEvictTtl now n)
  then show ?thesis using assms evict_ttl_keys_store [OF assms(1), of now n] by (auto intro: step_evict)
next
  case OpMiss
  then show ?thesis using assms by (auto intro: step_miss)
qed

lemma store_run_refines:
  assumes "store_inv s" "next_addr s + length ops < 2 ^ 63" "store_run rnd ops s = (rs, t)"
  shows "cache_run ops rs (contents s) (contents t) \<and> store_inv t"
  using assms
proof (induction ops arbitrary: s rs)
  case Nil
  then show ?case by (simp add: cache_run_Nil)
next
  case (Cons op ops)
  obtain r u where u: "store_exec rnd op s = (r, u)" by fastforce
  obtain rs' where rs: "store_run rnd ops u = (rs', t)" "rs = r # rs'"
    using Cons.prems(3) u by (auto split: prod.splits)
  have "cache_step op r (contents s) (contents u) \<and> store_inv u \<and> next_addr u \<le> Suc (next_addr s)"
    using Cons.prems u by (intro store_exec_refines) simp_all
  with Cons.IH [of u rs'] Cons.prems(2) rs show ?case by (auto intro: run_cons)
qed

subsection \<open>A started store\<close>

lemma store_start_pool:
  "store_start rnd sz tm fm cfg s =
     pool_init rnd sz tm fm cfg (emplace_policy
       ((set_usable_memory rnd tm (pc_memory_reserve_percentage (dc_pool cfg)) s)\<lparr>ev_cfg := dc_ev_config cfg\<rparr>))"
  by (simp add: store_start_def Let_def)

lemma pool_init_store_fields:
  "kvmap (pool_init rnd sz tm fm cfg s) = kvmap s" "stats (pool_init rnd sz tm fm cfg s) = stats s"
  "sieve_policy (pool_init rnd sz tm fm cfg s) = sieve_policy s"
  by (simp_all add: pool_init_def Let_def set_prob_sizes_def prepopulate_pool_def prepopulate_loop_eq)

lemma store_start_inv:
  assumes "max_size (store_start rnd sz tm fm cfg (new_store ev)) < 2 ^ 63"
  shows "store_inv (store_start rnd sz tm fm cfg (new_store ev))"
    "contents (store_start rnd sz tm fm cfg (new_store ev)) = Map.empty"
proof -
  let ?s = "emplace_policy ((set_usable_memory rnd tm (pc_memory_reserve_percentage (dc_pool cfg))
      (new_store ev))\<lparr>ev_cfg := dc_ev_config cfg\<rparr>)"
  have s: "pristine ?s" "kvmap ?s = Map.empty" "st_pool_fallback_allocs (stats ?s) = 0" "sieve_policy ?s"
    by (simp_all add: pristine_def emplace_policy_def set_usable_memory_def new_store_def)
  let ?t = "pool_init rnd sz tm fm cfg ?s"
  have f: "kvmap ?t = Map.empty" "st_pool_fallback_allocs (stats ?t) = 0" "sieve_policy ?t"
    using s by (simp_all add: pool_init_store_fields)
  have "pool_inv {} [] 0 ?t"
    using pool_init_inv [OF s(1)] assms unfolding store_start_pool by blast
  then show "store_inv (store_start rnd sz tm fm cfg (new_store ev))"
    unfolding store_start_pool kv_inv_def keyed_def leaks_def f(1) using f(2,3) by simp
  show "contents (store_start rnd sz tm fm cfg (new_store ev)) = Map.empty"
    unfolding store_start_pool by (simp add: contents_def fun_eq_iff f(1))
qed

lemma prepopulate_next_addr:
  "next_addr (prepopulate_pool m s) = next_addr s + max_size s"
  by (simp add: prepopulate_pool_def prepopulate_loop_eq)

lemma store_start_next_addr:
  "next_addr (store_start rnd sz tm fm cfg (new_store ev)) = max_size (store_start rnd sz tm fm cfg (new_store ev))"
proof -
  let ?s = "emplace_policy ((set_usable_memory rnd tm (pc_memory_reserve_percentage (dc_pool cfg))
      (new_store ev))\<lparr>ev_cfg := dc_ev_config cfg\<rparr>)"
  have "pristine ?s"
    by (simp add: pristine_def emplace_policy_def set_usable_memory_def new_store_def)
  from pool_init_shape [OF this] obtain t where
    t: "pool_init rnd sz tm fm cfg ?s =
      prepopulate_pool fm ((set_prob_sizes rnd cfg t)\<lparr>pool_initialized := True\<rparr>)" "pristine t" by metis
  have "next_addr (set_prob_sizes rnd cfg t) = 0"
    using t(2) by (simp add: pristine_def set_prob_sizes_def Let_def)
  then show ?thesis unfolding store_start_pool t(1) by (simp add: prepopulate_next_addr)
qed

text \<open>Every sequence of calls on a started store.\<close>

lemma started_run:
  assumes "max_size (store_start rnd sz tm fm cfg (new_store ev)) + length ops < 2 ^ 63"
    and "store_run rnd ops (store_start rnd sz tm fm cfg (new_store ev)) = (rs, t)"
  shows "cache_run ops rs Map.empty (contents t)" "store_inv t"
proof -
  let ?s = "store_start rnd sz tm fm cfg (new_store ev)"
  have "max_size ?s < 2 ^ 63" using assms(1) by simp
  note i = store_start_inv [OF this]
  show "cache_run ops rs Map.empty (contents t)" "store_inv t"
    using store_run_refines [OF i(1) _ assms(2)] i(2) assms(1) store_start_next_addr [of rnd sz tm fm cfg ev]
    by simp_all
qed

subsection \<open>What the specification gives its clients\<close>

lemma cache_step_last_write:
  assumes "cache_step op r m m'" "\<And>v e. m key = Some (v, e) \<Longrightarrow> w = Some v" "m' key = Some (v, e)"
  shows "(case write_of op of None \<Rightarrow> w | Some (k, v) \<Rightarrow> if k = key then Some v else w) = Some v"
  using assms
proof (induction rule: cache_step.induct)
  case (step_set m1 m m2 k x now)
  have "(m1(k \<mapsto> set_value False (x, 0) (m1 k))) key = Some (v, e)"
    using map_le_def domI step_set.hyps(2) step_set.prems(2) by metis
  moreover have "m key = Some (v, e)" if "m1 key = Some (v, e)"
    using map_le_def domI step_set.hyps(1) that by metis
  ultimately show ?case using step_set.prems(1)
    by (auto simp: set_value_def split: if_splits option.splits)
next
  case (step_set_ex m1 m m2 k x now ttl now')
  have "(m1(k \<mapsto> (x, now + ttl))) key = Some (v, e)"
    using map_le_def domI step_set_ex.hyps(2) step_set_ex.prems(2) by metis
  moreover have "m key = Some (v, e)" if "m1 key = Some (v, e)"
    using map_le_def domI step_set_ex.hyps(1) that by metis
  ultimately show ?case using step_set_ex.prems(1) by (auto split: if_splits)
next
  case (step_get now k m)
  then show ?case by (auto simp: cache_expire_def split: option.splits if_splits)
next
  case (step_evict m' m now n)
  then have "m key = Some (v, e)" by (metis map_le_def domI)
  then show ?case using step_evict by simp
qed simp_all

lemma cache_run_last_write:
  assumes "cache_run ops rs m m'" "\<And>v e. m key = Some (v, e) \<Longrightarrow> w = Some v" "m' key = Some (v, e)"
  shows "last_write key w ops = Some v"
  using assms
proof (induction arbitrary: w rule: cache_run.induct)
  case (run_cons op r m m1 ops rs m2)
  let ?w = "case write_of op of None \<Rightarrow> w | Some (k, v) \<Rightarrow> if k = key then Some v else w"
  have "?w = Some v'" if "m1 key = Some (v', e')" for v' e'
    using cache_step_last_write [OF run_cons.hyps(1) run_cons.prems(1) that] .
  with run_cons.IH [of ?w] run_cons.prems(2) show ?case by simp
qed simp

subsection \<open>Bookkeeping\<close>

lemma store_inv_card:
  assumes "store_inv s"
  shows "finite (dom (kvmap s))" "card (dom (kvmap s)) = card (ran (kvmap s))" "finite (ran (kvmap s))"
    "card (dom (kvmap s)) \<le> next_addr s"
proof -
  have sub: "ran (kvmap s) \<subseteq> {..<next_addr s}" using assms pool_inv_own_less by (fastforce simp: kv_inv_def)
  then show fr: "finite (ran (kvmap s))" by (rule finite_subset) simp
  have kd: "keyed s" using assms by (simp add: kv_inv_def)
  have bij: "bij_betw (\<lambda>k. the (kvmap s k)) (dom (kvmap s)) (ran (kvmap s))"
    by (rule bij_betw_byWitness [where f' = "\<lambda>a. e_key (heap s a)"])
      (use kd in \<open>auto simp: keyed_def ran_def\<close>)
  from bij_betw_finite [OF bij] fr show "finite (dom (kvmap s))" by simp
  show c: "card (dom (kvmap s)) = card (ran (kvmap s))" by (rule bij_betw_same_card [OF bij])
  show "card (dom (kvmap s)) \<le> next_addr s"
    using card_mono [OF _ sub] c by simp
qed

lemma store_inv_conserves:
  assumes "store_inv s"
  shows "card (live s) = card (dom (kvmap s)) + length (pool_free s)"
proof -
  have m: "live s = ran (kvmap s) \<union> set (pool_free s)" "ran (kvmap s) \<inter> set (pool_free s) = {}"
    "distinct (pool_free s)" using assms by (simp_all add: kv_inv_def pool_inv_def mem_inv_def)
  show ?thesis
    using card_Un_disjoint [OF store_inv_card(3) [OF assms] _ m(2)] m store_inv_card(2) [OF assms]
    by (simp add: distinct_card)
qed

text \<open>No eviction was counted: SET changed its own key and nothing else.\<close>

lemma set_result_none: "set_result u key v {} {} m = m(key \<mapsto> set_value u v (m key))"
  by (simp add: set_result_def)

lemma no_eviction_counted:
  assumes "store_inv s" "Suc (next_addr s) < 2 ^ 63" "K1 \<subseteq> dom (kvmap s)"
    "K2 \<subseteq> insert key (dom (kvmap s) - K1)" "c + of_nat (card K1 + card K2) = (c :: u64)"
  shows "K1 = {}" "K2 = {}"
proof -
  note f = store_inv_card [OF assms(1)]
  have k1: "finite K1" "card K1 \<le> next_addr s"
    using finite_subset [OF assms(3) f(1)] card_mono [OF f(1) assms(3)] f(4) by simp_all
  have f2: "finite (insert key (dom (kvmap s)))" "K2 \<subseteq> insert key (dom (kvmap s))"
    using f(1) assms(4) by auto
  have "card (insert key (dom (kvmap s))) \<le> Suc (next_addr s)"
    using f(1,4) by (simp add: card_insert_if)
  then have k2: "finite K2" "card K2 \<le> Suc (next_addr s)"
    using finite_subset [OF f2(2,1)] card_mono [OF f2] by simp_all
  have "of_nat (card K1 + card K2) = (0 :: u64)" using assms(5) by simp
  moreover have "card K1 + card K2 < 2 ^ 64" using k1 k2 assms(2) by simp
  ultimately have "card K1 + card K2 = 0" using of_nat_u64_zero [of "card K1 + card K2"] by simp
  then show "K1 = {}" "K2 = {}" using k1 k2 by simp_all
qed


lemmas started_run_pair = started_run [OF _ prod.collapse [symmetric]]

subsection \<open>Properties of the store\<close>

definition example_config :: db_config where
  "example_config = default_db_config
     \<lparr>dc_ev_config := \<lparr>evc_policy = SievePolicyKind,
        evc_soft = \<lparr>ec_trigger = 3 / 4, ec_stop = 1 / 2, ec_budget = 2, ec_prob_budget = 0, ec_throttle = False\<rparr>,
        evc_prob_evict = \<lparr>ec_trigger = 1, ec_stop = 0, ec_budget = 0, ec_prob_budget = 1, ec_throttle = False\<rparr>\<rparr>,
      dc_pool := \<lparr>pc_mode = PoolByMemory, pc_memory_reserve_percentage = 1 / 2,
        pc_pool_max_memory_percent = 1 / 2, pc_page_size_goal = 20, pc_key_reserve = 4,
        pc_prob_pool_size_percent = 1 / 2\<rparr>\<rparr>"

definition example_store :: store_state where
  "example_store = store_start id 76 1600 0 example_config (new_store (dc_ev_config example_config))"

lemma example_ev:
  "dc_ev_config example_config = \<lparr>evc_policy = SievePolicyKind,
     evc_soft = \<lparr>ec_trigger = 3 / 4, ec_stop = 1 / 2, ec_budget = 2, ec_prob_budget = 0, ec_throttle = False\<rparr>,
     evc_prob_evict = \<lparr>ec_trigger = 1, ec_stop = 0, ec_budget = 0, ec_prob_budget = 1, ec_throttle = False\<rparr>\<rparr>"
  by (simp add: example_config_def)

lemma upt_four: "[0..<4] = [0, 1, 2, 3]"
  by (simp add: upt_rec)

lemma example_store_eq:
  "example_store =
     \<lparr>heap = (\<lambda>_. new_entry), live = {0..<4}, next_addr = 4, fault = False, sieveList = [],
      sieve_hand = None, evCfg = dc_ev_config example_config,
      evictParams = evc_soft (dc_ev_config example_config),
      pool_free = [0, 1, 2, 3], value_offset = 24, free_after_pool = 0, pool_max_memory_percent = 1 / 2,
      pool_usable_memory = 800, max_size = 4, prob_pool_max_size = 2, prob_threshold = 2,
      reaper_budget = 1, prob_count = 0, sanc_count = 0, pool_initialized = True,
      prob_eviction_count = 0, probation_list = [], probation_hand = None, sieve_attached = True,
      kvmap = Map.empty, ev_cfg = dc_ev_config example_config, usable_memory = 800, sieve_policy = True,
      stats = \<lparr>st_pool_fallback_allocs = 0, st_eviction_count = 0, st_cache_miss = 0\<rparr>, pq = []\<rparr>"
  by (simp add: example_store_def store_start_pool emplace_policy_def set_usable_memory_def new_store_def pool_init_def
      Let_def set_prob_sizes_def prepopulate_pool_def prepopulate_loop_eq calculate_optimal_pool_size_def
      get_max_allowed_memory_for_pool_def get_per_entry_size_estimate_def to_size_t_def
      example_config_def default_db_config_def upt_four cong: if_cong)

lemma example_store_size: "max_size example_store = 4" "next_addr example_store = 4"
  by (simp_all add: example_store_eq)

text \<open>Evaluation of the store's operations on the example.\<close>

lemmas store_eval = example_store_eq example_ev store_set_def set_with_ttl_def store_get_def Let_def
  acquire_def note_fallback_def record_pool_fallback_alloc_def stats_record_pool_fallback_alloc_def
  get_available_slots_def do_prob_acquire_def do_acquire_def upd_entry_def check_live_def raise_if_def
  emplace_or_update_def try_emplace_def check_memory_and_evict_def get_total_slots_def
  pool_usage_fraction_def get_used_slots_def promote_to_sanctuary_def remove_from_probation_def
  on_insert_def on_erase_def on_hit_def release_def do_prob_release_def do_release_def
  return_or_destroy_def unlink_sanctuary_def update_from_def map_extract_def

lemma example_store_inv: "store_inv example_store" "contents example_store = Map.empty"
  using store_start_inv [of id 76 1600 0 example_config "dc_ev_config example_config", folded example_store_def]
  by (simp_all add: example_store_size)



text \<open>
  C15. A shard refines the cache specification: every sequence of calls on a started store is a
  run of the specification from the empty cache with the same results, and what the store
  holds at the end is what that run ends in.
\<close>

theorem store_refines_cache:
  assumes "max_size (store_start rnd sz tm fm cfg (new_store ev)) + length ops < 2 ^ 63"
  shows "cache_run ops (fst (store_run rnd ops (store_start rnd sz tm fm cfg (new_store ev)))) Map.empty
    (contents (snd (store_run rnd ops (store_start rnd sz tm fm cfg (new_store ev)))))"
  by (rule started_run_pair(1) [OF assms])

theorem store_refines_cache_witness:
  "cache_run [OpSet 1 ''k'' ''v'', OpGet 2 ''k'']
     (fst (store_run id [OpSet 1 ''k'' ''v'', OpGet 2 ''k''] example_store)) Map.empty
     (contents (snd (store_run id [OpSet 1 ''k'' ''v'', OpGet 2 ''k''] example_store)))"
  using store_refines_cache [of id 76 1600 0 example_config "dc_ev_config example_config"
      "[OpSet 1 ''k'' ''v'', OpGet 2 ''k'']", folded example_store_def]
  by (simp add: example_store_size del: store_run.simps)

text \<open>
  Read your writes, or miss: after any sequence of calls on a started store a GET answers
  with the value of the last SET of its key in the sequence, or with null.
\<close>

theorem get_last_write:
  assumes "max_size (store_start rnd sz tm fm cfg (new_store ev)) + length ops < 2 ^ 63"
  shows "fst (store_get now key (snd (store_run rnd ops (store_start rnd sz tm fm cfg (new_store ev)))))
    \<in> {None, last_write key None ops}"
proof -
  let ?t = "snd (store_run rnd ops (store_start rnd sz tm fm cfg (new_store ev)))"
  note r = started_run_pair [OF assms]
  show ?thesis
  proof (cases "contents ?t key")
    case None
    then show ?thesis using store_get_spec(1) [of ?t now key] r(2) by (simp add: cache_lookup_def)
  next
    case (Some ve)
    obtain v e where "contents ?t key = Some (v, e)" using Some by (cases ve) auto
    then show ?thesis
      using store_get_spec(1) [of ?t now key] r(2) cache_run_last_write [OF r(1), where key = key and w = None and v = v and e = e]
      by (simp add: cache_lookup_def)
  qed
qed

theorem get_last_write_witness:
  "fst (store_get 3 ''k'' (snd (store_run id [OpSet 1 ''k'' ''a'', OpSet 1 ''j'' ''x'', OpSet 2 ''k'' ''b'']
     example_store))) \<in> {None, Some ''b''}"
  using get_last_write [of id 76 1600 0 example_config "dc_ev_config example_config"
      "[OpSet 1 ''k'' ''a'', OpSet 1 ''j'' ''x'', OpSet 2 ''k'' ''b'']" 3 "''k''",
      folded example_store_def]
  by (simp add: example_store_size)

text \<open>
  C16. SET of a key that is not in the store succeeds and the key is there when SET returns, with no
  deadline, however full the pool is: the eviction check at the end of SET never takes the
  entry that the same SET has inserted.
\<close>

theorem set_new_key:
  assumes "store_inv s" "Suc (next_addr s) < 2 ^ 63" "kvmap s key = None"
  shows "fst (store_set rnd now key value s)
    \<and> contents (snd (store_set rnd now key value s)) key = Some (value, 0)"
proof -
  obtain K1 K2 t where t: "store_set rnd now key value s = (True, t)"
    "contents t = set_result False key (value, 0) K1 K2 (contents s)"
    "kvmap s key = None \<Longrightarrow> \<not> is_expired now 0 \<Longrightarrow> key \<notin> K2"
    using store_set_cases [OF assms(1,2)] by metis
  then have "key \<notin> K2" using assms(3) by (simp add: is_expired_def)
  moreover have "contents s key = None" using assms(3) by (simp add: contents_def)
  ultimately show ?thesis using t by (simp add: set_result_def Let_def set_value_def restrict_map_def)
qed

theorem set_new_key_witness:
  "contents (snd (store_set id 5 ''k'' ''v'' example_store)) ''k'' = Some (''v'', 0)"
  using set_new_key [OF example_store_inv(1), of "''k''" id 5 "''v''"] example_store_inv(2)
  by (simp add: example_store_size contents_def fun_eq_iff)

text \<open>
  The eviction counter tells clients what SET cost: when it has not moved, SET changed the
  entry of its own key and no other; the deadline of an existing key is kept.
\<close>

theorem set_without_eviction:
  assumes "store_inv s" "Suc (next_addr s) < 2 ^ 63"
    and "st_eviction_count (stats (snd (store_set rnd now key value s))) = st_eviction_count (stats s)"
  shows "contents (snd (store_set rnd now key value s)) =
    (contents s)(key \<mapsto> (value, case contents s key of None \<Rightarrow> 0 | Some (v, e) \<Rightarrow> e))"
proof -
  obtain K1 K2 t where t: "store_set rnd now key value s = (True, t)"
    "contents t = set_result False key (value, 0) K1 K2 (contents s)"
    "K1 \<subseteq> dom (kvmap s)" "K2 \<subseteq> insert key (dom (kvmap s) - K1)"
    "st_eviction_count (stats t) = st_eviction_count (stats s) + of_nat (card K1 + card K2)"
    using store_set_cases [OF assms(1,2)] by metis
  have "K1 = {}" "K2 = {}"
    using no_eviction_counted [OF assms(1,2) t(3,4), of "st_eviction_count (stats s)"] t(1,5) assms(3) by simp_all
  then show ?thesis using t
    by (simp add: set_result_none set_value_def fun_eq_iff split: option.split)
qed

theorem set_without_eviction_witness:
  "contents (snd (store_set id 5 ''k'' ''v'' example_store)) = [''k'' \<mapsto> (''v'', 0)]"
proof -
  have "st_eviction_count (stats (snd (store_set id 5 ''k'' ''v'' example_store))) = st_eviction_count (stats example_store)"
    by (simp add: store_eval)
  from set_without_eviction [OF example_store_inv(1) _ this] show ?thesis
    by (simp add: example_store_size example_store_inv(2))
qed

text \<open>
  SET with a time to live of a key that is not in the store: the key is there when SET returns, with its
  deadline, unless that deadline has already passed when the eviction check runs.
\<close>

theorem set_with_ttl_new_key:
  assumes "store_inv s" "Suc (next_addr s) < 2 ^ 63" "kvmap s key = None"
    and "\<not> is_expired now' (now + ttl)"
  shows "fst (set_with_ttl rnd now now' key value ttl s)
    \<and> contents (snd (set_with_ttl rnd now now' key value ttl s)) key = Some (value, now + ttl)"
proof -
  obtain K1 K2 t where t: "set_with_ttl rnd now now' key value ttl s = (True, t)"
    "contents t = set_result True key (value, now + ttl) K1 K2 (contents s)"
    "kvmap s key = None \<Longrightarrow> \<not> is_expired now' (now + ttl) \<Longrightarrow> key \<notin> K2"
    using set_with_ttl_cases [OF assms(1,2)] by metis
  then have "key \<notin> K2" using assms(3,4) by simp
  then show ?thesis using t by (simp add: set_result_def Let_def restrict_map_def)
qed

theorem set_with_ttl_new_key_witness:
  "contents (snd (set_with_ttl id 5 6 ''k'' ''v'' 10 example_store)) ''k'' = Some (''v'', 15)"
  using set_with_ttl_new_key [OF example_store_inv(1), of "''k''" 6 5 10 id "''v''"] example_store_inv(2)
  by (simp add: example_store_size contents_def fun_eq_iff is_expired_def)

text \<open>
  C17. GET is exact: it answers with the stored value unless the key is absent or its deadline
  has passed; it removes the key in the latter case and changes no other key in any case.
\<close>

theorem get_exact:
  assumes "store_inv s"
  shows "fst (store_get now key s) = cache_lookup now key (contents s)
    \<and> contents (snd (store_get now key s)) = cache_expire now key (contents s)
    \<and> store_inv (snd (store_get now key s))"
  using store_get_spec [OF assms] by simp

theorem get_exact_witness:
  "fst (store_get 7 ''k'' example_store) = None \<and> store_inv (snd (store_get 7 ''k'' example_store))"
  using get_exact [OF example_store_inv(1), of 7 "''k''"]
  by (simp add: example_store_inv(2) cache_lookup_def)

text \<open>
  A GET that hits moves the entry to the sanctuary: afterwards it is in the list of the
  SIEVE policy, out of the probation list, and marked as visited.
\<close>

theorem get_hit_promotes:
  assumes "store_inv s" "fst (store_get now key s) = Some v" "kvmap s key = Some a"
  defines "t \<equiv> snd (store_get now key s)"
  shows "a \<in> set (sieveList t) \<and> a \<notin> set (probation_list t)
    \<and> e_pool_type (heap t a) = Sanctuary \<and> e_visited (heap t a)"
proof -
  have t: "t = on_hit a (promote_to_sanctuary a s)"
    using assms(2) unfolding t_def store_get_live [OF assms(1,3)] by (auto split: if_splits)
  note h = store_get_hit [OF assms(1,3), folded t]
  have "a \<notin> set (probation_list t)"
    using h(1,5) by (auto simp: kv_inv_def pool_inv_def lists_inv_def)
  then show ?thesis using h by simp
qed

definition example_store1 :: store_state where
  "example_store1 = snd (store_set id 5 ''k'' ''v'' example_store)"

lemma example_store_room: "Suc (next_addr example_store) < 2 ^ 63"
  by (simp add: example_store_size)

lemma example_store1_inv: "store_inv example_store1" "contents example_store1 = [''k'' \<mapsto> (''v'', 0)]"
  "next_addr example_store1 \<le> 5"
proof -
  obtain K1 K2 t where "store_set id 5 ''k'' ''v'' example_store = (True, t)" "store_inv t"
      "next_addr t \<le> Suc (next_addr example_store)"
    using store_set_cases [OF example_store_inv(1) example_store_room] by metis
  then show "store_inv example_store1" "next_addr example_store1 \<le> 5"
    by (simp_all add: example_store1_def example_store_size)
  show "contents example_store1 = [''k'' \<mapsto> (''v'', 0)]"
    by (simp add: example_store1_def store_eval contents_def fun_eq_iff new_entry_def)
qed

theorem get_hit_promotes_witness:
  "0 \<in> set (sieveList (snd (store_get 9 ''k'' example_store1)))"
proof -
  have m: "kvmap example_store1 ''k'' = Some 0" by (simp add: example_store1_def store_eval)
  have "fst (store_get 9 ''k'' example_store1) = Some ''v''"
    using store_get_spec(1) [OF example_store1_inv(1), of 9 "''k''"]
    by (simp add: example_store1_inv(2) cache_lookup_def is_expired_def)
  from get_hit_promotes [OF example_store1_inv(1) this m] show ?thesis by simp
qed





text \<open>
  C20. SET without a deadline on a key whose deadline has passed, but which has not been removed
  yet, keeps that deadline: the value it stored is not readable. (Stated for a SET that
  evicted nothing.)
\<close>

theorem set_on_expired_key:
  assumes "store_inv s" "Suc (next_addr s) < 2 ^ 63" "contents s key = Some (v, e)" "is_expired now e" "now \<le> now'"
    and "st_eviction_count (stats (snd (store_set rnd now key value s))) = st_eviction_count (stats s)"
  shows "fst (store_get now' key (snd (store_set rnd now key value s))) = None"
proof -
  obtain K1 K2 t where t: "store_set rnd now key value s = (True, t)" "store_inv t"
    "contents t = set_result False key (value, 0) K1 K2 (contents s)"
    "K1 \<subseteq> dom (kvmap s)" "K2 \<subseteq> insert key (dom (kvmap s) - K1)"
    "st_eviction_count (stats t) = st_eviction_count (stats s) + of_nat (card K1 + card K2)"
    using store_set_cases [OF assms(1,2)] by metis
  have "K1 = {}" "K2 = {}"
    using no_eviction_counted [OF assms(1,2) t(4,5), of "st_eviction_count (stats s)"] t(1,6) assms(6) by simp_all
  then have "contents t key = Some (value, e)"
    using t(3) assms(3) by (simp add: set_result_none set_value_def)
  then show ?thesis
    using store_get_spec(1) [OF t(2), of now' key] t(1) assms(4,5)
    by (auto simp: cache_lookup_def is_expired_def)
qed

lemma two_le_one: "\<not> (2 :: u64) \<le> 1"
  by (simp add: word_le_nat_alt)

definition example_store2 :: store_state where
  "example_store2 = snd (set_with_ttl id 5 5 ''k'' ''v'' 10 example_store)"

theorem set_on_expired_key_witness:
  "fst (store_get 30 ''k'' (snd (store_set id 20 ''k'' ''w'' example_store2))) = None"
proof -
  obtain K1 K2 t where "set_with_ttl id 5 5 ''k'' ''v'' 10 example_store = (True, t)" "store_inv t"
      "next_addr t \<le> Suc (next_addr example_store)"
    using set_with_ttl_cases [OF example_store_inv(1) example_store_room] by metis
  then have i: "store_inv example_store2" "Suc (next_addr example_store2) < 2 ^ 63"
    by (simp_all add: example_store2_def example_store_size)
  have c: "contents example_store2 ''k'' = Some (''v'', 15)"
    by (simp add: example_store2_def store_eval contents_def new_entry_def)
  have "st_eviction_count (stats (snd (store_set id 20 ''k'' ''w'' example_store2))) = st_eviction_count (stats example_store2)"
    by (simp add: example_store2_def store_eval new_entry_def two_le_one)
  from set_on_expired_key [OF i c _ _ this, of 30] show ?thesis by (simp add: is_expired_def)
qed

end
