(* ===== verification/Fnv.thy ===== *)
theory Fnv
  imports Prelude
begin

text \<open>
  The hash functions of \<open>third_party/fnv\<close>: FNV-1 and FNV-1a, 32 and 64 bits, on a
  buffer and on a NUL-terminated string, in the form the compiler sees by default (64-bit
  integers available, multiplication by the prime done with shifts). A buffer is the list
  of its octets; a C string is a list of octets, read up to the first NUL or to its end.
\<close>

unbundle bit_operations_syntax

abbreviation octet :: "char \<Rightarrow> 'a :: len word" where
  "octet c \<equiv> of_char c"

definition FNV_64_PRIME :: u64 where
  "FNV_64_PRIME = 0x100000001b3"

definition FNV_32_PRIME :: u32 where
  "FNV_32_PRIME = 0x01000193"

definition FNV1A_64_INIT :: u64 where
  "FNV1A_64_INIT = 0xcbf29ce484222325"

text \<open>\<open>hval += (hval << 1) + \<dots>\<close>, the multiplication without a multiplier.\<close>

definition fnv_64_mult :: "u64 \<Rightarrow> u64" where
  "fnv_64_mult hval = hval + (push_bit 1 hval + push_bit 4 hval + push_bit 5 hval +
     push_bit 7 hval + push_bit 8 hval + push_bit 40 hval)"

definition fnv_32_mult :: "u32 \<Rightarrow> u32" where
  "fnv_32_mult hval = hval + (push_bit 1 hval + push_bit 4 hval + push_bit 7 hval +
     push_bit 8 hval + push_bit 24 hval)"

subsection \<open>The eight functions\<close>

fun fnv_64a_buf :: "char list \<Rightarrow> u64 \<Rightarrow> u64" where
  "fnv_64a_buf [] hval = hval"
| "fnv_64a_buf (b # bs) hval = fnv_64a_buf bs (fnv_64_mult (hval XOR octet b))"

fun fnv_64a_str :: "char list \<Rightarrow> u64 \<Rightarrow> u64" where
  "fnv_64a_str [] hval = hval"
| "fnv_64a_str (b # bs) hval =
     (if of_char b = (0 :: u8) then hval else fnv_64a_str bs (fnv_64_mult (hval XOR octet b)))"

fun fnv_64_buf :: "char list \<Rightarrow> u64 \<Rightarrow> u64" where
  "fnv_64_buf [] hval = hval"
| "fnv_64_buf (b # bs) hval = fnv_64_buf bs (fnv_64_mult hval XOR octet b)"

fun fnv_64_str :: "char list \<Rightarrow> u64 \<Rightarrow> u64" where
  "fnv_64_str [] hval = hval"
| "fnv_64_str (b # bs) hval =
     (if of_char b = (0 :: u8) then hval else fnv_64_str bs (fnv_64_mult hval XOR octet b))"

fun fnv_32a_buf :: "char list \<Rightarrow> u32 \<Rightarrow> u32" where
  "fnv_32a_buf [] hval = hval"
| "fnv_32a_buf (b # bs) hval = fnv_32a_buf bs (fnv_32_mult (hval XOR octet b))"

fun fnv_32a_str :: "char list \<Rightarrow> u32 \<Rightarrow> u32" where
  "fnv_32a_str [] hval = hval"
| "fnv_32a_str (b # bs) hval =
     (if of_char b = (0 :: u8) then hval else fnv_32a_str bs (fnv_32_mult (hval XOR octet b)))"

fun fnv_32_buf :: "char list \<Rightarrow> u32 \<Rightarrow> u32" where
  "fnv_32_buf [] hval = hval"
| "fnv_32_buf (b # bs) hval = fnv_32_buf bs (fnv_32_mult hval XOR octet b)"

fun fnv_32_str :: "char list \<Rightarrow> u32 \<Rightarrow> u32" where
  "fnv_32_str [] hval = hval"
| "fnv_32_str (b # bs) hval =
     (if of_char b = (0 :: u8) then hval else fnv_32_str bs (fnv_32_mult hval XOR octet b))"

subsection \<open>Facts\<close>

lemma fnv_64_mult_prime: "fnv_64_mult h = h * FNV_64_PRIME"
  by (simp add: fnv_64_mult_def FNV_64_PRIME_def push_bit_eq_mult algebra_simps)

lemma fnv_32_mult_prime: "fnv_32_mult h = h * FNV_32_PRIME"
  by (simp add: fnv_32_mult_def FNV_32_PRIME_def push_bit_eq_mult algebra_simps)

text \<open>A C string is hashed like the buffer of its octets before the terminator.\<close>

abbreviation c_str :: "char list \<Rightarrow> char list" where
  "c_str \<equiv> takeWhile (\<lambda>b. of_char b \<noteq> (0 :: u8))"

lemma fnv_str_buf:
  "fnv_64a_str bs h64 = fnv_64a_buf (c_str bs) h64" "fnv_64_str bs h64 = fnv_64_buf (c_str bs) h64"
  "fnv_32a_str bs h32 = fnv_32a_buf (c_str bs) h32" "fnv_32_str bs h32 = fnv_32_buf (c_str bs) h32"
  by (induction bs arbitrary: h64 h32) simp_all

text \<open>
  What a hash function promises that is computed one octet at a time: the hash of a
  concatenation continues from the hash of its first part.
\<close>

locale octet_hash =
  fixes hash_buf :: "char list \<Rightarrow> 'h \<Rightarrow> 'h" and mix :: "'h \<Rightarrow> char \<Rightarrow> 'h"
  assumes buf_Nil: "hash_buf [] h = h"
    and buf_Cons: "hash_buf (b # bs) h = hash_buf bs (mix h b)"
begin

lemma buf_foldl: "hash_buf bs h = foldl mix h bs"
  by (induction bs arbitrary: h) (simp_all add: buf_Nil buf_Cons)

lemma buf_append: "hash_buf (as @ bs) h = hash_buf bs (hash_buf as h)"
  by (simp add: buf_foldl)

end

interpretation fnv_64a: octet_hash fnv_64a_buf "\<lambda>h b. (h XOR octet b) * FNV_64_PRIME"
  by unfold_locales (simp_all add: fnv_64_mult_prime)

interpretation fnv_64: octet_hash fnv_64_buf "\<lambda>h b. (h * FNV_64_PRIME) XOR octet b"
  by unfold_locales (simp_all add: fnv_64_mult_prime)

interpretation fnv_32a: octet_hash fnv_32a_buf "\<lambda>h b. (h XOR octet b) * FNV_32_PRIME"
  by unfold_locales (simp_all add: fnv_32_mult_prime)

interpretation fnv_32: octet_hash fnv_32_buf "\<lambda>h b. (h * FNV_32_PRIME) XOR octet b"
  by unfold_locales (simp_all add: fnv_32_mult_prime)

text \<open>
  C32. The 64-bit FNV-1a hash that places keys on shards, computed with six shifts per octet, is
  the reference one: xor with the octet, then multiply by the prime modulo 2^64. It can be
  computed piecewise.
\<close>

theorem fnv_64a_reference:
  "fnv_64a_buf bs h = foldl (\<lambda>h b. (h XOR octet b) * 0x100000001b3) h bs
    \<and> fnv_64a_buf (as @ bs) h = fnv_64a_buf bs (fnv_64a_buf as h)"
  using fnv_64a.buf_foldl [of bs h] fnv_64a.buf_append [of as bs h] by (simp add: FNV_64_PRIME_def)

end
