(* ===== verification/Text.thy ===== *)
theory Text
  imports Prelude
begin

text \<open>
  Text handling: what the sources use of \<open>std::from_chars\<close>, \<open>std::to_string\<close>,
  \<open>string_view::find\<close> and \<open>std::toupper\<close>, and the helpers of
  \<open>include/proto_helpers.hh\<close> and \<open>include/protocol.hh\<close>. A string view is a list of
  characters; \<open>npos\<close> is \<open>None\<close>.
\<close>

subsection \<open>Decimal numbers\<close>

definition digit_char :: "nat \<Rightarrow> char" where
  "digit_char d = char_of (48 + d)"

definition digit_val :: "char \<Rightarrow> nat" where
  "digit_val c = of_char c - 48"

definition is_digit :: "char \<Rightarrow> bool" where
  "is_digit c \<longleftrightarrow> 48 \<le> (of_char c :: nat) \<and> (of_char c :: nat) \<le> 57"

fun to_string :: "nat \<Rightarrow> string" where
  "to_string n = (if n < 10 then [digit_char n] else to_string (n div 10) @ [digit_char (n mod 10)])"

declare to_string.simps [simp del]

definition int_to_string :: "int \<Rightarrow> string" where
  "int_to_string i = (if i < 0 then CHR ''-'' # to_string (nat (- i)) else to_string (nat i))"

fun digits_value :: "nat \<Rightarrow> string \<Rightarrow> nat" where
  "digits_value v [] = v"
| "digits_value v (c # cs) = digits_value (v * 10 + digit_val c) cs"

datatype errc = invalid_argument | result_out_of_range

text \<open>
  \<open>std::from_chars\<close> for an unsigned type with the given maximum, and for a signed type: the
  value and the characters that follow the number, or the error code.
\<close>

definition from_chars_unsigned :: "nat \<Rightarrow> string \<Rightarrow> errc + nat \<times> string" where
  "from_chars_unsigned maxv s =
     (let ds = takeWhile is_digit s; v = digits_value 0 ds
      in if ds = [] then Inl invalid_argument
         else if maxv < v then Inl result_out_of_range
         else Inr (v, dropWhile is_digit s))"

definition from_chars_signed :: "nat \<Rightarrow> string \<Rightarrow> errc + int \<times> string" where
  "from_chars_signed maxv s =
     (let neg = (s \<noteq> [] \<and> hd s = CHR ''-'');
          s1 = (if neg then tl s else s);
          ds = takeWhile is_digit s1; v = digits_value 0 ds
      in if ds = [] then Inl invalid_argument
         else if (if neg then Suc maxv else maxv) < v then Inl result_out_of_range
         else Inr (if neg then - int v else int v, dropWhile is_digit s1))"

lemma of_char_digit_char [simp]: "d < 10 \<Longrightarrow> (of_char (digit_char d) :: nat) = 48 + d"
  by (simp add: digit_char_def)

lemma digit_val_digit_char [simp]: "d < 10 \<Longrightarrow> digit_val (digit_char d) = d"
  by (simp add: digit_val_def)

lemma is_digit_digit_char [simp]: "d < 10 \<Longrightarrow> is_digit (digit_char d)"
  by (simp add: is_digit_def)

lemma digits_value_append: "digits_value v (xs @ ys) = digits_value (digits_value v xs) ys"
  by (induction xs arbitrary: v) simp_all

lemma digits_value_to_string: "digits_value 0 (to_string n) = n"
proof (induction n rule: to_string.induct)
  case (1 n)
  then show ?case
    by (cases "n < 10") (simp_all add: to_string.simps [of n] digits_value_append)
qed

lemma to_string_digits: "\<forall>c \<in> set (to_string n). is_digit c"
proof (induction n rule: to_string.induct)
  case (1 n)
  then show ?case by (cases "n < 10") (auto simp: to_string.simps [of n])
qed

lemma to_string_not_Nil [simp]: "to_string n \<noteq> []"
  by (simp add: to_string.simps)

text \<open>Printing a number and reading it back.\<close>

lemma from_chars_to_string:
  assumes "n \<le> maxv" "rest = [] \<or> \<not> is_digit (hd rest)"
  shows "from_chars_unsigned maxv (to_string n @ rest) = Inr (n, rest)"
proof -
  have "takeWhile is_digit (to_string n @ rest) = to_string n"
    "dropWhile is_digit (to_string n @ rest) = rest"
    using assms(2) to_string_digits [of n]
    by (cases rest; simp add: takeWhile_append dropWhile_append)+
  then show ?thesis
    using assms(1) by (simp add: from_chars_unsigned_def Let_def digits_value_to_string)
qed

subsection \<open>Searching\<close>

fun find_char :: "char \<Rightarrow> string \<Rightarrow> nat option" where
  "find_char c [] = None"
| "find_char c (x # xs) = (if x = c then Some 0 else map_option Suc (find_char c xs))"

lemma find_char_None: "find_char c s = None \<longleftrightarrow> c \<notin> set s"
  by (induction s) auto

lemma find_char_append: "c \<notin> set xs \<Longrightarrow> find_char c (xs @ c # ys) = Some (length xs)"
  by (induction xs) auto

lemma find_char_Some:
  "find_char c s = Some i \<Longrightarrow> i < length s \<and> s ! i = c \<and> c \<notin> set (take i s)"
proof (induction s arbitrary: i)
  case (Cons x xs)
  then show ?case by (cases i) (auto split: if_splits)
qed simp

lemma find_char_split:
  assumes "find_char c s = Some i"
  obtains xs ys where "s = xs @ c # ys" "c \<notin> set xs" "length xs = i"
  using find_char_Some [OF assms] that [of "take i s" "drop (Suc i) s"] id_take_nth_drop [of i s] by auto

subsection \<open>Case-insensitive comparison\<close>

definition ascii_upper :: "char \<Rightarrow> char" where
  "ascii_upper c = (if 97 \<le> (of_char c :: nat) \<and> (of_char c :: nat) \<le> 122
                    then char_of ((of_char c :: nat) - 97 + 65) else c)"

text \<open>
  The comparison \<open>ieq\<close> (\<open>proto_helpers.hh\<close>, and again in \<open>cmd_set.cc\<close> and
  \<open>cmd_node_info.cc\<close>) and \<open>ascii_ieq\<close> (\<open>resp_stream_processor.cc\<close>): lengths
  first, then character by character.
\<close>

fun ieq_chars :: "string \<Rightarrow> string \<Rightarrow> bool" where
  "ieq_chars (a # as) (b # bs) = (if ascii_upper a \<noteq> ascii_upper b then False else ieq_chars as bs)"
| "ieq_chars _ _ = True"

definition ieq :: "string \<Rightarrow> string \<Rightarrow> bool" where
  "ieq a b = (if length a \<noteq> length b then False else ieq_chars a b)"

definition ascii_ieq :: "string \<Rightarrow> string \<Rightarrow> bool" where
  "ascii_ieq a b = (if length a \<noteq> length b then False else ieq_chars a b)"

lemma ieq_chars_map: "length a = length b \<Longrightarrow> ieq_chars a b \<longleftrightarrow> map ascii_upper a = map ascii_upper b"
  by (induction a b rule: ieq_chars.induct) auto

lemma ieq_map: "ieq a b \<longleftrightarrow> map ascii_upper a = map ascii_upper b"
  using ieq_chars_map [of a b] map_eq_imp_length_eq [of ascii_upper a ascii_upper b]
  by (auto simp: ieq_def)

lemma ascii_ieq_map: "ascii_ieq a b \<longleftrightarrow> map ascii_upper a = map ascii_upper b"
  using ieq_map [of a b] by (simp add: ieq_def ascii_ieq_def)

subsection \<open>Lines of text\<close>

definition is_blank :: "char \<Rightarrow> bool" where
  "is_blank c \<longleftrightarrow> c = CHR '' '' \<or> c = CHR 0x09"

definition is_trailing :: "char \<Rightarrow> bool" where
  "is_trailing c \<longleftrightarrow> c = CHR '' '' \<or> c = CHR 0x09 \<or> c = CHR 0x0D \<or> c = CHR 0x0A"

fun ltrim :: "string \<Rightarrow> string" where
  "ltrim [] = []"
| "ltrim (c # cs) = (if is_blank c then ltrim cs else c # cs)"

function rtrim :: "string \<Rightarrow> string" where
  "rtrim s = (if s \<noteq> [] \<and> is_trailing (last s) then rtrim (butlast s) else s)"
  by pat_completeness auto
termination by (relation "measure length") auto

declare rtrim.simps [simp del]

definition trim :: "string \<Rightarrow> string" where
  "trim s = rtrim (ltrim s)"

fun find_first_of :: "(char \<Rightarrow> bool) \<Rightarrow> string \<Rightarrow> nat option" where
  "find_first_of P [] = None"
| "find_first_of P (c # cs) = (if P c then Some 0 else map_option Suc (find_first_of P cs))"

definition split_first :: "string \<Rightarrow> string \<times> string" where
  "split_first s =
     (let s = trim s
      in case find_first_of is_blank s of
           None \<Rightarrow> (s, [])
         | Some p \<Rightarrow> (take p s, ltrim (drop (p + 1) s)))"

definition parse_set_kv :: "string \<Rightarrow> string \<times> string" where
  "parse_set_kv rest =
     (let rest = trim rest; (k, t) = split_first rest
      in if k = [] \<or> t = [] then ([], []) else (k, rtrim t))"

text \<open>\<open>std::toupper\<close> in the C locale.\<close>

definition to_upper :: "string \<Rightarrow> string" where
  "to_upper s = map ascii_upper s"

text \<open>\<open>hash\<close> is \<open>std::hash<std::string_view>\<close>.\<close>

definition shard_for_key :: "(string \<Rightarrow> u64) \<Rightarrow> u32 \<Rightarrow> string \<Rightarrow> u32" where
  "shard_for_key hash smp_count key = of_nat (unat (hash key) mod unat smp_count)"

fun eat_ws :: "string \<Rightarrow> string" where
  "eat_ws [] = []"
| "eat_ws (c # cs) = (if c = CHR '' '' then eat_ws cs else c # cs)"

definition split_cmd :: "string \<Rightarrow> string \<times> string" where
  "split_cmd line =
     (let s = eat_ws line;
          i = length (takeWhile (\<lambda>c. c \<noteq> CHR '' '') s);
          cmd = take i s;
          s1 = (if i < length s then drop (i + 1) s else drop i s)
      in (cmd, eat_ws s1))"

lemma ltrim_id: "s = [] \<or> \<not> is_blank (hd s) \<Longrightarrow> ltrim s = s"
  by (cases s) auto

lemma rtrim_id: "s = [] \<or> \<not> is_trailing (last s) \<Longrightarrow> rtrim s = s"
  by (subst rtrim.simps) auto

lemma rtrim_trailing: "\<forall>c \<in> set ws. is_trailing c \<Longrightarrow> rtrim (s @ ws) = rtrim s"
proof (induction ws rule: rev_induct)
  case (snoc c ws)
  then have "rtrim (s @ ws @ [c]) = rtrim (s @ ws)"
    by (subst rtrim.simps) (simp add: butlast_append)
  with snoc show ?case by simp
qed simp

lemma find_first_of_append:
  "\<forall>c \<in> set xs. \<not> P c \<Longrightarrow> P y \<Longrightarrow> find_first_of P (xs @ y # ys) = Some (length xs)"
  by (induction xs) auto

text \<open>
  A line "key value" read by \<open>parse_set_kv\<close>: for a key without blanks and a value that neither starts
  with a blank nor ends in white space, the helper returns both, whatever line ending
  follows; blanks inside the value are kept.
\<close>

theorem parse_set_kv_line:
  assumes "key \<noteq> []" "\<forall>c \<in> set key. \<not> is_blank c" "value \<noteq> []"
    "\<not> is_blank (hd value)" "\<not> is_trailing (last value)" "\<forall>c \<in> set eol. is_trailing c"
  shows "parse_set_kv (key @ CHR '' '' # value @ eol) = (key, value)"
proof -
  let ?s = "key @ CHR '' '' # value"
  have b: "is_blank (CHR '' '')" by (simp add: is_blank_def)
  have "\<not> is_blank (hd key)" using assms(1,2) by simp
  then have "ltrim (?s @ eol) = ?s @ eol" "ltrim ?s = ?s"
    using assms(1) by (auto intro!: ltrim_id)
  moreover have "rtrim (?s @ eol) = ?s"
    unfolding rtrim_trailing [OF assms(6)] using assms(3,5) by (intro rtrim_id) simp
  moreover have "rtrim ?s = ?s" using assms(3,5) by (intro rtrim_id) simp
  ultimately have t: "trim (?s @ eol) = ?s" "trim ?s = ?s" by (simp_all only: trim_def)
  have "find_first_of is_blank ?s = Some (length key)"
    using assms(2) b by (rule find_first_of_append)
  then have "split_first ?s = (key, value)"
    using assms(4) by (simp add: split_first_def t(2) Let_def ltrim_id)
  then show ?thesis
    using t(1) assms(1,3,5) by (simp add: parse_set_kv_def Let_def rtrim_id)
qed

theorem parse_set_kv_line_witness:
  "parse_set_kv (''k1'' @ CHR '' '' # ''a b'' @ [CHR 0x0D, CHR 0x0A]) = (''k1'', ''a b'')"
  by (rule parse_set_kv_line) (simp_all add: is_blank_def is_trailing_def)

end
