(* ===== verification/Hash.thy ===== *)
theory Hash
  imports Fnv Text
begin

text \<open>
  Placement of keys: the hash of \<open>include/hash_wrapper.hh\<close>, the mapping from keys to shards of
  \<open>include/hash.hh\<close>, and the hash ranges and ports that a node advertises
  (\<open>include/cmd_node_info.hh\<close>, \<open>src/node_info_helpers.cc\<close>, \<open>src/cmd_node_info.cc\<close>). The products in
  \<open>__uint128_t\<close> are formed on natural numbers: a 64-bit factor times a 32-bit factor is below
  2^128. The process-wide variables \<open>g_first_data_shard\<close>, \<open>smp::count\<close> and \<open>g_node_cfg\<close> are
  arguments.
\<close>

definition fnv1a64 :: "string \<Rightarrow> u64" where
  "fnv1a64 s = fnv_64a_buf s FNV1A_64_INIT"

text \<open>The truncation to \<open>unsigned\<close> of the upper half of the 128-bit product.\<close>

definition mul_shift :: "u64 \<Rightarrow> u32 \<Rightarrow> u32" where
  "mul_shift h D = of_nat ((unat h * unat D) div 2 ^ 64)"

definition owner_shard :: "u64 \<Rightarrow> u32 \<Rightarrow> u32 \<Rightarrow> u32" where
  "owner_shard h smp first = (if smp \<le> first then first else first + mul_shift h (smp - first))"

definition owner_shard_key :: "string \<Rightarrow> u32 \<Rightarrow> u32 \<Rightarrow> u32" where
  "owner_shard_key key smp first = owner_shard (fnv1a64 key) smp first"

definition shard_for :: "u32 \<Rightarrow> u32 \<Rightarrow> string \<Rightarrow> u32" where
  "shard_for g_first_data_shard smp_count key =
     (let smp = smp_count; first = g_first_data_shard
      in if smp \<le> first then first
         else (let D = smp - first; h = fnv1a64 key; idx = mul_shift h D in first + idx))"

record node_cfg =
  nc_base_port :: u16
  nc_smp :: u32
  nc_port_offset :: u32
  nc_hash :: sstring
  nc_epoch :: u64
  nc_isPreHashed :: bool

definition default_node_cfg :: node_cfg where
  "default_node_cfg = \<lparr>nc_base_port = 60110, nc_smp = 1, nc_port_offset = 0, nc_hash = ''fnv1a435345'',
     nc_epoch = 1, nc_isPreHashed = False\<rparr>"

record hash_range =
  hr_lo :: u64
  hr_hi :: u64
  hr_shard :: u32
  hr_port :: u32

definition first_sid :: "node_cfg \<Rightarrow> u32" where
  "first_sid cfg = (if nc_port_offset cfg \<noteq> 0 then 1 else 0)"

definition last_sid :: "node_cfg \<Rightarrow> u32" where
  "last_sid cfg = (if nc_smp cfg = 0 then 0 else nc_smp cfg)"

definition range_entry :: "node_cfg \<Rightarrow> u32 \<Rightarrow> u32 \<Rightarrow> u32 \<Rightarrow> hash_range" where
  "range_entry cfg D i sid =
     (let lo128 = (2 ^ 64 * unat i) div unat D;
          hi128 = (2 ^ 64 * unat (i + 1)) div unat D - 1;
          port32 = ucast (nc_base_port cfg) + sid
      in \<lparr>hr_lo = of_nat lo128, hr_hi = of_nat hi128, hr_shard = sid, hr_port = ucast (ucast port32 :: u16)\<rparr>)"

definition hash_ranges :: "node_cfg \<Rightarrow> hash_range list" where
  "hash_ranges cfg =
     (let D = last_sid cfg - first_sid cfg
      in map (\<lambda>i. range_entry cfg D (of_nat i) (first_sid cfg + of_nat i)) [0..<unat D])"

definition u_str :: "'a :: len word \<Rightarrow> string" where
  "u_str w = to_string (unat w)"

definition DQ :: string where
  "DQ = [CHR 0x22]"

definition quoted :: "string \<Rightarrow> string" where
  "quoted s = DQ @ s @ DQ"

definition field :: "string \<Rightarrow> string \<Rightarrow> string" where
  "field name v = quoted name @ '':'' @ v"

definition range_json :: "hash_range \<Rightarrow> string" where
  "range_json r = ''['' @ quoted (u_str (hr_lo r)) @ '','' @ quoted (u_str (hr_hi r)) @ '','' @
     u_str (hr_shard r) @ '','' @ u_str (hr_port r) @ '']''"

fun ranges_json :: "hash_range list \<Rightarrow> string" where
  "ranges_json [] = []"
| "ranges_json [r] = range_json r"
| "ranges_json (r # rs) = range_json r @ '','' @ ranges_json rs"

definition cfg_json :: "node_cfg \<Rightarrow> string" where
  "cfg_json cfg =
     field ''epoch'' (u_str (nc_epoch cfg)) @ '','' @ field ''smp'' (u_str (nc_smp cfg)) @ '','' @
     field ''base_port'' (u_str (nc_base_port cfg)) @ '','' @ field ''port_offset'' (u_str (nc_port_offset cfg)) @ '','' @
     field ''hash'' (quoted (nc_hash cfg))"

definition compute_hash_ranges :: "node_cfg \<Rightarrow> string" where
  "compute_hash_ranges cfg =
     (if nc_smp cfg = 0 \<or> last_sid cfg < first_sid cfg then ''{}''
      else ''{'' @ cfg_json cfg @ '','' @ quoted ''ranges'' @ '':['' @ ranges_json (hash_ranges cfg) @ '']}'')"

definition compute_hash :: "node_cfg \<Rightarrow> u16 \<Rightarrow> string" where
  "compute_hash cfg sid =
     (if nc_smp cfg = 0 \<or> last_sid cfg < first_sid cfg then ''{}''
      else
        let d = last_sid cfg - first_sid cfg
        in if d = 0 then ''{}''
           else if ucast sid < first_sid cfg \<or> last_sid cfg \<le> ucast sid then ''{}''
           else
             let r = range_entry cfg d (ucast sid - first_sid cfg) (ucast sid)
             in ''{'' @ cfg_json cfg @ '','' @ field ''current_shard'' (u_str (hr_shard r)) @ '','' @
                quoted ''ranges'' @ '':['' @ ranges_json [r] @ '']}'')"

definition parse_u16 :: "string \<Rightarrow> string + u16" where
  "parse_u16 s =
     (if s = [] then Inl ''invalid shard id: empty''
      else if \<exists>c \<in> set s. \<not> is_digit c then Inl (''invalid shard id: '' @ s)
      else
        case from_chars_unsigned (2 ^ 32 - 1) s of
          Inr (out, []) \<Rightarrow> if 65535 < out then Inl (''invalid shard id: '' @ s) else Inr (of_nat out)
        | _ \<Rightarrow> Inl (''invalid shard id: '' @ s))"

definition get_smp_count :: "node_cfg \<Rightarrow> string" where
  "get_smp_count cfg = u_str (nc_smp cfg)"

definition port_for_shard :: "node_cfg \<Rightarrow> u32 \<Rightarrow> u16" where
  "port_for_shard cfg sid = ucast (ucast (nc_base_port cfg) + (sid - first_sid cfg) + 1)"

subsection \<open>The owner of a key\<close>

lemma mul_shift_bound:
  assumes "0 < D"
  shows "unat (mul_shift h D) = (unat h * unat D) div 2 ^ 64" "unat (mul_shift h D) < unat D"
proof -
  have d: "0 < unat D" using assms by (simp add: word_less_nat_alt)
  have "unat h < 2 ^ 64" using unsigned_less [of h, where 'a = nat] by simp
  then have "unat h * unat D < 2 ^ 64 * unat D" using d by simp
  then have q: "(unat h * unat D) div 2 ^ 64 < unat D" by (simp add: less_mult_imp_div_less mult.commute)
  also have "unat D < 2 ^ 32" using unsigned_less [of D, where 'a = nat] by simp
  finally show "unat (mul_shift h D) = (unat h * unat D) div 2 ^ 64"
    by (simp add: mul_shift_def unat_of_nat)
  then show "unat (mul_shift h D) < unat D" using q by simp
qed

lemma u32_offset:
  assumes "first < smp" "unat i < unat (smp - first)"
  shows "unat (first + i :: u32) = unat first + unat i"
proof -
  have "unat (smp - first) = unat smp - unat first" using assms(1) by (simp add: unat_sub less_imp_le)
  moreover have "unat smp < 2 ^ 32" using unsigned_less [of smp, where 'a = nat] by simp
  ultimately have "unat first + unat i < 2 ^ 32" using assms(2) by simp
  then show ?thesis using unat_add_lem [of first i] by simp
qed

lemma owner_shard_bounds:
  assumes "first < smp"
  shows "first \<le> owner_shard h smp first" "owner_shard h smp first < smp"
    "unat (owner_shard h smp first) = unat first + (unat h * unat (smp - first)) div 2 ^ 64"
proof -
  have "0 < smp - first" using assms by (metis word_neq_0_conv diff_eq_eq add_0 less_irrefl)
  note m = mul_shift_bound [OF this, of h]
  have s: "unat (smp - first) = unat smp - unat first" using assms by (simp add: unat_sub less_imp_le)
  have u: "unat (owner_shard h smp first) = unat first + unat (mul_shift h (smp - first))"
    using assms [folded not_le] u32_offset [OF assms m(2)] by (simp add: owner_shard_def)
  then show "unat (owner_shard h smp first) = unat first + (unat h * unat (smp - first)) div 2 ^ 64"
    using m(1) by simp
  show "first \<le> owner_shard h smp first" "owner_shard h smp first < smp"
    using u m(2) s assms by (simp_all add: word_le_nat_alt word_less_nat_alt)
qed

lemma shard_for_owner: "shard_for first smp key = owner_shard_key key smp first"
  by (simp add: shard_for_def owner_shard_key_def owner_shard_def Let_def)


subsection \<open>The advertised ranges\<close>

text \<open>The cut points of the hash space, on natural numbers.\<close>

definition cut_point :: "nat \<Rightarrow> nat \<Rightarrow> nat" where
  "cut_point D i = (2 ^ 64 * i) div D"

lemma cut_mono: "i \<le> j \<Longrightarrow> cut_point D i \<le> cut_point D j"
  by (simp add: cut_point_def div_le_mono)

lemma cut_step:
  assumes "0 < D" "D \<le> 2 ^ 64"
  shows "cut_point D i < cut_point D (Suc i)"
proof -
  have "cut_point D i + 1 = (2 ^ 64 * i + D) div D" using assms(1) by (simp add: cut_point_def)
  also have "\<dots> \<le> (2 ^ 64 * Suc i) div D" using assms(2) by (intro div_le_mono) simp
  finally show ?thesis by (simp add: cut_point_def)
qed

lemma cut_full: "0 < D \<Longrightarrow> cut_point D D = 2 ^ 64"
  by (simp add: cut_point_def)

lemma cut_exists:
  assumes "0 < D" "h < 2 ^ 64"
  shows "\<exists>i < D. cut_point D i \<le> h \<and> h < cut_point D (Suc i)"
proof -
  have e: "h < cut_point D D" using assms by (simp add: cut_full)
  define k where "k = (LEAST j. h < cut_point D j)"
  have k: "h < cut_point D k" unfolding k_def by (rule LeastI [of "\<lambda>j. h < cut_point D j", OF e])
  have "k \<le> D" unfolding k_def by (rule Least_le [of "\<lambda>j. h < cut_point D j", OF e])
  moreover have "k \<noteq> 0" using k by (intro notI) (simp add: cut_point_def)
  moreover have "\<not> h < cut_point D (k - 1)" using calculation(2) not_less_Least [of "k - 1" "\<lambda>j. h < cut_point D j"] by (simp add: k_def)
  ultimately show ?thesis using k by (intro exI [of _ "k - 1"]) simp
qed

lemma cut_unique:
  assumes "cut_point D i \<le> h" "h < cut_point D (Suc i)" "cut_point D j \<le> h" "h < cut_point D (Suc j)"
  shows "i = j"
proof (rule ccontr)
  assume "i \<noteq> j"
  then consider "Suc i \<le> j" | "Suc j \<le> i" by linarith
  then show False using assms cut_mono [of "Suc i" j D] cut_mono [of "Suc j" i D] by cases simp_all
qed

text \<open>Which multiple-and-shift owner a hash inside the \<open>i\<close>-th interval has.\<close>

lemma cut_owner:
  assumes "0 < D" "D \<le> 2 ^ 64" "cut_point D i \<le> h" "h < cut_point D (Suc i)"
  shows "(h * D) div 2 ^ 64 = (if h = cut_point D i \<and> \<not> D dvd 2 ^ 64 * i then i - 1 else i)"
proof -
  let ?S = "2 ^ 64 :: nat"
  have m: "cut_point D i * D + (?S * i) mod D = ?S * i" by (simp add: cut_point_def)
  have "Suc h \<le> cut_point D (Suc i)" using assms(4) by simp
  then have "Suc h * D \<le> cut_point D (Suc i) * D" by (rule mult_le_mono1)
  also have "\<dots> \<le> ?S * Suc i" unfolding cut_point_def by (rule div_times_less_eq_dividend)
  finally have up: "h * D + D \<le> ?S * i + ?S" by simp
  show ?thesis
  proof (cases "h = cut_point D i \<and> \<not> D dvd ?S * i")
    case True
    then have r: "0 < (?S * i) mod D" "(?S * i) mod D < D" using assms(1) by (simp_all add: mod_greater_zero_iff_not_dvd)
    then have "i \<noteq> 0" by (intro notI) simp
    then have "?S * i = ?S * (i - 1) + ?S" by (cases i) simp_all
    moreover have "h * D + (?S * i) mod D = ?S * i" using m True by simp
    ultimately have "h * D < ?S * (i - 1) + ?S \<and> ?S * (i - 1) \<le> h * D" using r assms(2) by linarith
    then have "(h * D) div ?S = i - 1" by (intro div_nat_eqI) (simp_all add: mult.commute)
    then show ?thesis using True by simp
  next
    case False
    have "?S * i \<le> h * D"
    proof (cases "h = cut_point D i")
      case True
      then show ?thesis using False m by (auto simp: dvd_eq_mod_eq_0)
    next
      case neq: False
      then have "Suc (cut_point D i) \<le> h" using assms(3) by simp
      then have "Suc (cut_point D i) * D \<le> h * D" by (rule mult_le_mono1)
      moreover have "(?S * i) mod D < D" using assms(1) by simp
      ultimately show ?thesis using m by simp
    qed
    moreover have "h * D < ?S * i + ?S" using up assms(1) by linarith
    ultimately have "(h * D) div ?S = i" by (intro div_nat_eqI) (simp_all add: mult.commute)
    then show ?thesis using False by auto
  qed
qed


lemma u32_pos_le: "unat (D :: u32) \<le> 2 ^ 64" "unat D < 2 ^ 32"
  using unsigned_less [of D, where 'a = nat] by simp_all

lemma range_entry_cuts:
  assumes "i < unat D"
  shows "unat (hr_lo (range_entry cfg D (of_nat i) sid)) = cut_point (unat D) i"
    "unat (hr_hi (range_entry cfg D (of_nat i) sid)) = cut_point (unat D) (Suc i) - 1"
proof -
  have D: "0 < unat D" "unat D \<le> 2 ^ 64" using assms u32_pos_le by simp_all
  have l: "i < 2 ^ 32" "Suc i < 2 ^ 32" using assms u32_pos_le(2) [of D] by linarith+
  have "unat (of_nat (Suc i) :: u32) = Suc i" using l(2) by (simp add: unat_of_nat del: of_nat_Suc)
  moreover have "(of_nat i + 1 :: u32) = of_nat (Suc i)" by simp
  ultimately have i: "unat (of_nat i :: u32) = i" "unat (of_nat i + 1 :: u32) = Suc i"
    using l(1) by (simp_all add: unat_of_nat del: of_nat_Suc)
  have "cut_point (unat D) i < cut_point (unat D) (Suc i)" by (rule cut_step [OF D])
  moreover have "cut_point (unat D) (Suc i) \<le> 2 ^ 64" using cut_mono [of "Suc i" "unat D" "unat D"] assms D by (simp add: cut_full)
  ultimately have b: "cut_point (unat D) i < 18446744073709551616" "cut_point (unat D) (Suc i) - 1 < 18446744073709551616"
    by simp_all
  have "hr_lo (range_entry cfg D (of_nat i) sid) = of_nat (cut_point (unat D) i)"
    "hr_hi (range_entry cfg D (of_nat i) sid) = of_nat (cut_point (unat D) (Suc i) - 1)"
    unfolding range_entry_def Let_def cut_point_def by (simp_all only: i hash_range.select_convs)
  then show "unat (hr_lo (range_entry cfg D (of_nat i) sid)) = cut_point (unat D) i"
    "unat (hr_hi (range_entry cfg D (of_nat i) sid)) = cut_point (unat D) (Suc i) - 1"
    by (simp_all only: unat_of_nat_u64 [OF b(1)] unat_of_nat_u64 [OF b(2)])
qed

definition in_range :: "u64 \<Rightarrow> hash_range \<Rightarrow> bool" where
  "in_range h r \<longleftrightarrow> hr_lo r \<le> h \<and> h \<le> hr_hi r"

lemma in_range_cuts:
  assumes "i < unat D"
  shows "in_range h (range_entry cfg D (of_nat i) sid) \<longleftrightarrow>
    cut_point (unat D) i \<le> unat h \<and> unat h < cut_point (unat D) (Suc i)"
proof -
  have "cut_point (unat D) i < cut_point (unat D) (Suc i)" using assms u32_pos_le by (intro cut_step) simp_all
  then show ?thesis using range_entry_cuts [OF assms, of cfg sid]
    by (auto simp: in_range_def word_le_nat_alt)
qed

lemma hash_ranges_nth:
  assumes "D = last_sid cfg - first_sid cfg" "i < unat D"
  shows "i < length (hash_ranges cfg)" "hash_ranges cfg ! i = range_entry cfg D (of_nat i) (first_sid cfg + of_nat i)"
  using assms by (simp_all add: hash_ranges_def Let_def)

lemma hash_ranges_length: "length (hash_ranges cfg) = unat (last_sid cfg - first_sid cfg)"
  by (simp add: hash_ranges_def Let_def)

subsection \<open>Properties\<close>

text \<open>
  C34. A key always has an owner among the data shards, and the two implementations of the
  mapping, \<open>shard_for\<close> and \<open>owner_shard\<close>, agree on it.
\<close>

theorem shard_for_data_shard:
  assumes "first < smp"
  shows "first \<le> shard_for first smp key \<and> shard_for first smp key < smp
    \<and> shard_for first smp key = owner_shard_key key smp first"
  using owner_shard_bounds [OF assms] by (simp add: shard_for_owner owner_shard_key_def)

theorem shard_for_data_shard_witness:
  "(1 :: u32) \<le> shard_for 1 4 ''k'' \<and> shard_for 1 4 ''k'' < 4 \<and> shard_for 1 4 ''k'' = owner_shard_key ''k'' 4 1"
  by (rule shard_for_data_shard) simp

text \<open>
  C35. The advertised ranges partition the hash space: every hash lies in exactly one of them.
\<close>

theorem hash_ranges_partition:
  assumes "first_sid cfg < last_sid cfg"
  shows "\<exists>!i. i < length (hash_ranges cfg) \<and> in_range h (hash_ranges cfg ! i)"
proof -
  define D where "D = last_sid cfg - first_sid cfg"
  have "D \<noteq> 0" using assms by (auto simp: D_def)
  then have d: "0 < unat D" by (simp add: unat_gt_0)
  have iff: "in_range h (hash_ranges cfg ! i) \<longleftrightarrow> cut_point (unat D) i \<le> unat h \<and> unat h < cut_point (unat D) (Suc i)"
    if "i < unat D" for i
    using that hash_ranges_nth(2) [OF D_def that] in_range_cuts [OF that] by simp
  have "unat h < 2 ^ 64" using unsigned_less [of h, where 'a = nat] by simp
  from cut_exists [OF d this] obtain i where "i < unat D" "cut_point (unat D) i \<le> unat h" "unat h < cut_point (unat D) (Suc i)" by blast
  then show ?thesis
    using iff cut_unique by (intro ex1I [of _ i]) (auto simp: hash_ranges_length D_def [symmetric])
qed

theorem hash_ranges_partition_witness:
  "\<exists>!i. i < length (hash_ranges (default_node_cfg\<lparr>nc_smp := 3\<rparr>)) \<and> in_range 42 (hash_ranges (default_node_cfg\<lparr>nc_smp := 3\<rparr>) ! i)"
  by (rule hash_ranges_partition) (simp add: first_sid_def last_sid_def default_node_cfg_def)

text \<open>
  C36. A client that follows the advertised map reaches the owner of a key for every hash but
  the first one of a range: there the node itself places the key on the shard before, unless
  the number of data shards divides the range's start evenly, as a power of two does.
\<close>

theorem advertised_owner:
  assumes "first_sid cfg < nc_smp cfg" "i < length (hash_ranges cfg)" "in_range h (hash_ranges cfg ! i)"
  shows "let r = hash_ranges cfg ! i; D = unat (nc_smp cfg - first_sid cfg);
             owner = owner_shard h (nc_smp cfg) (first_sid cfg)
    in if h = hr_lo r \<and> \<not> D dvd 2 ^ 64 * i then unat owner + 1 = unat (hr_shard r) else owner = hr_shard r"
proof -
  define D where "D = nc_smp cfg - first_sid cfg"
  have ls: "last_sid cfg = nc_smp cfg" using assms(1) by (simp add: last_sid_def)
  have Dd: "D = last_sid cfg - first_sid cfg" by (simp add: D_def ls)
  have iD: "i < unat D" using assms(2) by (simp add: hash_ranges_length ls D_def)
  define r where "r = hash_ranges cfg ! i"
  have re: "r = range_entry cfg D (of_nat i) (first_sid cfg + of_nat i)" unfolding r_def by (rule hash_ranges_nth(2) [OF Dd iD])
  have c: "cut_point (unat D) i \<le> unat h" "unat h < cut_point (unat D) (Suc i)"
    using assms(3) in_range_cuts [OF iD] re by (simp_all add: r_def [symmetric])
  have D: "0 < unat D" "unat D \<le> 2 ^ 64" using iD u32_pos_le by simp_all
  have lo: "h = hr_lo r \<longleftrightarrow> unat h = cut_point (unat D) i"
    using range_entry_cuts(1) [OF iD, of cfg "first_sid cfg + of_nat i"] re by (simp add: word_unat_eq_iff)
  have i: "unat (of_nat i :: u32) = i" using iD u32_pos_le(2) [of D] by (simp add: unat_of_nat)
  have "hr_shard r = first_sid cfg + of_nat i" by (simp add: re range_entry_def Let_def)
  then have sh: "unat (hr_shard r) = unat (first_sid cfg) + i"
    using u32_offset [OF assms(1), of "of_nat i"] iD i by (simp add: D_def)
  have ow: "unat (owner_shard h (nc_smp cfg) (first_sid cfg)) = unat (first_sid cfg) + (unat h * unat D) div 2 ^ 64"
    using owner_shard_bounds(3) [OF assms(1)] by (simp add: D_def)
  have "i \<noteq> 0" if "\<not> unat D dvd 2 ^ 64 * i" using that by (intro notI) simp
  then show ?thesis
    using cut_owner [OF D c] ow sh lo by (auto simp: Let_def r_def [symmetric] D_def [symmetric] word_unat_eq_iff simp del: power_numeral)
qed


lemma three_shards:
  "hash_ranges (default_node_cfg\<lparr>nc_smp := 3\<rparr>) =
    [\<lparr>hr_lo = 0, hr_hi = 6148914691236517204, hr_shard = 0, hr_port = 60110\<rparr>,
     \<lparr>hr_lo = 6148914691236517205, hr_hi = 12297829382473034409, hr_shard = 1, hr_port = 60111\<rparr>,
     \<lparr>hr_lo = 12297829382473034410, hr_hi = 18446744073709551615, hr_shard = 2, hr_port = 60112\<rparr>]"
  by (simp add: hash_ranges_def first_sid_def last_sid_def default_node_cfg_def range_entry_def upt_rec)

theorem advertised_owner_witness:
  "unat (owner_shard 6148914691236517205 3 0) + 1 = 1 \<and> owner_shard 6148914691236517206 3 0 = 1"
proof -
  have "first_sid (default_node_cfg\<lparr>nc_smp := 3\<rparr>) = 0" by (simp add: first_sid_def default_node_cfg_def)
  then show ?thesis
    using advertised_owner [of "default_node_cfg\<lparr>nc_smp := 3\<rparr>" 1 6148914691236517205]
      advertised_owner [of "default_node_cfg\<lparr>nc_smp := 3\<rparr>" 1 6148914691236517206]
    by (simp add: three_shards in_range_def)
qed

text \<open>
  \<open>NODE_INFO\<close> with a shard number: \<open>parse_u16\<close> accepts exactly the decimal numbers up to
  65535 and rejects everything else with an error that quotes the argument.
\<close>

theorem parse_u16_exact:
  "parse_u16 s =
     (if s \<noteq> [] \<and> list_all is_digit s \<and> digits_value 0 s \<le> 65535 then Inr (of_nat (digits_value 0 s))
      else Inl (''invalid shard id: '' @ (if s = [] then ''empty'' else s)))"
proof (cases "s = [] \<or> \<not> list_all is_digit s")
  case True
  then show ?thesis by (auto simp: parse_u16_def list_all_iff)
next
  case False
  then have d: "takeWhile is_digit s = s" "dropWhile is_digit s = []" by (simp_all add: list_all_iff)
  show ?thesis
    using False by (auto simp: parse_u16_def list_all_iff from_chars_unsigned_def Let_def d)
qed

text \<open>
  The port that \<open>port_for_shard\<close> computes is the advertised one only with a port offset;
  without one it is the next port.
\<close>

lemma ucast_add_32_16: "(ucast (a + b :: u32) :: u16) = ucast a + ucast b"
proof (transfer, goal_cases)
  case (1 a b)
  have "take_bit 16 (take_bit 32 a + take_bit 32 b) = take_bit 16 (take_bit 16 (take_bit 32 a) + take_bit 16 (take_bit 32 b))"
    by (simp only: take_bit_add)
  then show ?case by (simp add: take_bit_add)
qed

lemma ucast_16_32_16: "(ucast (ucast (c :: u16) :: u32) :: u16) = c"
  by transfer simp

lemma port_for_shard_off_by_one:
  assumes "nc_port_offset cfg = 0"
  shows "port_for_shard cfg sid = ucast (hr_port (range_entry cfg D i sid)) + 1"
  using assms by (simp add: port_for_shard_def range_entry_def first_sid_def Let_def ucast_add_32_16 ucast_16_32_16)

end
