(* ===== verification/Router_Metrics.thy ===== *)
theory Router_Metrics
  imports Prelude
begin

unbundle bit_operations_syntax

text \<open>
  The request counters and the latency histogram of \<open>include/router_metrics.hh\<close>. The
  histogram has one bucket per power of two of the latency in microseconds; a quantile is
  the upper end of the bucket that holds it. \<open>long double\<close> is the rational it denotes, with the
  rounding of its multiplication an argument.
\<close>

record request_counters =
  rq_get_total :: u64
  rq_get_forwarded :: u64
  rq_set_total :: u64
  rq_set_forwarded :: u64
  rq_cache_miss :: u64

definition new_request_counters :: request_counters where
  "new_request_counters = \<lparr>rq_get_total = 0, rq_get_forwarded = 0, rq_set_total = 0, rq_set_forwarded = 0,
     rq_cache_miss = 0\<rparr>"

definition kBuckets :: nat where
  "kBuckets = 64"

record latency_histogram =
  lh_buckets :: "u64 list"
  lh_count :: u64

definition new_histogram :: latency_histogram where
  "new_histogram = \<lparr>lh_buckets = replicate kBuckets 0, lh_count = 0\<rparr>"

text \<open>\<open>__builtin_clzll\<close>: the number of leading zero bits.\<close>

definition clzll :: "u64 \<Rightarrow> nat" where
  "clzll us = length (takeWhile (\<lambda>i. \<not> bit us i) (rev [0..<64]))"

definition bucket_index :: "u64 \<Rightarrow> nat" where
  "bucket_index us =
     (if us \<noteq> 0 then (let idx = 63 - clzll us in if kBuckets \<le> idx then kBuckets - 1 else idx) else 0)"

definition add_us :: "u64 \<Rightarrow> latency_histogram \<Rightarrow> latency_histogram" where
  "add_us us h =
     (let idx = bucket_index us
      in h\<lparr>lh_count := lh_count h + 1, lh_buckets := (lh_buckets h)[idx := lh_buckets h ! idx + 1]\<rparr>)"

definition merge_from :: "latency_histogram \<Rightarrow> latency_histogram \<Rightarrow> latency_histogram" where
  "merge_from h other =
     h\<lparr>lh_count := lh_count h + lh_count other,
       lh_buckets := map2 (+) (lh_buckets h) (lh_buckets other)\<rparr>"

fun quantile_scan :: "nat \<Rightarrow> u64 \<Rightarrow> u64 \<Rightarrow> u64 list \<Rightarrow> u64" where
  "quantile_scan i seen rank [] = - 1"
| "quantile_scan i seen rank (b # bs) =
     (if rank \<le> seen + b then (if 63 \<le> i then - 1 else push_bit (i + 1) 1 - 1)
      else quantile_scan (Suc i) (seen + b) rank bs)"

definition quantile_rank :: "(double \<Rightarrow> double) \<Rightarrow> double \<Rightarrow> u64 \<Rightarrow> u64" where
  "quantile_rank rndl q count =
     (let q1 = (if q < 0 then 0 else q); q2 = (if 1 < q1 then 1 else q1);
          rank = of_int \<lceil>rndl (q2 * of_nat (unat count))\<rceil>
      in if rank = 0 then 1 else rank)"

definition quantile_us :: "(double \<Rightarrow> double) \<Rightarrow> double \<Rightarrow> latency_histogram \<Rightarrow> u64" where
  "quantile_us rndl q h =
     (if lh_count h = 0 then 0
      else quantile_scan 0 0 (quantile_rank rndl q (lh_count h)) (lh_buckets h))"

record request_latency_counters =
  rl_total :: latency_histogram

definition new_latency_counters :: request_latency_counters where
  "new_latency_counters = \<lparr>rl_total = new_histogram\<rparr>"

definition merge_latency :: "request_latency_counters \<Rightarrow> request_latency_counters \<Rightarrow> request_latency_counters" where
  "merge_latency l other = l\<lparr>rl_total := merge_from (rl_total l) (rl_total other)\<rparr>"

subsection \<open>Buckets are powers of two\<close>

lemma top_bit:
  fixes us :: u64
  assumes "us \<noteq> 0"
  shows "clzll us < 64" "bit us (63 - clzll us)" "\<And>j. 63 - clzll us < j \<Longrightarrow> \<not> bit us j"
proof -
  let ?P = "\<lambda>i. \<not> bit us i" and ?L = "rev [0..<64]"
  have "\<exists>k. bit us k" using assms by (auto simp: bit_eq_iff)
  then obtain k where k: "bit us k" by blast
  then have "k < 64" using bit_imp_le_length [OF k] by simp
  then have "k \<in> set ?L" by simp
  then have ne: "takeWhile ?P ?L \<noteq> ?L" using k by (metis set_takeWhileD)
  have le: "length (takeWhile ?P ?L) \<le> 64" using length_takeWhile_le [of ?P ?L] by simp
  have "length (takeWhile ?P ?L) \<noteq> 64"
  proof
    assume "length (takeWhile ?P ?L) = 64"
    then have "takeWhile ?P ?L = take 64 ?L" using takeWhile_eq_take [of ?P ?L] by simp
    then show False using ne by simp
  qed
  with le show lt: "clzll us < 64" by (simp add: clzll_def)
  have nth: "?L ! n = 63 - n" if "n < 64" for n using that by (simp add: rev_nth)
  show "bit us (63 - clzll us)"
    using nth_length_takeWhile [of ?P ?L] lt nth [OF lt] by (simp add: clzll_def)
  show "\<not> bit us j" if "63 - clzll us < j" for j
  proof
    assume b: "bit us j"
    have j: "j < 64" using bit_imp_le_length [OF b] by simp
    then have l: "63 - j < length (takeWhile ?P ?L)" using that by (simp add: clzll_def)
    then have "takeWhile ?P ?L ! (63 - j) = ?L ! (63 - j)" by (rule takeWhile_nth)
    moreover have "?L ! (63 - j) = j" using j nth [of "63 - j"] by simp
    ultimately have "j \<in> set (takeWhile ?P ?L)" using nth_mem [OF l] by simp
    then show False using b by (auto dest: set_takeWhileD)
  qed
qed

lemma bit_range:
  fixes us :: u64
  assumes "bit us m" "\<And>j. m < j \<Longrightarrow> \<not> bit us j" "m < 64"
  shows "2 ^ m \<le> unat us" "unat us < 2 ^ Suc m"
proof -
  have "take_bit (Suc m) us = us" using assms(2) by (intro bit_word_eqI) (simp add: bit_take_bit_iff, metis not_less_eq)
  then have "take_bit (Suc m) (unat us) = unat us" by (metis unsigned_take_bit_eq)
  then show "unat us < 2 ^ Suc m" by (metis take_bit_nat_less_exp)
  show "2 ^ m \<le> unat us"
  proof (rule ccontr)
    assume "\<not> ?thesis"
    then have "take_bit m (unat us) = unat us" by (simp add: take_bit_nat_eq_self)
    then have "take_bit m us = us" by (metis unsigned_take_bit_eq word_unat_eq_iff)
    then have "\<not> bit us m" by (metis bit_take_bit_iff less_irrefl)
    then show False using assms(1) by simp
  qed
qed

lemma bucket_index_range:
  "bucket_index us < 64" "us \<noteq> 0 \<Longrightarrow> 2 ^ bucket_index us \<le> unat us" "unat us < 2 ^ Suc (bucket_index us)"
proof -
  show "bucket_index us < 64" by (auto simp: bucket_index_def kBuckets_def Let_def)
  have i: "bucket_index us = 63 - clzll us" if "us \<noteq> 0"
    using that by (simp add: bucket_index_def kBuckets_def Let_def)
  show "2 ^ bucket_index us \<le> unat us" if "us \<noteq> 0"
    using bit_range(1) [OF top_bit(2,3) [OF that]] i [OF that] by simp
  show "unat us < 2 ^ Suc (bucket_index us)"
  proof (cases "us = 0")
    case True
    then show ?thesis by simp
  next
    case False
    then show ?thesis using bit_range(2) [OF top_bit(2,3) [OF False]] i by simp
  qed
qed

lemma bucket_index_le: "bucket_index us \<le> i \<longleftrightarrow> unat us < 2 ^ Suc i"
proof
  assume "bucket_index us \<le> i"
  then have "(2 :: nat) ^ Suc (bucket_index us) \<le> 2 ^ Suc i" by (intro power_increasing) simp_all
  then show "unat us < 2 ^ Suc i" using bucket_index_range(3) [of us] by linarith
next
  assume l: "unat us < 2 ^ Suc i"
  show "bucket_index us \<le> i"
  proof (cases "us = 0")
    case True
    then show ?thesis by (simp add: bucket_index_def)
  next
    case False
    have "(2 :: nat) ^ bucket_index us < 2 ^ Suc i" using bucket_index_range(2) [OF False] l by linarith
    then show ?thesis by (simp add: power_strict_increasing_iff less_Suc_eq_le del: power_Suc)
  qed
qed


subsection \<open>A histogram of recorded latencies\<close>

definition recorded :: "u64 list \<Rightarrow> latency_histogram" where
  "recorded xs = fold add_us xs new_histogram"

definition in_bucket :: "nat \<Rightarrow> u64 list \<Rightarrow> nat" where
  "in_bucket i xs = length (filter (\<lambda>x. bucket_index x = i) xs)"

definition below_bucket :: "nat \<Rightarrow> u64 list \<Rightarrow> nat" where
  "below_bucket i xs = length (filter (\<lambda>x. bucket_index x < i) xs)"

lemma below_bucket_Suc: "below_bucket (Suc i) xs = below_bucket i xs + in_bucket i xs"
  by (induction xs) (auto simp: below_bucket_def in_bucket_def)

lemma below_bucket_all: "below_bucket 64 xs = length xs"
  using bucket_index_range(1) by (simp add: below_bucket_def)

lemma recorded_snoc: "recorded (xs @ [x]) = add_us x (recorded xs)"
  by (simp add: recorded_def)

lemma recorded_repr:
  "length (lh_buckets (recorded xs)) = 64" "lh_count (recorded xs) = of_nat (length xs)"
  "i < 64 \<Longrightarrow> lh_buckets (recorded xs) ! i = of_nat (in_bucket i xs)"
proof (induction xs arbitrary: i rule: rev_induct)
  case Nil
  {
    case 1
    show ?case by (simp add: recorded_def new_histogram_def kBuckets_def)
  next
    case 2
    show ?case by (simp add: recorded_def new_histogram_def)
  next
    case 3
    then show ?case by (simp add: recorded_def new_histogram_def kBuckets_def in_bucket_def)
  }
next
  case (snoc x xs)
  {
    case 1
    show ?case using snoc(1) by (simp add: recorded_snoc add_us_def Let_def)
  next
    case 2
    show ?case using snoc(2) by (simp add: recorded_snoc add_us_def Let_def)
  next
    case 3
    then show ?case using snoc(1) snoc(3) [OF 3] bucket_index_range(1) [of x]
      by (cases "bucket_index x = i") (simp_all add: recorded_snoc add_us_def Let_def in_bucket_def)
  }
qed

lemma histogram_eqI:
  fixes g h :: latency_histogram
  assumes "length (lh_buckets g) = 64" "length (lh_buckets h) = 64" "lh_count g = lh_count h"
    "\<And>i. i < 64 \<Longrightarrow> lh_buckets g ! i = lh_buckets h ! i"
  shows "g = h"
  using assms nth_equalityI [of "lh_buckets g" "lh_buckets h"] by (cases g, cases h) simp

subsection \<open>Order statistics\<close>

lemma sorted_filter_less:
  assumes "sorted ys"
  shows "filter (\<lambda>y. y < c) ys = takeWhile (\<lambda>y. y < c) ys"
  using assms
proof (induction ys)
  case (Cons y ys)
  show ?case
  proof (cases "y < c")
    case False
    then have "filter (\<lambda>y. y < c) ys = []" using Cons.prems by (auto simp: filter_empty_conv)
    then show ?thesis using False by simp
  qed (use Cons in simp)
qed simp

lemma sorted_rank:
  fixes ys :: "nat list"
  assumes "sorted ys" "0 < k" "k \<le> length ys"
  shows "ys ! (k - 1) < c \<longleftrightarrow> k \<le> length (filter (\<lambda>y. y < c) ys)"
proof -
  let ?n = "length (filter (\<lambda>y. y < c) ys)"
  note tw = sorted_filter_less [OF assms(1), of c]
  show ?thesis
  proof
    assume "k \<le> ?n"
    then have "k - 1 < length (takeWhile (\<lambda>y. y < c) ys)" using assms(2) tw by simp
    from nth_mem [OF this] takeWhile_nth [OF this] show "ys ! (k - 1) < c" by (auto dest: set_takeWhileD)
  next
    assume l: "ys ! (k - 1) < c"
    show "k \<le> ?n"
    proof (rule ccontr)
      assume "\<not> ?thesis"
      then have n: "?n < length ys" "?n \<le> k - 1" using assms(3) by simp_all
      have "ys ! ?n \<le> ys ! (k - 1)" using assms n(2) by (intro sorted_nth_mono) simp_all
      moreover have "\<not> ys ! ?n < c" using nth_length_takeWhile [of "\<lambda>y. y < c" ys] n(1) tw by simp
      ultimately show False using l by simp
    qed
  qed
qed

definition upper_end :: "nat \<Rightarrow> u64" where
  "upper_end i = (if 63 \<le> i then - 1 else push_bit (i + 1) 1 - 1)"

lemma upper_end_nat:
  assumes "i < 64"
  shows "unat (upper_end i) = 2 ^ Suc i - 1"
proof (cases "i = 63")
  case True
  then show ?thesis by (simp add: upper_end_def unsigned_minus_1_eq_mask mask_eq_exp_minus_1)
next
  case False
  then have l: "Suc i < 64" using assms by simp
  then have "(2 :: nat) ^ Suc i < 2 ^ 64" by (intro power_strict_increasing) simp_all
  then have "unat (of_nat (2 ^ Suc i) :: u64) = 2 ^ Suc i" by (intro unat_of_nat_u64) simp
  then have "unat (2 ^ Suc i :: u64) = 2 ^ Suc i" by (simp only: of_nat_power of_nat_numeral)
  moreover have "(1 :: u64) \<le> 2 ^ Suc i" using calculation by (simp add: word_le_nat_alt del: power_Suc)
  ultimately show ?thesis using False assms by (simp add: upper_end_def push_bit_eq_mult unat_sub del: power_Suc)
qed


lemma quantile_scan_bucket:
  assumes "bs = map (\<lambda>i. of_nat (in_bucket i xs)) [i..<64]" "seen = of_nat (below_bucket i xs)" "length xs < 2 ^ 64"
    "below_bucket i xs < unat rank" "unat rank \<le> length xs" "i \<le> 64"
  shows "\<exists>j < 64. quantile_scan i seen rank bs = upper_end j \<and> below_bucket j xs < unat rank
    \<and> unat rank \<le> below_bucket (Suc j) xs"
  using assms
proof (induction i seen rank bs rule: quantile_scan.induct)
  case (1 i seen rank)
  then have "i = 64" by simp
  then show ?case using "1.prems" by (simp add: below_bucket_all)
next
  case (2 i seen rank b bs)
  have i: "i < 64" using "2.prems"(1) by (cases "i < 64") simp_all
  then have "[i..<64] = i # [Suc i..<64]" by (rule upt_conv_Cons)
  then have b: "b = of_nat (in_bucket i xs)" "bs = map (\<lambda>i. of_nat (in_bucket i xs)) [Suc i..<64]"
    using "2.prems"(1) by simp_all
  have s: "seen + b = of_nat (below_bucket (Suc i) xs)" using "2.prems"(2) b(1) by (simp add: below_bucket_Suc)
  have "below_bucket (Suc i) xs \<le> length xs" by (simp add: below_bucket_def)
  then have u: "unat (of_nat (below_bucket (Suc i) xs) :: u64) = below_bucket (Suc i) xs"
    using "2.prems"(3) by (intro unat_of_nat_u64) simp
  show ?case
  proof (cases "rank \<le> seen + b")
    case True
    then have "unat rank \<le> below_bucket (Suc i) xs" using s u by (simp add: word_le_nat_alt)
    then show ?thesis using True i "2.prems"(4) by (intro exI [of _ i]) (simp add: upper_end_def)
  next
    case False
    then have "below_bucket (Suc i) xs < unat rank" using s u by (simp add: word_le_nat_alt)
    then show ?thesis using "2.IH" [OF False b(2) s "2.prems"(3)] "2.prems"(5) i False by simp
  qed
qed

lemma below_bucket_sort:
  assumes "0 < i"
  shows "below_bucket i xs = length (filter (\<lambda>y. y < 2 ^ i) (sort (map unat xs)))"
proof -
  obtain j where j: "i = Suc j" using assms by (cases i) auto
  have "below_bucket i xs = length (filter (\<lambda>y. y < 2 ^ i) (map unat xs))"
    using bucket_index_le [of _ j] by (simp add: below_bucket_def j less_Suc_eq_le filter_map o_def del: power_Suc)
  also have "\<dots> = length (filter (\<lambda>y. y < 2 ^ i) (sort (map unat xs)))"
    by (simp only: filter_sort length_sort)
  finally show ?thesis .
qed

lemma quantile_rank_bounds:
  assumes "\<And>x y. x \<le> y \<Longrightarrow> rndl x \<le> rndl y" "\<And>n. n < 2 ^ 64 \<Longrightarrow> rndl (of_nat n) = of_nat n" "count \<noteq> 0"
  shows "0 < unat (quantile_rank rndl q count)" "unat (quantile_rank rndl q count) \<le> unat count"
proof -
  define q2 where "q2 = (if 1 < (if q < 0 then 0 else q) then 1 else if q < 0 then 0 else q)"
  have q: "0 \<le> q2" "q2 \<le> 1" by (auto simp: q2_def)
  define n where "n = unat count"
  let ?p = "rndl (q2 * of_nat n)"
  have n: "n < 2 ^ 64" using unat_u64_less [of count] by (simp add: n_def)
  have "q2 * of_nat n \<le> of_nat n" using q by (intro mult_left_le_one_le) simp_all
  from assms(1) [OF this] have up: "?p \<le> of_nat n" by (simp only: assms(2) [OF n])
  have "rndl (of_nat 0) \<le> ?p" using q by (intro assms(1)) simp
  moreover have "rndl (of_nat 0) = of_nat 0" by (rule assms(2)) simp
  ultimately have lo: "0 \<le> ?p" by simp
  define k where "k = nat \<lceil>?p\<rceil>"
  have "0 \<le> \<lceil>?p\<rceil>" "\<lceil>?p\<rceil> \<le> int n" using lo up by (simp_all add: ceiling_le_iff)
  then have k: "\<lceil>?p\<rceil> = int k" "k \<le> n" by (simp_all add: k_def)
  have "k < 18446744073709551616" using k(2) n by simp
  then have u: "unat (of_nat k :: u64) = k" by (rule unat_of_nat_u64)
  have r: "quantile_rank rndl q count = (if of_nat k = (0 :: u64) then 1 else of_nat k)"
    unfolding quantile_rank_def Let_def q2_def [symmetric] n_def [symmetric] k(1) by simp
  have c0: "0 < n" using assms(3) by (simp add: unat_gt_0 n_def)
  show "0 < unat (quantile_rank rndl q count)" unfolding r by (auto simp: unat_gt_0)
  show "unat (quantile_rank rndl q count) \<le> unat count"
    unfolding r n_def [symmetric] using u k(2) c0 by (cases "of_nat k = (0 :: u64)") simp_all
qed

subsection \<open>Properties\<close>

text \<open>
  A quantile read from the histogram brackets the true one: for fewer than 2^64 recorded
  latencies it is at least the latency of the requested rank and less than twice as large
  plus two.
\<close>

theorem quantile_within_factor_two:
  assumes "\<And>x y. x \<le> y \<Longrightarrow> rndl x \<le> rndl y" "\<And>n. n < 2 ^ 64 \<Longrightarrow> rndl (of_nat n) = of_nat n"
    "xs \<noteq> []" "length xs < 2 ^ 64"
  shows "let rank = unat (quantile_rank rndl q (of_nat (length xs)));
             x = sort (map unat xs) ! (rank - 1)
    in 0 < rank \<and> rank \<le> length xs \<and> x \<le> unat (quantile_us rndl q (recorded xs))
      \<and> unat (quantile_us rndl q (recorded xs)) \<le> 2 * x + 1"
proof -
  define count :: u64 where "count = of_nat (length xs)"
  define rank where "rank = quantile_rank rndl q count"
  have n: "unat count = length xs" using assms(4) unfolding count_def by (intro unat_of_nat_u64) simp
  then have "count \<noteq> 0" using assms(3) by (auto simp: unat_eq_0 [symmetric])
  note b = quantile_rank_bounds [OF assms(1,2) this, of q, folded rank_def, unfolded n]
  have l: "lh_buckets (recorded xs) = map (\<lambda>i. of_nat (in_bucket i xs)) [0..<64]"
    using recorded_repr(1) [of xs] recorded_repr(3) [of _ xs] by (intro nth_equalityI) simp_all
  have z: "below_bucket 0 xs = 0" by (simp add: below_bucket_def)
  have "quantile_us rndl q (recorded xs) = quantile_scan 0 0 rank (lh_buckets (recorded xs))"
    using \<open>count \<noteq> 0\<close> recorded_repr(2) [of xs] by (simp add: quantile_us_def rank_def count_def)
  then obtain j where j: "j < 64" "quantile_us rndl q (recorded xs) = upper_end j" "below_bucket j xs < unat rank"
    "unat rank \<le> below_bucket (Suc j) xs"
    using quantile_scan_bucket [OF l _ assms(4) _ b(2), of 0] b(1) by (auto simp: z)
  let ?ys = "sort (map unat xs)"
  define x where "x = ?ys ! (unat rank - 1)"
  note r = sorted_rank [of ?ys "unat rank", OF _ b(1), folded x_def]
  have up: "x < 2 ^ Suc j" using r [of "2 ^ Suc j"] b(2) j(4) below_bucket_sort [of "Suc j" xs] by simp
  have "j = 0 \<or> 2 ^ j \<le> x"
    using r [of "2 ^ j"] b(2) j(3) below_bucket_sort [of j xs] by (cases "j = 0") (simp_all add: not_less)
  then have "2 ^ Suc j - 1 \<le> 2 * x + 1" by (elim disjE) simp_all
  then show ?thesis
    using b up j(2) upper_end_nat [OF j(1)] by (simp add: Let_def x_def rank_def count_def)
qed

theorem quantile_within_factor_two_witness:
  "\<exists>rank x. 0 < rank \<and> rank \<le> 3 \<and> x = sort (map unat [5, 900, 7 :: u64]) ! (rank - 1)
    \<and> x \<le> unat (quantile_us id (99 / 100) (recorded [5, 900, 7]))
    \<and> unat (quantile_us id (99 / 100) (recorded [5, 900, 7])) \<le> 2 * x + 1"
proof -
  have h: "\<And>x y :: double. x \<le> y \<Longrightarrow> id x \<le> id y" "\<And>n. n < 2 ^ 64 \<Longrightarrow> id (of_nat n :: double) = of_nat n"
    "[5, 900, 7 :: u64] \<noteq> []" "length [5, 900, 7 :: u64] < 2 ^ 64" by simp_all
  have l: "length [5, 900, 7 :: u64] = 3" by simp
  show ?thesis
    using quantile_within_factor_two [OF h, of "99 / 100"] unfolding Let_def l by blast
qed

text \<open>
  Merging the histograms of two shards gives exactly the histogram of all their requests.
\<close>

theorem merge_from_recorded: "merge_from (recorded xs) (recorded ys) = recorded (xs @ ys)"
  using recorded_repr(1,2) [of xs] recorded_repr(1,2) [of ys] recorded_repr(1,2) [of "xs @ ys"]
  by (intro histogram_eqI) (simp_all add: merge_from_def in_bucket_def recorded_repr(3))

end
