(* ===== verification/Service.thy ===== *)
theory Service
  imports Cache Hash Router_Metrics
begin

text \<open>
  The per-shard service of \<open>include/router.hh\<close> and \<open>src/router.cc\<close>, and the cluster of the
  services of all shards (\<open>local_service\<close>). What the process finds in its environment is the
  record \<open>runtime\<close>: the rounding of \<open>double\<close>, the size of an entry, the memory statistics at start-up,
  \<open>smp::count\<close>, \<open>g_first_data_shard\<close> and \<open>g_node_cfg\<close>. The macros of \<open>include/hotpath_metrics.hh\<close> are
  empty in the default build: latencies are not recorded by the handlers.
\<close>

record mem_stats =
  ms_allocated :: u64
  ms_mallocs :: u64
  ms_free :: u64
  ms_total :: u64
  ms_failed :: u64

record runtime =
  rt_rnd :: "double \<Rightarrow> double"
  rt_sz :: nat
  rt_total_mem :: "u32 \<Rightarrow> nat"
  rt_free_mem :: "u32 \<Rightarrow> nat"
  rt_smp :: u32
  rt_first :: u32
  rt_node :: node_cfg

text \<open>What a request reads from the clock (the two calls of \<open>now_s\<close> of a SET) and the allocator.\<close>

record moment =
  mo_now :: u64
  mo_now2 :: u64
  mo_mem :: "u32 \<Rightarrow> mem_stats"

record service =
  sv_store :: store_state
  sv_started :: bool
  sv_req :: request_counters
  sv_latency :: request_latency_counters

type_synonym cluster = "u32 \<Rightarrow> service"

definition new_service :: "EvictionConfig \<Rightarrow> service" where
  "new_service ev = \<lparr>sv_store = new_store ev, sv_started = False, sv_req = new_request_counters,
     sv_latency = new_latency_counters\<rparr>"

definition service_start :: "runtime \<Rightarrow> u32 \<Rightarrow> db_config \<Rightarrow> service \<Rightarrow> service" where
  "service_start rt here cfg sv =
     (if sv_started sv then sv
      else sv\<lparr>sv_started := True,
              sv_store := store_start (rt_rnd rt) (rt_sz rt) (rt_total_mem rt here) (rt_free_mem rt here) cfg (sv_store sv)\<rparr>)"

definition ensure_started :: "runtime \<Rightarrow> u32 \<Rightarrow> service \<Rightarrow> service" where
  "ensure_started rt here sv = (if sv_started sv then sv else service_start rt here default_db_config sv)"

definition service_stop :: "service \<Rightarrow> service" where
  "service_stop sv = (if \<not> sv_started sv then sv else sv\<lparr>sv_started := False, sv_store := store_stop (sv_store sv)\<rparr>)"

definition local_set :: "runtime \<Rightarrow> u32 \<Rightarrow> moment \<Rightarrow> sstring \<Rightarrow> sstring \<Rightarrow> service \<Rightarrow> bool \<times> service" where
  "local_set rt here mo key value sv =
     (let sv1 = ensure_started rt here sv
      in case store_set (rt_rnd rt) (mo_now mo) key value (sv_store sv1) of
           (ok, st) \<Rightarrow> (ok, sv1\<lparr>sv_store := st\<rparr>))"

definition local_set_ttl :: "runtime \<Rightarrow> u32 \<Rightarrow> moment \<Rightarrow> sstring \<Rightarrow> sstring \<Rightarrow> u64 \<Rightarrow> service \<Rightarrow> bool \<times> service" where
  "local_set_ttl rt here mo key value ttl sv =
     (let sv1 = ensure_started rt here sv
      in case set_with_ttl (rt_rnd rt) (mo_now mo) (mo_now2 mo) key value ttl (sv_store sv1) of
           (ok, st) \<Rightarrow> (ok, sv1\<lparr>sv_store := st\<rparr>))"

definition local_get :: "runtime \<Rightarrow> u32 \<Rightarrow> moment \<Rightarrow> sstring \<Rightarrow> service \<Rightarrow> sstring option \<times> service" where
  "local_get rt here mo key sv =
     (let sv1 = ensure_started rt here sv
      in case store_get (mo_now mo) key (sv_store sv1) of (val, st) \<Rightarrow> (val, sv1\<lparr>sv_store := st\<rparr>))"

definition record_set :: "bool \<Rightarrow> service \<Rightarrow> service" where
  "record_set forwarded sv =
     (let rq = sv_req sv; rq1 = rq\<lparr>rq_set_total := rq_set_total rq + 1\<rparr>
      in sv\<lparr>sv_req := if forwarded then rq1\<lparr>rq_set_forwarded := rq_set_forwarded rq1 + 1\<rparr> else rq1\<rparr>)"

definition record_get :: "bool \<Rightarrow> service \<Rightarrow> service" where
  "record_get forwarded sv =
     (let rq = sv_req sv; rq1 = rq\<lparr>rq_get_total := rq_get_total rq + 1\<rparr>
      in sv\<lparr>sv_req := if forwarded then rq1\<lparr>rq_get_forwarded := rq_get_forwarded rq1 + 1\<rparr> else rq1\<rparr>)"

definition record_get_latency :: "u64 \<Rightarrow> service \<Rightarrow> service" where
  "record_get_latency us sv = sv\<lparr>sv_latency := (sv_latency sv)\<lparr>rl_total := add_us us (rl_total (sv_latency sv))\<rparr>\<rparr>"

definition record_set_latency :: "u64 \<Rightarrow> service \<Rightarrow> service" where
  "record_set_latency us sv = sv\<lparr>sv_latency := (sv_latency sv)\<lparr>rl_total := add_us us (rl_total (sv_latency sv))\<rparr>\<rparr>"

definition record_cache_miss :: "service \<Rightarrow> service" where
  "record_cache_miss sv = sv\<lparr>sv_req := (sv_req sv)\<lparr>rq_cache_miss := rq_cache_miss (sv_req sv) + 1\<rparr>\<rparr>"

definition service_record_cache_miss_count :: "u64 \<Rightarrow> service \<Rightarrow> service" where
  "service_record_cache_miss_count n sv = sv\<lparr>sv_store := record_cache_miss_count n (sv_store sv)\<rparr>"

definition snapshot_request_counters :: "service \<Rightarrow> request_counters" where
  "snapshot_request_counters sv = sv_req sv"

definition snapshot_request_latency_counters :: "service \<Rightarrow> request_latency_counters" where
  "snapshot_request_latency_counters sv = sv_latency sv"

definition snapshot_shard_stats :: "service \<Rightarrow> shard_stats_snapshot" where
  "snapshot_shard_stats sv = snapshot_stats (sv_store sv)"

subsection \<open>Crossing shards\<close>

text \<open>\<open>smp::submit_to\<close>: the function runs on the service of the other shard.\<close>

definition submit_to :: "u32 \<Rightarrow> (service \<Rightarrow> 'r \<times> service) \<Rightarrow> cluster \<Rightarrow> 'r \<times> cluster" where
  "submit_to sid f cl = (case f (cl sid) of (r, sv) \<Rightarrow> (r, cl(sid := sv)))"

definition on_shard :: "u32 \<Rightarrow> (service \<Rightarrow> service) \<Rightarrow> cluster \<Rightarrow> cluster" where
  "on_shard sid f cl = cl(sid := f (cl sid))"

text \<open>\<open>init\<close> starts the service of every shard with the loaded configuration.\<close>

definition start_services :: "runtime \<Rightarrow> db_config \<Rightarrow> EvictionConfig \<Rightarrow> cluster" where
  "start_services rt cfg ev =
     (\<lambda>sid. if sid < rt_smp rt then service_start rt sid cfg (new_service ev) else new_service ev)"

definition owner :: "runtime \<Rightarrow> sstring \<Rightarrow> u32" where
  "owner rt key = shard_for (rt_first rt) (rt_smp rt) key"

subsection \<open>The cluster as one cache\<close>

text \<open>What the cluster stores: each key is looked up on the shard that owns it.\<close>

definition cluster_view :: "runtime \<Rightarrow> cluster \<Rightarrow> cache" where
  "cluster_view rt cl key = contents (sv_store (cl (owner rt key))) key"

text \<open>Every data shard is started and its store is consistent; \<open>n\<close> more entries can be allocated.\<close>

definition cluster_ok :: "runtime \<Rightarrow> nat \<Rightarrow> cluster \<Rightarrow> bool" where
  "cluster_ok rt n cl \<longleftrightarrow> rt_first rt < rt_smp rt
     \<and> (\<forall>sid. rt_first rt \<le> sid \<and> sid < rt_smp rt \<longrightarrow>
          sv_started (cl sid) \<and> store_inv (sv_store (cl sid)) \<and> next_addr (sv_store (cl sid)) + n < 2 ^ 63)"

lemma owner_data_shard:
  assumes "cluster_ok rt n cl"
  shows "rt_first rt \<le> owner rt key" "owner rt key < rt_smp rt"
  using assms owner_shard_bounds [of "rt_first rt" "rt_smp rt"]
  by (simp_all add: cluster_ok_def owner_def shard_for_owner owner_shard_key_def)

lemma cluster_ok_owner:
  assumes "cluster_ok rt n cl"
  shows "sv_started (cl (owner rt key))" "store_inv (sv_store (cl (owner rt key)))"
    "next_addr (sv_store (cl (owner rt key))) + n < 2 ^ 63"
  using owner_data_shard [OF assms, of key] assms by (auto simp: cluster_ok_def)

lemma cluster_ok_start:
  assumes "rt_first rt < rt_smp rt"
    "\<forall>sid. max_size (sv_store (start_services rt cfg ev sid)) + n < 2 ^ 63"
  shows "cluster_ok rt n (start_services rt cfg ev)" "cluster_view rt (start_services rt cfg ev) = Map.empty"
proof -
  define S where "S sid = store_start (rt_rnd rt) (rt_sz rt) (rt_total_mem rt sid) (rt_free_mem rt sid) cfg (new_store ev)" for sid
  have s: "sv_store (start_services rt cfg ev sid) = S sid" "sv_started (start_services rt cfg ev sid)" if "sid < rt_smp rt" for sid
    using that by (simp_all add: start_services_def service_start_def new_service_def S_def)
  have i: "store_inv (S sid)" "contents (S sid) = Map.empty" "next_addr (S sid) + n < 2 ^ 63" if l: "sid < rt_smp rt" for sid
  proof -
    have m: "max_size (S sid) + n < 2 ^ 63" using assms(2) s(1) [OF l] by metis
    then have m': "max_size (S sid) < 2 ^ 63" by simp
    show "store_inv (S sid)" "contents (S sid) = Map.empty"
      using store_start_inv [OF m' [unfolded S_def]] by (simp_all add: S_def)
    show "next_addr (S sid) + n < 2 ^ 63" using m by (simp add: S_def store_start_next_addr)
  qed
  show ok: "cluster_ok rt n (start_services rt cfg ev)"
    using assms(1) s i by (simp add: cluster_ok_def)
  show "cluster_view rt (start_services rt cfg ev) = Map.empty"
    using owner_data_shard(2) [OF ok] s(1) i(2) by (simp add: cluster_view_def fun_eq_iff)
qed

end
