(* ===== verification/Resp_Writer.thy ===== *)
theory Resp_Writer
  imports Text
begin

text \<open>
  The reply encoders of \<open>src/resp/resp_writer.cc\<close>. An output stream is the list of the
  characters written to it; every function takes the stream and returns it extended.
\<close>

abbreviation CR :: char where "CR \<equiv> CHR 0x0D"
abbreviation LF :: char where "LF \<equiv> CHR 0x0A"

definition write_crlf :: "string \<Rightarrow> string" where
  "write_crlf out = out @ [CR, LF]"

definition write_simple :: "string \<Rightarrow> sstring \<Rightarrow> string" where
  "write_simple out msg = write_crlf ((out @ ''+'') @ msg)"

definition write_error :: "string \<Rightarrow> sstring \<Rightarrow> string" where
  "write_error out msg = write_crlf ((out @ ''-'') @ msg)"

definition write_integer :: "string \<Rightarrow> int \<Rightarrow> string" where
  "write_integer out v = write_crlf (out @ '':'' @ int_to_string v)"

definition write_bulk :: "string \<Rightarrow> sstring \<Rightarrow> string" where
  "write_bulk out bytes =
     (let out1 = write_crlf (out @ ''$'' @ to_string (length bytes));
          out2 = (if bytes \<noteq> [] then out1 @ bytes else out1)
      in write_crlf out2)"

definition write_null :: "string \<Rightarrow> string" where
  "write_null out = out @ ''$-1'' @ [CR, LF]"

definition write_array_bulk :: "string \<Rightarrow> sstring list \<Rightarrow> string" where
  "write_array_bulk out items =
     foldl write_bulk (write_crlf (out @ ''*'' @ to_string (length items))) items"

subsection \<open>The encodings\<close>

text \<open>The bytes of a bulk string and of an array of bulk strings, as a client sends them.\<close>

definition enc_bulk :: "sstring \<Rightarrow> string" where
  "enc_bulk b = ''$'' @ to_string (length b) @ [CR, LF] @ b @ [CR, LF]"

definition enc_array :: "sstring list \<Rightarrow> string" where
  "enc_array items = ''*'' @ to_string (length items) @ [CR, LF] @ concat (map enc_bulk items)"

lemma write_bulk_enc: "write_bulk out b = out @ enc_bulk b"
  by (simp add: write_bulk_def write_crlf_def enc_bulk_def Let_def)

lemma write_array_bulk_enc: "write_array_bulk out items = out @ enc_array items"
proof -
  have "foldl write_bulk o1 items = o1 @ concat (map enc_bulk items)" for o1
    by (induction items arbitrary: o1) (simp_all add: write_bulk_enc)
  then show ?thesis by (simp add: write_array_bulk_def write_crlf_def enc_array_def)
qed

text \<open>Digits are neither a carriage return nor a line feed.\<close>

lemma CR_LF_not_digit: "\<not> is_digit CR" "\<not> is_digit LF" "\<not> is_digit (CHR ''-'')"
  by (simp_all add: is_digit_def)

lemma to_string_no_CR [simp]: "CR \<notin> set (to_string n)" "LF \<notin> set (to_string n)"
  using to_string_digits [of n] CR_LF_not_digit by blast+

lemma hd_to_string: "hd (to_string n) \<noteq> CHR ''-''"
  using to_string_digits [of n] CR_LF_not_digit(3) hd_in_set [OF to_string_not_Nil, of n] by metis

end
