(* ===== verification/Info.thy ===== *)
theory Info
  imports Service Resp_Writer
begin

text \<open>
  The statistics behind the INFO command, \<open>src/cmd_info.cc\<close>: what one shard reports, and the
  two texts built from the reports of all shards. \<open>fmt\<close>'s \<open>{:.2f}\<close> prints the nearest multiple
  of one hundredth, ties to even.
\<close>

record STATS =
  ss_total_allocs :: u64
  ss_free_mem :: u64
  ss_allocated_mem :: u64
  ss_total_mem :: u64
  ss_failed_alloc :: u64
  ss_shard_stats :: shard_stats_snapshot

definition collect_statistics :: "moment \<Rightarrow> u32 \<Rightarrow> cluster \<Rightarrow> STATS" where
  "collect_statistics mo here cl =
     (let mem = mo_mem mo here
      in \<lparr>ss_total_allocs = ms_mallocs mem, ss_free_mem = ms_free mem, ss_allocated_mem = ms_allocated mem,
          ss_total_mem = ms_total mem, ss_failed_alloc = ms_failed mem,
          ss_shard_stats = snapshot_shard_stats (cl here)\<rparr>)"

subsection \<open>Sizes for people\<close>

definition byte_units :: "string list" where
  "byte_units = [''B'', ''KB'', ''MB'', ''GB'', ''TB'']"

text \<open>The loop of \<open>format_bytes\<close>; the first argument is the number of larger units left.\<close>

fun scale_units :: "nat \<Rightarrow> (double \<Rightarrow> double) \<Rightarrow> double \<Rightarrow> nat \<Rightarrow> double \<times> nat" where
  "scale_units 0 rnd value unit = (value, unit)"
| "scale_units (Suc k) rnd value unit =
     (if 1024 \<le> value then scale_units k rnd (rnd (value / 1024)) (unit + 1) else (value, unit))"

definition round_half_even :: "rat \<Rightarrow> int" where
  "round_half_even x =
     (let f = \<lfloor>x\<rfloor>; r = x - of_int f
      in if r < 1 / 2 then f else if 1 / 2 < r then f + 1 else if even f then f else f + 1)"

definition fixed2 :: "double \<Rightarrow> string" where
  "fixed2 x =
     (let n = nat (round_half_even (x * 100))
      in to_string (n div 100) @ ''.'' @ [digit_char (n mod 100 div 10), digit_char (n mod 10)])"

definition format_bytes :: "(double \<Rightarrow> double) \<Rightarrow> u64 \<Rightarrow> string" where
  "format_bytes rnd bytes =
     (case scale_units (length byte_units - 1) rnd (rnd (of_nat (unat bytes))) 0 of
        (value, unit) \<Rightarrow>
          if unit = 0 then u_str bytes @ '' '' @ byte_units ! unit @ '' ('' @ u_str bytes @ '' bytes)''
          else fixed2 value @ '' '' @ byte_units ! unit @ '' ('' @ u_str bytes @ '' bytes)'')"

subsection \<open>The reports of all shards\<close>

definition shard_ids :: "runtime \<Rightarrow> u32 list" where
  "shard_ids rt = map of_nat [0..<unat (rt_smp rt)]"

definition per_shard :: "runtime \<Rightarrow> moment \<Rightarrow> cluster \<Rightarrow> STATS list" where
  "per_shard rt mo cl = map (\<lambda>shard. collect_statistics mo shard cl) (shard_ids rt)"

text \<open>The running totals of the loop; all of them are 64-bit counters.\<close>

record info_totals =
  it_total_allocs :: u64
  it_free_mem :: u64
  it_allocated_mem :: u64
  it_total_mem :: u64
  it_failed_alloc :: u64
  it_pool_total_slots :: u64
  it_pool_available_slots :: u64
  it_pool_fallback_allocs :: u64
  it_key_count :: u64
  it_cache_miss :: u64
  it_eviction_count :: u64
  it_prob_total_slots :: u64
  it_prob_used_slots :: u64
  it_prob_eviction_count :: u64

definition no_totals :: info_totals where
  "no_totals = \<lparr>it_total_allocs = 0, it_free_mem = 0, it_allocated_mem = 0, it_total_mem = 0, it_failed_alloc = 0,
     it_pool_total_slots = 0, it_pool_available_slots = 0, it_pool_fallback_allocs = 0, it_key_count = 0,
     it_cache_miss = 0, it_eviction_count = 0, it_prob_total_slots = 0, it_prob_used_slots = 0,
     it_prob_eviction_count = 0\<rparr>"

definition add_stats :: "STATS \<Rightarrow> info_totals \<Rightarrow> info_totals" where
  "add_stats st t =
     (let sn = ss_shard_stats st
      in \<lparr>it_total_allocs = it_total_allocs t + ss_total_allocs st,
          it_free_mem = it_free_mem t + ss_free_mem st,
          it_allocated_mem = it_allocated_mem t + ss_allocated_mem st,
          it_total_mem = it_total_mem t + ss_total_mem st,
          it_failed_alloc = it_failed_alloc t + ss_failed_alloc st,
          it_pool_total_slots = it_pool_total_slots t + of_nat (sn_pool_total_slots sn),
          it_pool_available_slots = it_pool_available_slots t + of_nat (sn_pool_available_slots sn),
          it_pool_fallback_allocs = it_pool_fallback_allocs t + sn_pool_fallback_allocs sn,
          it_key_count = it_key_count t + of_nat (sn_key_count sn),
          it_cache_miss = it_cache_miss t + sn_cache_miss sn,
          it_eviction_count = it_eviction_count t + sn_eviction_count sn,
          it_prob_total_slots = it_prob_total_slots t + of_nat (sn_probationary_pool_total_slots sn),
          it_prob_used_slots = it_prob_used_slots t + sn_probationary_pool_used_slots sn,
          it_prob_eviction_count = it_prob_eviction_count t + sn_probationary_eviction_count sn\<rparr>)"


fun join_commas :: "string list \<Rightarrow> string" where
  "join_commas [] = []"
| "join_commas [x] = x"
| "join_commas (x # xs) = x @ '','' @ join_commas xs"

definition memory_fields :: "(double \<Rightarrow> double) \<Rightarrow> u64 \<Rightarrow> u64 \<Rightarrow> u64 \<Rightarrow> string list" where
  "memory_fields rnd allocated free total_mem =
     [field ''allocated_memory'' (quoted (format_bytes rnd allocated)),
      field ''free_memory'' (quoted (format_bytes rnd free)),
      field ''total_memory'' (quoted (format_bytes rnd total_mem))]"

definition shard_json :: "(double \<Rightarrow> double) \<Rightarrow> nat \<Rightarrow> STATS \<Rightarrow> string" where
  "shard_json rnd shard st =
     (let sn = ss_shard_stats st
      in ''{'' @ join_commas
           ([field ''shard_id'' (to_string shard)] @
            memory_fields rnd (ss_allocated_mem st) (ss_free_mem st) (ss_total_mem st) @
            [field ''total_allocs'' (u_str (ss_total_allocs st)),
             field ''failed_allocs'' (u_str (ss_failed_alloc st)),
             field ''pool_total_slots'' (to_string (sn_pool_total_slots sn)),
             field ''pool_available_slots'' (to_string (sn_pool_available_slots sn)),
             field ''pool_fallback_allocs'' (u_str (sn_pool_fallback_allocs sn)),
             field ''key_count'' (to_string (sn_key_count sn)),
             field ''cache_miss'' (u_str (sn_cache_miss sn)),
             field ''eviction_count'' (u_str (sn_eviction_count sn)),
             field ''prob_pool_total_slots'' (to_string (sn_probationary_pool_total_slots sn)),
             field ''prob_pool_used_slots'' (u_str (sn_probationary_pool_used_slots sn)),
             field ''prob_pool_eviction_count'' (u_str (sn_probationary_eviction_count sn))]) @ ''}'')"

definition totals_json :: "(double \<Rightarrow> double) \<Rightarrow> info_totals \<Rightarrow> string" where
  "totals_json rnd t =
     field ''shard_cumulative_info''
       (''{'' @ join_commas
          (memory_fields rnd (it_allocated_mem t) (it_free_mem t) (it_total_mem t) @
           [field ''total_allocs'' (u_str (it_total_allocs t)),
            field ''failed_allocs'' (u_str (it_failed_alloc t)),
            field ''pool_total_slots'' (u_str (it_pool_total_slots t)),
            field ''pool_available_slots'' (u_str (it_pool_available_slots t)),
            field ''pool_fallback_allocs'' (u_str (it_pool_fallback_allocs t)),
            field ''key_count'' (u_str (it_key_count t)),
            field ''cache_miss'' (u_str (it_cache_miss t)),
            field ''eviction_count'' (u_str (it_eviction_count t)),
            field ''prob_pool_total_slots'' (u_str (it_prob_total_slots t)),
            field ''prob_pool_used_slots'' (u_str (it_prob_used_slots t)),
            field ''prob_pool_eviction_count'' (u_str (it_prob_eviction_count t))]) @ ''}'')"

text \<open>The loop over the reports: the totals and the texts of the shards, in order.\<close>

fun json_loop :: "(double \<Rightarrow> double) \<Rightarrow> nat \<Rightarrow> STATS list \<Rightarrow> info_totals \<Rightarrow> string list \<Rightarrow> info_totals \<times> string list" where
  "json_loop rnd shard [] t acc = (t, acc)"
| "json_loop rnd shard (st # sts) t acc =
     json_loop rnd (shard + 1) sts (add_stats st t) (acc @ [shard_json rnd shard st])"

definition fetchJsonInfo :: "runtime \<Rightarrow> moment \<Rightarrow> cluster \<Rightarrow> string" where
  "fetchJsonInfo rt mo cl =
     (case json_loop (rt_rnd rt) 0 (per_shard rt mo cl) no_totals [] of
        (t, shards) \<Rightarrow>
          ''{'' @ quoted ''shard_info'' @ '':['' @ join_commas shards @ ''],'' @ totals_json (rt_rnd rt) t @ ''}'')"

definition NL :: string where
  "NL = [CHR 0x0A]"

definition line :: "string \<Rightarrow> string \<Rightarrow> string" where
  "line name v = name @ '': '' @ v @ NL"

definition shard_text :: "(double \<Rightarrow> double) \<Rightarrow> nat \<Rightarrow> STATS \<Rightarrow> string" where
  "shard_text rnd shard st =
     (let sn = ss_shard_stats st
      in line ''shard_no'' (to_string shard) @
         line ''allocated_memory'' (format_bytes rnd (ss_allocated_mem st)) @
         line ''free_memory'' (format_bytes rnd (ss_free_mem st)) @
         line ''total_memory'' (format_bytes rnd (ss_total_mem st)) @
         line ''total_allocs'' (u_str (ss_total_allocs st)) @
         line ''failed_allocs'' (u_str (ss_failed_alloc st)) @
         line ''pool_total_slots'' (to_string (sn_pool_total_slots sn)) @
         line ''pool_available_slots'' (to_string (sn_pool_available_slots sn)) @
         line ''pool_fallback_allocs'' (u_str (sn_pool_fallback_allocs sn)) @
         line ''key_count'' (to_string (sn_key_count sn)) @
         line ''cache_miss'' (u_str (sn_cache_miss sn)) @
         line ''eviction_count'' (u_str (sn_eviction_count sn)) @ NL)"

fun text_loop :: "(double \<Rightarrow> double) \<Rightarrow> nat \<Rightarrow> STATS list \<Rightarrow> info_totals \<Rightarrow> string \<Rightarrow> info_totals \<times> string" where
  "text_loop rnd shard [] t acc = (t, acc)"
| "text_loop rnd shard (st # sts) t acc =
     text_loop rnd (shard + 1) sts
       (t\<lparr>it_total_allocs := it_total_allocs t + ss_total_allocs st,
          it_free_mem := it_free_mem t + ss_free_mem st,
          it_allocated_mem := it_allocated_mem t + ss_allocated_mem st,
          it_total_mem := it_total_mem t + ss_total_mem st,
          it_failed_alloc := it_failed_alloc t + ss_failed_alloc st\<rparr>)
       (acc @ shard_text rnd shard st)"

definition fetchInfo :: "runtime \<Rightarrow> moment \<Rightarrow> cluster \<Rightarrow> string" where
  "fetchInfo rt mo cl =
     (case text_loop (rt_rnd rt) 0 (per_shard rt mo cl) no_totals (''desc: shard_info'' @ NL) of
        (t, payload) \<Rightarrow>
          payload @ ''desc: total_info'' @ NL @
          line ''allocated_memory'' (format_bytes (rt_rnd rt) (it_allocated_mem t)) @
          line ''free_memory'' (format_bytes (rt_rnd rt) (it_free_mem t)) @
          line ''total_memory'' (format_bytes (rt_rnd rt) (it_total_mem t)) @
          line ''total_allocs'' (u_str (it_total_allocs t)) @
          line ''failed_allocs'' (u_str (it_failed_alloc t)))"

subsection \<open>The totals\<close>

lemma json_loop_eq:
  "json_loop rnd shard sts t acc =
     (fold add_stats sts t, acc @ map2 (shard_json rnd) [shard..<shard + length sts] sts)"
proof (induction sts arbitrary: shard t acc)
  case (Cons st sts)
  have "[shard..<shard + length (st # sts)] = shard # [Suc shard..<Suc shard + length sts]"
    by (simp add: upt_conv_Cons del: upt_Suc)
  then show ?case by (simp add: Cons del: upt_Suc)
qed simp

lemma fold_add_stats_keys:
  "it_key_count (fold add_stats sts t) = it_key_count t + of_nat (\<Sum>st \<leftarrow> sts. sn_key_count (ss_shard_stats st))"
  by (induction sts arbitrary: t) (simp_all add: add_stats_def Let_def add.assoc)

lemma shard_ids_set: "set (shard_ids rt) = {sid. sid < rt_smp rt}" "distinct (shard_ids rt)"
proof -
  have l: "unat (rt_smp rt) < 2 ^ 32" using unsigned_less [of "rt_smp rt", where 'a = nat] by simp
  have u: "unat (of_nat i :: u32) = i" if "i < unat (rt_smp rt)" for i
    using that l by (simp add: unat_of_nat)
  show "set (shard_ids rt) = {sid. sid < rt_smp rt}"
  proof (intro set_eqI iffI)
    fix sid assume "sid \<in> set (shard_ids rt)"
    then show "sid \<in> {sid. sid < rt_smp rt}" using u by (auto simp: shard_ids_def word_less_nat_alt)
  next
    fix sid assume "sid \<in> {sid. sid < rt_smp rt}"
    then have "unat sid < unat (rt_smp rt)" by (simp add: word_less_nat_alt)
    then show "sid \<in> set (shard_ids rt)"
      unfolding shard_ids_def by (auto intro!: image_eqI [of _ _ "unat sid"] simp: of_nat_unat_id)
  qed
  show "distinct (shard_ids rt)"
    unfolding shard_ids_def using u by (auto simp: distinct_map inj_on_def) (metis u)
qed

subsection \<open>Properties\<close>

text \<open>
  The cumulative key count of INFO JSON is the number of keys that all shards store
  together, modulo 2^64.
\<close>

theorem info_key_count:
  "\<exists>t shards. fetchJsonInfo rt mo cl =
       ''{'' @ quoted ''shard_info'' @ '':['' @ join_commas shards @ ''],'' @ totals_json (rt_rnd rt) t @ ''}''
    \<and> length shards = unat (rt_smp rt)
    \<and> it_key_count t = of_nat (\<Sum>sid | sid < rt_smp rt. card (dom (kvmap (sv_store (cl sid)))))"
proof -
  let ?sts = "per_shard rt mo cl"
  let ?t = "fold add_stats ?sts no_totals"
  let ?keys = "\<lambda>sid. card (dom (kvmap (sv_store (cl sid))))"
  have n: "sn_key_count (ss_shard_stats (collect_statistics mo sid cl)) = ?keys sid" for sid
    by (simp add: collect_statistics_def Let_def snapshot_shard_stats_def snapshot_stats_def stats_snapshot_def)
  have "(\<Sum>st \<leftarrow> ?sts. sn_key_count (ss_shard_stats st)) = (\<Sum>sid \<leftarrow> shard_ids rt. ?keys sid)"
    by (simp add: per_shard_def o_def n)
  also have "\<dots> = (\<Sum>sid | sid < rt_smp rt. ?keys sid)"
    by (simp only: sum_list_distinct_conv_sum_set [OF shard_ids_set(2)] shard_ids_set(1))
  finally have "it_key_count ?t = of_nat (\<Sum>sid | sid < rt_smp rt. ?keys sid)"
    by (simp add: fold_add_stats_keys no_totals_def)
  moreover have "length ?sts = unat (rt_smp rt)" by (simp add: per_shard_def shard_ids_def)
  ultimately show ?thesis
    by (intro exI [of _ ?t] exI [of _ "map2 (shard_json (rt_rnd rt)) [0..<length ?sts] ?sts"])
      (simp add: fetchJsonInfo_def json_loop_eq)
qed

end
