(* ===== verification/Cache_Server.thy ===== *)
theory Cache_Server
  imports Cache
begin

text \<open>
  What a server of cache requests promises, whether it is the store of one shard or the
  cluster behind the protocol, and what its clients get from that. A request stands for at
  most one call of the store; the server answers it with the encoding of an answer that the
  specification allows.
\<close>

fun run_all :: "('q \<Rightarrow> 's \<Rightarrow> 'a \<times> 's) \<Rightarrow> 'q list \<Rightarrow> 's \<Rightarrow> 'a list \<times> 's" where
  "run_all step [] s = ([], s)"
| "run_all step (q # qs) s = (let (a, t) = step q s; (as, u) = run_all step qs t in (a # as, u))"

fun ops_in :: "('q \<Rightarrow> store_op option) \<Rightarrow> 'q list \<Rightarrow> store_op list" where
  "ops_in op [] = []"
| "ops_in op (q # qs) = (case op q of None \<Rightarrow> ops_in op qs | Some c \<Rightarrow> c # ops_in op qs)"

fun op_answers :: "('q \<Rightarrow> store_op option) \<Rightarrow> 'q list \<Rightarrow> 'a list \<Rightarrow> 'a list" where
  "op_answers op (q # qs) (a # as) =
     (case op q of None \<Rightarrow> op_answers op qs as | Some c \<Rightarrow> a # op_answers op qs as)"
| "op_answers op _ _ = []"

locale cache_server =
  fixes step :: "'q \<Rightarrow> 's \<Rightarrow> 'a \<times> 's"
    and op :: "'q \<Rightarrow> store_op option"
    and view :: "'s \<Rightarrow> cache"
    and ok :: "nat \<Rightarrow> 's \<Rightarrow> bool"
    and reply :: "store_ret \<Rightarrow> 'a"
  assumes valid: "ok (Suc n) s \<Longrightarrow> op q = Some c \<Longrightarrow> step q s = (a, t) \<Longrightarrow>
      \<exists>r. a = reply r \<and> cache_step c r (view s) (view t) \<and> ok n t"
    and other: "ok (Suc n) s \<Longrightarrow> op q = None \<Longrightarrow> step q s = (a, t) \<Longrightarrow> view t = view s \<and> ok n t"
begin

lemma run_refines:
  assumes "ok (length qs + m) s" "run_all step qs s = (as, t)"
  shows "\<exists>rs. cache_run (ops_in op qs) rs (view s) (view t) \<and> op_answers op qs as = map reply rs \<and> ok m t"
  using assms
proof (induction qs arbitrary: s as)
  case Nil
  then show ?case by (auto simp: cache_run_Nil)
next
  case (Cons q qs)
  obtain a u where u: "step q s = (a, u)" by fastforce
  obtain as1 where s: "run_all step qs u = (as1, t)" "as = a # as1"
    using Cons.prems(2) u by (auto split: prod.splits)
  have k: "ok (Suc (length qs + m)) s" using Cons.prems(1) by simp
  show ?case
  proof (cases "op q")
    case None
    then show ?thesis using Cons.IH [of u as1] other [OF k None u] s by auto
  next
    case (Some c)
    obtain r where r: "a = reply r" "cache_step c r (view s) (view u)" "ok (length qs + m) u"
      using valid [OF k Some u] by blast
    obtain rs where "cache_run (ops_in op qs) rs (view u) (view t)" "op_answers op qs as1 = map reply rs" "ok m t"
      using Cons.IH [OF r(3) s(1)] by blast
    then show ?thesis using r s(2) Some by (intro exI [of _ "r # rs"]) (auto intro: run_cons)
  qed
qed

lemma reads_last_write:
  assumes "ok (length qs + 1) s" "view s = Map.empty" "run_all step qs s = (as, t)"
    "op q = Some (OpGet now key)" "step q t = (a, u)"
  shows "a = reply (RGet None) \<or> (\<exists>v. last_write key None (ops_in op qs) = Some v \<and> a = reply (RGet (Some v)))"
proof -
  obtain rs where r: "cache_run (ops_in op qs) rs Map.empty (view t)" and k: "ok (Suc 0) t"
    using run_refines [OF assms(1,3)] assms(2) by auto
  have v: "last_write key None (ops_in op qs) = Some v" if "view t key = Some (v, e)" for v e
    by (rule cache_run_last_write [OF r _ that]) simp
  obtain r where c: "a = reply r" "cache_step (OpGet now key) r (view t) (view u)"
    using valid [OF k assms(4,5)] by blast
  from c(2) have "r = RGet (cache_lookup now key (view t))" by (auto elim: cache_step_getE)
  then show ?thesis using c(1) v by (auto simp: cache_lookup_def split: option.splits if_splits)
qed

end

subsection \<open>The store of a shard is such a server\<close>

interpretation shard: cache_server "store_exec rnd" Some contents
  "\<lambda>n s. store_inv s \<and> next_addr s + n < 2 ^ 63" id for rnd
proof
  fix n c a q and s t :: "'z store_state_scheme"
  assume k: "store_inv s \<and> next_addr s + Suc n < 2 ^ 63" and c: "Some q = Some c" and e: "store_exec rnd q s = (a, t)"
  then have "cache_step q a (contents s) (contents t) \<and> store_inv t \<and> next_addr t \<le> Suc (next_addr s)"
    by (intro store_exec_refines [OF _ _ e]) simp_all
  then show "\<exists>r. a = id r \<and> cache_step c r (contents s) (contents t) \<and> store_inv t \<and> next_addr t + n < 2 ^ 63"
    using k c by auto
qed simp

lemma store_run_all: "store_run rnd ops s = run_all (store_exec rnd) ops s"
  by (induction ops arbitrary: s) (simp_all split: prod.split)

end
