(* ===== verification/Resp_Parser.thy ===== *)
theory Resp_Parser
  imports Resp_Writer
begin

text \<open>
  The parsers of \<open>src/resp/resp_parser.cc\<close>: the incremental frame-length check, the
  parser of one complete frame, and the \<open>Reader\<close> that pulls a command from an input
  stream. \<open>fail\<close> throws; a result is the message of the exception (\<open>Inl\<close>) or the value.
  Positions are natural numbers: the length of a buffer is below 2^63, so that the sums the
  code forms in \<open>size_t\<close> do not wrap.
\<close>

datatype frame_parse_status = FP_ok | FP_need_more | FP_invalid

definition INT64_MAX :: nat where
  "INT64_MAX = 2 ^ 63 - 1"

definition MAX_ARGS :: int where
  "MAX_ARGS = 1024"

definition MAX_BULK :: int where
  "MAX_BULK = 64 * 1024 * 1024"

definition fail_msg :: "string \<Rightarrow> string" where
  "fail_msg msg = ''RESP error: '' @ msg"

text \<open>The status, the position after the line, and the number (0 unless the status is ok).\<close>

definition parse_int_crlf :: "string \<Rightarrow> nat \<Rightarrow> frame_parse_status \<times> nat \<times> int" where
  "parse_int_crlf s pos =
     (case find_char CR (drop pos s) of
        None \<Rightarrow> (FP_need_more, pos, 0)
      | Some i \<Rightarrow>
          (let cr = pos + i
           in if length s \<le> cr + 1 then (FP_need_more, pos, 0)
              else if s ! (cr + 1) \<noteq> LF then (FP_invalid, pos, 0)
              else (case from_chars_signed INT64_MAX (take i (drop pos s)) of
                      Inl _ \<Rightarrow> (FP_invalid, pos, 0)
                    | Inr (v, r) \<Rightarrow> if r \<noteq> [] then (FP_invalid, pos, 0) else (FP_ok, cr + 2, v))))"

subsection \<open>The length of the first frame\<close>

text \<open>The loop over the arguments; the last argument is the out parameter \<open>frame_len\<close>.\<close>

fun frame_args :: "nat \<Rightarrow> string \<Rightarrow> nat \<Rightarrow> nat \<Rightarrow> frame_parse_status \<times> nat" where
  "frame_args 0 s pos frame_len = (FP_ok, pos)"
| "frame_args (Suc n) s pos frame_len =
     (if length s \<le> pos then (FP_need_more, frame_len)
      else if s ! pos \<noteq> CHR ''$'' then (FP_invalid, frame_len)
      else
        case parse_int_crlf s (pos + 1) of
          (st, pos1, bulk_len) \<Rightarrow>
            if st \<noteq> FP_ok then (st, frame_len)
            else if bulk_len < 0 then (FP_invalid, frame_len)
            else
              let need = pos1 + nat bulk_len + 2
              in if length s < need then (FP_need_more, frame_len)
                 else if s ! (pos1 + nat bulk_len) \<noteq> CR \<or> s ! (pos1 + nat bulk_len + 1) \<noteq> LF
                 then (FP_invalid, frame_len)
                 else frame_args n s need frame_len)"

definition parse_frame_length :: "string \<Rightarrow> nat \<Rightarrow> frame_parse_status \<times> nat" where
  "parse_frame_length s frame_len =
     (if s = [] then (FP_need_more, frame_len)
      else if hd s \<noteq> CHR ''*'' then (FP_invalid, frame_len)
      else
        case parse_int_crlf s 1 of
          (st, pos, argc) \<Rightarrow>
            if st \<noteq> FP_ok then (st, frame_len)
            else if argc \<le> 0 then (FP_invalid, frame_len)
            else frame_args (nat argc) s pos frame_len)"

subsection \<open>Parsing one frame\<close>

fun command_args :: "nat \<Rightarrow> string \<Rightarrow> nat \<Rightarrow> sstring list \<Rightarrow> string + sstring list" where
  "command_args 0 s pos argv = Inr argv"
| "command_args (Suc n) s pos argv =
     (if length s \<le> pos \<or> s ! pos \<noteq> CHR ''$''
      then Inl (fail_msg ''expected bulk string '' @ [CHR 0x27] @ ''$'' @ [CHR 0x27] @ '' in array'')
      else
        case parse_int_crlf s (pos + 1) of
          (st, pos1, len) \<Rightarrow>
            if st \<noteq> FP_ok \<or> len < 0 then Inl (fail_msg ''invalid bulk length'')
            else if MAX_BULK < len then Inl (fail_msg ''bulk string too large'')
            else
              let need = pos1 + nat len + 2
              in if length s < need \<or> s ! (pos1 + nat len) \<noteq> CR \<or> s ! (pos1 + nat len + 1) \<noteq> LF
                 then Inl (fail_msg ''invalid bulk payload'')
                 else command_args n s need (argv @ [take (nat len) (drop pos1 s)]))"

definition parse_command_from_frame :: "sstring \<Rightarrow> string + sstring list" where
  "parse_command_from_frame s =
     (if s = [] \<or> hd s \<noteq> CHR ''*''
      then Inl (fail_msg ''expected array '' @ [CHR 0x27] @ ''*'' @ [CHR 0x27])
      else
        case parse_int_crlf s 1 of
          (st, pos, argc) \<Rightarrow>
            if st \<noteq> FP_ok \<or> argc \<le> 0 then Inl (fail_msg ''invalid array length'')
            else if MAX_ARGS < argc then Inl (fail_msg ''too many arguments'')
            else command_args (nat argc) s pos [])"

subsection \<open>Reading a length line\<close>

lemma from_chars_signed_to_string:
  assumes "n \<le> maxv"
  shows "from_chars_signed maxv (to_string n) = Inr (int n, [])"
proof -
  have tw: "takeWhile is_digit (to_string n) = to_string n" "dropWhile is_digit (to_string n) = []"
    using to_string_digits [of n] by simp_all
  show ?thesis
    using assms hd_to_string [of n] by (simp add: from_chars_signed_def Let_def digits_value_to_string tw)
qed

lemma parse_int_crlf_line:
  assumes "s = pre @ to_string n @ [CR, LF] @ rest" "n \<le> INT64_MAX"
  shows "parse_int_crlf s (length pre) = (FP_ok, length pre + length (to_string n) + 2, int n)"
proof -
  have d: "drop (length pre) s = to_string n @ CR # LF # rest" by (simp add: assms(1))
  have f: "find_char CR (drop (length pre) s) = Some (length (to_string n))"
    unfolding d by (rule find_char_append) simp
  have "s ! (length pre + length (to_string n) + 1) = LF"
    unfolding assms(1) by (simp add: nth_append)
  moreover have "take (length (to_string n)) (drop (length pre) s) = to_string n" by (simp add: d)
  ultimately show ?thesis
    using f from_chars_signed_to_string [OF assms(2)]
    by (simp add: parse_int_crlf_def assms(1))
qed

text \<open>A line that has not arrived completely is not judged.\<close>

lemma parse_int_crlf_partial:
  assumes "s = pre @ part" "part @ more = to_string n @ [CR, LF] @ rest" "length part < length (to_string n) + 2"
  shows "fst (parse_int_crlf s (length pre)) = FP_need_more"
proof (cases "CR \<in> set part")
  case False
  then show ?thesis by (simp add: parse_int_crlf_def assms(1) find_char_None [symmetric])
next
  case True
  have "part = take (length part) (to_string n @ [CR, LF] @ rest)"
    using assms(2) by (metis append_eq_conv_conj)
  moreover have "take (length part - length (to_string n)) ([CR, LF] @ rest) =
      take (length part - length (to_string n)) [CR]"
    using assms(3) by (cases "length part - length (to_string n)") auto
  ultimately have tk: "part = take (length part) (to_string n @ [CR])"
    by (simp only: take_append)
  have "length (to_string n) < length part"
  proof (rule ccontr)
    assume "\<not> ?thesis"
    then have "part = take (length part) (to_string n)" using tk by simp
    then show False using True set_take_subset [of "length part" "to_string n"] by auto
  qed
  with tk have "part = to_string n @ [CR]" by (metis Suc_leI length_append_singleton take_all)
  then show ?thesis
    using find_char_append [of CR "to_string n" "[]"] by (simp add: parse_int_crlf_def assms(1))
qed

subsection \<open>Complete and partial frames\<close>

abbreviation enc_bulks :: "sstring list \<Rightarrow> string" where
  "enc_bulks bs \<equiv> concat (map enc_bulk bs)"

lemma bulk_at:
  assumes "s = pre @ enc_bulk b @ rest" "length b \<le> INT64_MAX"
  obtains p1 where "length pre < length s" "s ! length pre = CHR ''$''"
    "parse_int_crlf s (length pre + 1) = (FP_ok, p1, int (length b))"
    "\<not> length s < p1 + length b + 2" "s ! (p1 + length b) = CR" "s ! (p1 + length b + 1) = LF"
    "take (length b) (drop p1 s) = b" "p1 + length b + 2 = length (pre @ enc_bulk b)"
proof -
  define hdr where "hdr = pre @ ''$'' @ to_string (length b) @ [CR, LF]"
  have s1: "s = (pre @ ''$'') @ to_string (length b) @ [CR, LF] @ (b @ [CR, LF] @ rest)"
    by (simp add: assms(1) enc_bulk_def)
  have s2: "s = hdr @ b @ [CR, LF] @ rest" by (simp add: s1 hdr_def)
  have nth: "s ! (length hdr + k) = (b @ [CR, LF] @ rest) ! k" for k
    unfolding s2 by (rule nth_append_length_plus)
  show ?thesis
  proof (rule that [of "length hdr"])
    show "length pre < length s" "s ! length pre = CHR ''$''" by (simp_all add: s1)
    show "parse_int_crlf s (length pre + 1) = (FP_ok, length hdr, int (length b))"
      using parse_int_crlf_line [OF s1 assms(2)] by (simp add: hdr_def)
    show "\<not> length s < length hdr + length b + 2" by (simp add: s2)
    show "s ! (length hdr + length b) = CR" using nth [of "length b"] by (simp add: nth_append)
    show "s ! (length hdr + length b + 1) = LF"
      using nth [of "length b + 1"] by (simp add: nth_append add.assoc)
    show "take (length b) (drop (length hdr) s) = b" by (simp add: s2)
    show "length hdr + length b + 2 = length (pre @ enc_bulk b)" by (simp add: hdr_def enc_bulk_def)
  qed
qed

lemma frame_args_step:
  assumes "s = pre @ enc_bulk b @ rest" "length b \<le> INT64_MAX"
  shows "frame_args (Suc n) s (length pre) fl = frame_args n s (length (pre @ enc_bulk b)) fl"
  by (rule bulk_at [OF assms]) (simp add: Let_def del: length_append)

lemma command_args_step:
  assumes "s = pre @ enc_bulk b @ rest" "int (length b) \<le> MAX_BULK"
  shows "command_args (Suc n) s (length pre) argv = command_args n s (length (pre @ enc_bulk b)) (argv @ [b])"
proof -
  have "length b \<le> INT64_MAX" using assms(2) by (simp add: MAX_BULK_def INT64_MAX_def)
  then show ?thesis
    by (rule bulk_at [OF assms(1)]) (use assms(2) in \<open>simp add: Let_def del: length_append\<close>)
qed

lemma frame_args_enc:
  assumes "s = pre @ enc_bulks bs @ rest" "\<forall>b \<in> set bs. length b \<le> INT64_MAX"
  shows "frame_args (length bs) s (length pre) fl = (FP_ok, length pre + length (enc_bulks bs))"
  using assms
proof (induction bs arbitrary: pre)
  case (Cons b bs)
  have s: "s = pre @ enc_bulk b @ (enc_bulks bs @ rest)" using Cons.prems(1) by simp
  have s': "s = (pre @ enc_bulk b) @ enc_bulks bs @ rest" using Cons.prems(1) by simp
  have "length b \<le> INT64_MAX" using Cons.prems(2) by simp
  note b = frame_args_step [OF s this, of "length bs" fl]
  have "frame_args (length bs) s (length (pre @ enc_bulk b)) fl =
      (FP_ok, length (pre @ enc_bulk b) + length (enc_bulks bs))"
    using Cons.IH [OF s'] Cons.prems(2) by simp
  then show ?case using b by (simp del: frame_args.simps)
qed simp

lemma command_args_enc:
  assumes "s = pre @ enc_bulks bs @ rest" "\<forall>b \<in> set bs. int (length b) \<le> MAX_BULK"
  shows "command_args (length bs) s (length pre) argv = Inr (argv @ bs)"
  using assms
proof (induction bs arbitrary: pre argv)
  case (Cons b bs)
  have s: "s = pre @ enc_bulk b @ (enc_bulks bs @ rest)" using Cons.prems(1) by simp
  have s': "s = (pre @ enc_bulk b) @ enc_bulks bs @ rest" using Cons.prems(1) by simp
  have "int (length b) \<le> MAX_BULK" using Cons.prems(2) by simp
  note b = command_args_step [OF s this, of "length bs" argv]
  have "command_args (length bs) s (length (pre @ enc_bulk b)) (argv @ [b]) = Inr ((argv @ [b]) @ bs)"
    using Cons.IH [OF s'] Cons.prems(2) by simp
  then show ?case using b by (simp del: command_args.simps)
qed simp

lemma prefix_cases:
  assumes "part @ more = xs @ ys"
  obtains us where "part = xs @ us" "us @ more = ys" | us where "xs = part @ us" "us \<noteq> []" "more = us @ ys"
proof -
  from assms consider us where "part = xs @ us" "us @ more = ys" | us where "xs = part @ us" "more = us @ ys"
    by (auto simp: append_eq_append_conv2)
  then show ?thesis
  proof cases
    case 1
    then show ?thesis by (rule that(1))
  next
    case (2 us)
    then show ?thesis using that(1) [of "[]"] that(2) [of us] by (cases us) simp_all
  qed
qed

lemma frame_args_bulk_partial:
  assumes "s = pre @ part" "part @ us = enc_bulk b" "us \<noteq> []" "length b \<le> INT64_MAX"
  shows "fst (frame_args (Suc n) s (length pre) fl) = FP_need_more"
proof (cases part)
  case Nil
  then show ?thesis using assms(1) by simp
next
  case (Cons c p1)
  then have c: "c = CHR ''$''" and p1: "p1 @ us = to_string (length b) @ [CR, LF] @ b @ [CR, LF]"
    using assms(2) by (simp_all add: enc_bulk_def)
  have s: "s = (pre @ ''$'') @ p1" using assms(1) Cons c by simp
  show ?thesis
  proof (cases "length p1 < length (to_string (length b)) + 2")
    case True
    have "fst (parse_int_crlf s (length (pre @ ''$''))) = FP_need_more"
      by (rule parse_int_crlf_partial [OF s p1 True])
    then obtain q v where "parse_int_crlf s (Suc (length pre)) = (FP_need_more, q, v)"
      by (cases "parse_int_crlf s (Suc (length pre))") auto
    then show ?thesis by (simp add: s)
  next
    case False
    from p1 have "p1 @ us = (to_string (length b) @ [CR, LF]) @ b @ [CR, LF]" by simp
    then obtain vs where vs: "p1 = (to_string (length b) @ [CR, LF]) @ vs" "vs @ us = b @ [CR, LF]"
    proof (cases rule: prefix_cases)
      case (2 ws)
      have "length (to_string (length b) @ [CR, LF]) = length (p1 @ ws)" by (simp only: 2(1))
      moreover have "0 < length ws" using 2(2) by simp
      ultimately show ?thesis using False by simp
    qed (use that in blast)
    have "parse_int_crlf s (length (pre @ ''$'')) =
        (FP_ok, length (pre @ ''$'') + length (to_string (length b)) + 2, int (length b))"
      using s vs(1) by (intro parse_int_crlf_line [OF _ assms(4), where rest = vs]) simp
    moreover have "length vs < length b + 2"
      using arg_cong [OF vs(2), of length] assms(3) by (cases us) simp_all
    ultimately show ?thesis using s vs(1) by (simp add: Let_def)
  qed
qed

lemma frame_args_partial:
  assumes "s = pre @ part" "part @ more = enc_bulks bs" "more \<noteq> []" "\<forall>b \<in> set bs. length b \<le> INT64_MAX"
  shows "fst (frame_args (length bs) s (length pre) fl) = FP_need_more"
  using assms
proof (induction bs arbitrary: pre part)
  case (Cons b bs)
  have lb: "length b \<le> INT64_MAX" using Cons.prems(4) by simp
  have "part @ more = enc_bulk b @ enc_bulks bs" using Cons.prems(2) by simp
  then show ?case
  proof (cases rule: prefix_cases)
    case (1 us)
    have s: "s = pre @ enc_bulk b @ us" using Cons.prems(1) 1 by simp
    have "fst (frame_args (length bs) s (length (pre @ enc_bulk b)) fl) = FP_need_more"
      using Cons.IH [of "pre @ enc_bulk b" us] Cons.prems 1 by simp
    then show ?thesis using frame_args_step [OF s lb, of "length bs" fl] by (simp del: frame_args.simps)
  next
    case (2 us)
    then show ?thesis using frame_args_bulk_partial [OF Cons.prems(1) _ _ lb, of us "length bs" fl] by (simp del: frame_args.simps)
  qed
qed simp

text \<open>The array header.\<close>

lemma enc_array_header:
  assumes "s = enc_array bs @ rest" "length bs \<le> INT64_MAX"
  obtains pre where "parse_int_crlf s 1 = (FP_ok, length pre, int (length bs))"
    "s = pre @ enc_bulks bs @ rest" "hd s = CHR ''*''" "s \<noteq> []"
proof -
  have s: "s = ''*'' @ to_string (length bs) @ [CR, LF] @ (enc_bulks bs @ rest)"
    by (simp add: assms(1) enc_array_def)
  show ?thesis
    using parse_int_crlf_line [OF s assms(2)]
    by (intro that [of "''*'' @ to_string (length bs) @ [CR, LF]"]) (simp_all add: s)
qed

lemma frame_args_frame_len:
  "frame_args n s pos fl = (st, fl') \<Longrightarrow> st \<noteq> FP_ok \<Longrightarrow> fl' = fl"
  by (induction n s pos fl rule: frame_args.induct) (auto split: if_splits prod.splits simp: Let_def)

lemma parse_frame_length_partial:
  assumes "part @ more = enc_array args" "more \<noteq> []" "args \<noteq> []" "length args \<le> INT64_MAX"
    "\<forall>b \<in> set args. length b \<le> INT64_MAX"
  shows "parse_frame_length part fl = (FP_need_more, fl)"
proof (cases part)
  case Nil
  then show ?thesis by (simp add: parse_frame_length_def)
next
  case (Cons c p1)
  then have c: "c = CHR ''*''" and p1: "p1 @ more = to_string (length args) @ [CR, LF] @ enc_bulks args"
    using assms(1) by (simp_all add: enc_array_def)
  have s: "part = ''*'' @ p1" using Cons c by simp
  show ?thesis
  proof (cases "length p1 < length (to_string (length args)) + 2")
    case True
    have "fst (parse_int_crlf part (length ''*'')) = FP_need_more"
      by (rule parse_int_crlf_partial [OF s p1 True])
    then obtain q v where "parse_int_crlf part 1 = (FP_need_more, q, v)"
      by (cases "parse_int_crlf part 1") auto
    then show ?thesis by (simp add: parse_frame_length_def s)
  next
    case False
    from p1 have "p1 @ more = (to_string (length args) @ [CR, LF]) @ enc_bulks args" by simp
    then obtain vs where vs: "p1 = (to_string (length args) @ [CR, LF]) @ vs" "vs @ more = enc_bulks args"
    proof (cases rule: prefix_cases)
      case (2 ws)
      have "length (to_string (length args) @ [CR, LF]) = length (p1 @ ws)" by (simp only: 2(1))
      moreover have "0 < length ws" using 2(2) by simp
      ultimately show ?thesis using False by simp
    qed (use that in blast)
    define pre where "pre = ''*'' @ to_string (length args) @ [CR, LF]"
    have "parse_int_crlf part 1 = (FP_ok, length pre, int (length args))"
      using parse_int_crlf_line [of part "''*''" "length args" vs] s vs(1) assms(4) by (simp add: pre_def)
    moreover have "part = pre @ vs" using s vs(1) by (simp add: pre_def)
    from frame_args_partial [OF this vs(2) assms(2,5), of fl]
    have "frame_args (length args) part (length pre) fl = (FP_need_more, fl)"
      using frame_args_frame_len [of "length args" part "length pre" fl]
      by (cases "frame_args (length args) part (length pre) fl") auto
    ultimately show ?thesis using assms(3) s by (simp add: parse_frame_length_def)
  qed
qed

subsection \<open>Properties\<close>

lemma parse_command_enc:
  assumes "args \<noteq> []" "int (length args) \<le> MAX_ARGS" "\<forall>b \<in> set args. int (length b) \<le> MAX_BULK"
  shows "parse_command_from_frame (write_array_bulk [] args) = Inr args"
proof -
  let ?s = "enc_array args"
  have "length args \<le> INT64_MAX" using assms(2) by (simp add: MAX_ARGS_def INT64_MAX_def)
  then obtain pre where h: "parse_int_crlf ?s 1 = (FP_ok, length pre, int (length args))"
    "?s = pre @ enc_bulks args @ []" "hd ?s = CHR ''*''" "?s \<noteq> []"
    using enc_array_header [of ?s args "[]"] by auto
  have "command_args (length args) ?s (length pre) [] = Inr args"
    using command_args_enc [OF h(2) assms(3), of "[]"] by simp
  then show ?thesis
    using h(1,3,4) assms(1,2) by (simp add: write_array_bulk_enc parse_command_from_frame_def)
qed

text \<open>
  C29. A command written as an array of bulk strings is parsed back: \<open>parse_command_from_frame\<close>
  returns exactly the arguments, for any number of arguments up to its limit and any bytes
  up to its limit in each of them, carriage returns and line feeds included.
\<close>

theorem parse_command_roundtrip:
  assumes "args \<noteq> []" "int (length args) \<le> MAX_ARGS" "\<forall>b \<in> set args. int (length b) \<le> MAX_BULK"
  shows "parse_command_from_frame (write_array_bulk [] args) = Inr args"
  by (rule parse_command_enc [OF assms])

theorem parse_command_roundtrip_witness:
  "parse_command_from_frame (write_array_bulk [] [''SET'', ''k'', [CR, LF]]) = Inr [''SET'', ''k'', [CR, LF]]"
  by (rule parse_command_roundtrip) (simp_all add: MAX_ARGS_def MAX_BULK_def)

text \<open>
  C30. \<open>parse_frame_length\<close> finds the end of the first command of a stream, and
  asks for more, never failing, as long as the command has not arrived completely.
\<close>

theorem parse_frame_length_incremental:
  assumes "args \<noteq> []" "length args \<le> INT64_MAX" "\<forall>b \<in> set args. length b \<le> INT64_MAX"
  shows "parse_frame_length (enc_array args @ rest) fl = (FP_ok, length (enc_array args))
    \<and> (part @ more = enc_array args \<and> more \<noteq> [] \<longrightarrow> parse_frame_length part fl = (FP_need_more, fl))"
proof
  let ?s = "enc_array args @ rest"
  obtain pre where h: "parse_int_crlf ?s 1 = (FP_ok, length pre, int (length args))"
    "?s = pre @ enc_bulks args @ rest" "hd ?s = CHR ''*''" "?s \<noteq> []"
    using enc_array_header [OF refl assms(2)] by metis
  have "length (enc_array args) = length pre + length (enc_bulks args)"
    using arg_cong [OF h(2), of length] by simp
  then show "parse_frame_length ?s fl = (FP_ok, length (enc_array args))"
    using h(1,3,4) assms(1) frame_args_enc [OF h(2) assms(3), of fl]
    by (simp add: parse_frame_length_def)
  show "part @ more = enc_array args \<and> more \<noteq> [] \<longrightarrow> parse_frame_length part fl = (FP_need_more, fl)"
    by (intro impI parse_frame_length_partial [OF _ _ assms]) auto
qed

theorem parse_frame_length_incremental_witness:
  "parse_frame_length (enc_array [''GET'', ''k''] @ ''*1'') 7 = (FP_ok, length (enc_array [''GET'', ''k'']))"
  using parse_frame_length_incremental [of "[''GET'', ''k'']" "''*1''" 7 "[]" "[]"] by (simp add: INT64_MAX_def)

lemma command_args_bounds:
  "command_args n s pos argv = Inr r \<Longrightarrow>
     \<exists>bs. r = argv @ bs \<and> length bs = n \<and> (\<forall>b \<in> set bs. int (length b) \<le> MAX_BULK)
       \<and> pos + length (concat bs) \<le> max pos (length s)"
proof (induction n arbitrary: pos argv)
  case (Suc n)
  obtain st p1 len where p: "parse_int_crlf s (pos + 1) = (st, p1, len)"
    by (cases "parse_int_crlf s (pos + 1)") auto
  let ?need = "p1 + nat len + 2" and ?b = "take (nat len) (drop p1 s)"
  from Suc.prems p have c: "pos < length s" "s ! pos = CHR ''$''" "st = FP_ok" "0 \<le> len" "len \<le> MAX_BULK"
    "?need \<le> length s" and r: "command_args n s ?need (argv @ [?b]) = Inr r"
    by (auto split: if_splits simp: Let_def)
  have p1: "pos < p1" using p c(3) by (auto simp: parse_int_crlf_def Let_def split: option.splits sum.splits if_splits)
  have "\<exists>bs. r = (argv @ [?b]) @ bs \<and> length bs = n \<and> (\<forall>b \<in> set bs. int (length b) \<le> MAX_BULK)
      \<and> ?need + length (concat bs) \<le> max ?need (length s)"
    by (rule Suc.IH [OF r])
  then obtain bs where bs: "r = (argv @ [?b]) @ bs" "length bs = n" "\<forall>b \<in> set bs. int (length b) \<le> MAX_BULK"
    "?need + length (concat bs) \<le> max ?need (length s)" by blast
  have "length ?b = nat len" using c(6) by simp
  then show ?case
    using bs c p1 by (intro exI [of _ "?b # bs"]) auto
qed simp

text \<open>
  What \<open>parse_command_from_frame\<close> accepts is bounded, whatever the bytes are: between one and
  1024 arguments, each of at most 64 MiB, and together no longer than the frame. In every
  other case it fails with one of its messages.
\<close>

theorem parse_command_bounds:
  assumes "parse_command_from_frame s = Inr argv"
  shows "argv \<noteq> [] \<and> int (length argv) \<le> MAX_ARGS \<and> (\<forall>b \<in> set argv. int (length b) \<le> MAX_BULK)
    \<and> length (concat argv) \<le> length s"
proof -
  obtain st pos argc where p: "parse_int_crlf s 1 = (st, pos, argc)"
    by (cases "parse_int_crlf s 1") auto
  then have c: "st = FP_ok" "0 < argc" "argc \<le> MAX_ARGS" "command_args (nat argc) s pos [] = Inr argv"
    using assms by (auto simp: parse_command_from_frame_def split: if_splits)
  have "pos \<le> length s"
    using p c(1) by (auto simp: parse_int_crlf_def Let_def split: option.splits sum.splits if_splits)
  with command_args_bounds [OF c(4)] c show ?thesis by auto
qed

theorem parse_command_bounds_witness:
  "length (concat [''GET'', ''k'']) \<le> length (write_array_bulk [] [''GET'', ''k''])"
proof -
  have "parse_command_from_frame (write_array_bulk [] [''GET'', ''k'']) = Inr [''GET'', ''k'']"
    by (rule parse_command_enc) (simp_all add: MAX_ARGS_def MAX_BULK_def)
  from parse_command_bounds [OF this] show ?thesis by simp
qed

end
