(* ===== verification/Resp_Stream.thy ===== *)
theory Resp_Stream
  imports Resp_Parser
begin

text \<open>
  \<open>RespStreamProcessor\<close> of \<open>include/resp/resp_stream_processor.hh\<close> and
  \<open>src/resp/resp_stream_processor.cc\<close>: the incremental parser that the connection handler
  feeds with its buffer. The loop of \<open>try_extract_request\<close> is a step function, one
  definition per state of the machine, iterated to the first return. Signed arithmetic on
  \<open>int64_t\<close> is written as it wraps on the target; a result that does not fit is undefined
  behaviour of the language and raises the sticky flag \<open>rs_fault\<close>. Positions are natural
  numbers, the offsets kept in a slice are 32-bit words.
\<close>

datatype rs_st =
  need_star | need_argc | need_dollar | need_bulk_len | need_bulk_data | need_bulk_crlf

record slice =
  sl_off :: u32
  sl_len :: u32

record resp_proc =
  rs_st :: rs_st
  rs_pos :: nat
  rs_cmd_start :: nat
  rs_argc :: int
  rs_argi :: int
  rs_bulk_len :: int
  rs_slices :: "slice list"
  rs_fault :: bool

definition new_resp_proc :: resp_proc where
  "new_resp_proc = \<lparr>rs_st = need_star, rs_pos = 0, rs_cmd_start = 0, rs_argc = 0, rs_argi = 0,
     rs_bulk_len = 0, rs_slices = [], rs_fault = False\<rparr>"

record parsed_request =
  req_frame :: sstring
  req_argv :: "sstring list"

definition kMaxArgs :: int where
  "kMaxArgs = 1024"

definition kMaxBulk :: int where
  "kMaxBulk = 64 * 1024 * 1024"

text \<open>What one call yields: nothing yet, a request, or an exception.\<close>

datatype extracted = No_request | Request parsed_request | Thrown

definition protocol_error :: extracted where
  "protocol_error = Request \<lparr>req_frame = ''-ERR protocol error'' @ [CR, LF], req_argv = []\<rparr>"

definition invalid_argc :: extracted where
  "invalid_argc = Request \<lparr>req_frame = ''-ERR invalid argc'' @ [CR, LF], req_argv = []\<rparr>"

definition invalid_bulk_length :: extracted where
  "invalid_bulk_length = Request \<lparr>req_frame = ''-ERR invalid bulk length'' @ [CR, LF], req_argv = []\<rparr>"

text \<open>\<open>sstring::substr\<close>, which throws when the start is out of range.\<close>

definition substr :: "string \<Rightarrow> nat \<Rightarrow> nat \<Rightarrow> string option" where
  "substr s from len = (if length s < from then None else Some (take len (drop from s)))"

definition rs_compact :: "resp_proc \<Rightarrow> string \<Rightarrow> resp_proc \<times> string" where
  "rs_compact rs buf =
     (if rs_pos rs = 0 then (rs, buf)
      else if length buf \<le> rs_pos rs then (rs\<lparr>rs_pos := 0\<rparr>, [])
      else if 4096 \<le> rs_pos rs \<or> length buf \<le> rs_pos rs * 2
      then (rs\<lparr>rs_pos := 0\<rparr>, drop (rs_pos rs) buf)
      else (rs, buf))"

definition reset_and_resync :: "resp_proc \<Rightarrow> string \<Rightarrow> resp_proc \<times> string" where
  "reset_and_resync rs buf =
     (let rs = rs\<lparr>rs_st := need_star\<rparr>
      in if length buf \<le> rs_pos rs then rs_compact rs buf
         else (case find_char (CHR ''*'') (drop (rs_pos rs) buf) of
                 None \<Rightarrow> rs_compact (rs\<lparr>rs_pos := length buf\<rparr>) buf
               | Some star \<Rightarrow> rs_compact (rs\<lparr>rs_pos := rs_pos rs + star\<rparr>) buf))"

text \<open>A result of \<open>int64_t\<close> arithmetic, as two's complement wraps it.\<close>

definition wrap_i64 :: "int \<Rightarrow> int" where
  "wrap_i64 v = signed_take_bit 63 v"

text \<open>The digit loop: the value, or nothing at a character that is no digit, and whether it overflowed.\<close>

fun accumulate :: "int \<Rightarrow> bool \<Rightarrow> string \<Rightarrow> int option \<times> bool" where
  "accumulate v ov [] = (Some v, ov)"
| "accumulate v ov (c # cs) =
     (if \<not> is_digit c then (None, ov)
      else
        let w = v * 10 + int (digit_val c)
        in accumulate (wrap_i64 w) (ov \<or> wrap_i64 w \<noteq> w) cs)"

definition rs_parse_int_crlf :: "resp_proc \<Rightarrow> string \<Rightarrow> frame_parse_status \<times> int \<times> resp_proc" where
  "rs_parse_int_crlf rs buf =
     (if length buf \<le> rs_pos rs then (FP_need_more, 0, rs)
      else
        case find_char LF (drop (rs_pos rs) buf) of
          None \<Rightarrow> (FP_need_more, 0, rs)
        | Some nl \<Rightarrow>
            if nl = 0 then (FP_invalid, 0, rs)
            else
              let line = take nl (drop (rs_pos rs) buf)
              in if last line \<noteq> CR then (FP_invalid, 0, rs)
                 else
                   let neg = (hd line = CHR ''-''); q = (if neg then tl (butlast line) else butlast line)
                   in if q = [] then (FP_invalid, 0, rs)
                      else
                        (case accumulate 0 False q of
                           (None, ov) \<Rightarrow> (FP_invalid, 0, rs\<lparr>rs_fault := rs_fault rs \<or> ov\<rparr>)
                         | (Some v, ov) \<Rightarrow>
                             let out = (if neg then wrap_i64 (- v) else v)
                             in (FP_ok, out,
                                 rs\<lparr>rs_pos := rs_pos rs + nl + 1,
                                    rs_fault := rs_fault rs \<or> ov \<or> (neg \<and> out \<noteq> - v)\<rparr>)))"

subsection \<open>One iteration of the loop\<close>

datatype rs_step = Continue resp_proc | Return resp_proc string extracted

definition return_resync :: "resp_proc \<Rightarrow> string \<Rightarrow> extracted \<Rightarrow> rs_step" where
  "return_resync rs buf e = (case reset_and_resync rs buf of (rs1, buf1) \<Rightarrow> Return rs1 buf1 e)"

definition return_compact :: "resp_proc \<Rightarrow> string \<Rightarrow> extracted \<Rightarrow> rs_step" where
  "return_compact rs buf e = (case rs_compact rs buf of (rs1, buf1) \<Rightarrow> Return rs1 buf1 e)"

definition step_need_star :: "resp_proc \<Rightarrow> string \<Rightarrow> rs_step" where
  "step_need_star rs buf =
     (if length buf \<le> rs_pos rs then return_compact rs buf No_request
      else if buf ! rs_pos rs \<noteq> CHR ''*'' then
        (case find_char LF (drop (rs_pos rs) buf) of
           None \<Rightarrow> return_compact (rs\<lparr>rs_pos := length buf\<rparr>) buf protocol_error
         | Some nl \<Rightarrow> return_compact (rs\<lparr>rs_pos := rs_pos rs + nl + 1\<rparr>) buf protocol_error)
      else Continue (rs\<lparr>rs_cmd_start := rs_pos rs, rs_pos := rs_pos rs + 1, rs_st := need_argc\<rparr>))"

definition step_need_argc :: "resp_proc \<Rightarrow> string \<Rightarrow> rs_step" where
  "step_need_argc rs buf =
     (case rs_parse_int_crlf rs buf of
        (stt, argc, rs1) \<Rightarrow>
          if stt = FP_need_more then Return rs1 buf No_request
          else if stt \<noteq> FP_ok then return_resync rs1 buf protocol_error
          else if argc \<le> 0 \<or> kMaxArgs < argc then return_resync rs1 buf invalid_argc
          else Continue (rs1\<lparr>rs_argc := argc, rs_argi := 0, rs_slices := [], rs_st := need_dollar\<rparr>))"

definition step_need_dollar :: "resp_proc \<Rightarrow> string \<Rightarrow> rs_step" where
  "step_need_dollar rs buf =
     (if length buf \<le> rs_pos rs then Return rs buf No_request
      else if buf ! rs_pos rs \<noteq> CHR ''$'' then return_resync rs buf protocol_error
      else Continue (rs\<lparr>rs_pos := rs_pos rs + 1, rs_st := need_bulk_len\<rparr>))"

definition step_need_bulk_len :: "resp_proc \<Rightarrow> string \<Rightarrow> rs_step" where
  "step_need_bulk_len rs buf =
     (case rs_parse_int_crlf rs buf of
        (stt, bl, rs1) \<Rightarrow>
          if stt = FP_need_more then Return rs1 buf No_request
          else if stt \<noteq> FP_ok then return_resync rs1 buf protocol_error
          else if bl < 0 \<or> kMaxBulk < bl then return_resync rs1 buf invalid_bulk_length
          else Continue (rs1\<lparr>rs_bulk_len := bl, rs_st := need_bulk_data\<rparr>))"

definition step_need_bulk_data :: "resp_proc \<Rightarrow> string \<Rightarrow> rs_step" where
  "step_need_bulk_data rs buf =
     (let bl = nat (rs_bulk_len rs)
      in if length buf < rs_pos rs + bl then Return rs buf No_request
         else Continue (rs\<lparr>rs_slices := rs_slices rs @ [\<lparr>sl_off = of_nat (rs_pos rs), sl_len = of_nat bl\<rparr>],
                           rs_pos := rs_pos rs + bl, rs_st := need_bulk_crlf\<rparr>))"

text \<open>The arguments cut out of the frame; \<open>rel_off\<close> is computed in \<open>size_t\<close>.\<close>

fun cut_slices :: "nat \<Rightarrow> string \<Rightarrow> slice list \<Rightarrow> sstring list option" where
  "cut_slices cmd_start frame [] = Some []"
| "cut_slices cmd_start frame (sl # sls) =
     (case substr frame (unat (ucast (sl_off sl) - of_nat cmd_start :: u64)) (unat (sl_len sl)) of
        None \<Rightarrow> None
      | Some a \<Rightarrow> map_option ((#) a) (cut_slices cmd_start frame sls))"

definition step_need_bulk_crlf :: "resp_proc \<Rightarrow> string \<Rightarrow> rs_step" where
  "step_need_bulk_crlf rs buf =
     (if length buf < rs_pos rs + 2 then Return rs buf No_request
      else if buf ! rs_pos rs \<noteq> CR \<or> buf ! (rs_pos rs + 1) \<noteq> LF then return_resync rs buf protocol_error
      else
        let rs1 = rs\<lparr>rs_pos := rs_pos rs + 2, rs_argi := rs_argi rs + 1\<rparr>
        in if rs_argi rs1 = rs_argc rs1 then
             (case substr buf (rs_cmd_start rs1) (rs_pos rs1 - rs_cmd_start rs1) of
                None \<Rightarrow> Return rs1 buf Thrown
              | Some frame \<Rightarrow>
                  (case cut_slices (rs_cmd_start rs1) frame (rs_slices rs1) of
                     None \<Rightarrow> Return rs1 buf Thrown
                   | Some argv \<Rightarrow>
                       return_compact (rs1\<lparr>rs_st := need_star\<rparr>) buf
                         (Request \<lparr>req_frame = frame, req_argv = argv\<rparr>)))
           else Continue (rs1\<lparr>rs_st := need_dollar\<rparr>))"

definition extract_step :: "resp_proc \<Rightarrow> string \<Rightarrow> rs_step" where
  "extract_step rs buf =
     (case rs_st rs of
        need_star \<Rightarrow> step_need_star rs buf
      | need_argc \<Rightarrow> step_need_argc rs buf
      | need_dollar \<Rightarrow> step_need_dollar rs buf
      | need_bulk_len \<Rightarrow> step_need_bulk_len rs buf
      | need_bulk_data \<Rightarrow> step_need_bulk_data rs buf
      | need_bulk_crlf \<Rightarrow> step_need_bulk_crlf rs buf)"

text \<open>Every iteration that goes on moves the position or leaves the state \<open>need_bulk_data\<close>.\<close>

definition loop_measure :: "string \<Rightarrow> resp_proc \<Rightarrow> nat" where
  "loop_measure buf rs = 2 * (length buf - rs_pos rs) + (if rs_st rs = need_bulk_data then 1 else 0)"

lemma parse_int_ok_pos:
  assumes "rs_parse_int_crlf rs buf = (FP_ok, v, rs1)"
  shows "rs_pos rs < rs_pos rs1" "rs_pos rs1 \<le> length buf" "rs_st rs1 = rs_st rs" "rs_cmd_start rs1 = rs_cmd_start rs"
    "rs_argi rs1 = rs_argi rs" "rs_argc rs1 = rs_argc rs" "rs_slices rs1 = rs_slices rs" "rs_bulk_len rs1 = rs_bulk_len rs"
proof -
  obtain nl where nl: "find_char LF (drop (rs_pos rs) buf) = Some nl"
    using assms by (auto simp: rs_parse_int_crlf_def split: if_splits option.splits)
  then have "rs_pos rs + nl < length buf" using find_char_Some [OF nl] by auto
  then show "rs_pos rs < rs_pos rs1" "rs_pos rs1 \<le> length buf" "rs_st rs1 = rs_st rs" "rs_cmd_start rs1 = rs_cmd_start rs"
    "rs_argi rs1 = rs_argi rs" "rs_argc rs1 = rs_argc rs" "rs_slices rs1 = rs_slices rs" "rs_bulk_len rs1 = rs_bulk_len rs"
    using assms nl by (auto simp: rs_parse_int_crlf_def Let_def split: if_splits option.splits prod.splits)
qed

lemma extract_step_measure:
  assumes "extract_step rs buf = Continue rs1"
  shows "loop_measure buf rs1 < loop_measure buf rs"
proof (cases "rs_st rs")
  case need_star
  then show ?thesis using assms
    by (auto simp: extract_step_def step_need_star_def loop_measure_def return_compact_def split: if_splits option.splits prod.splits)
next
  case need_argc
  then show ?thesis using assms parse_int_ok_pos [of rs buf]
    by (fastforce simp: extract_step_def step_need_argc_def loop_measure_def return_resync_def split: if_splits prod.splits)
next
  case need_dollar
  then show ?thesis using assms
    by (auto simp: extract_step_def step_need_dollar_def loop_measure_def return_resync_def split: if_splits prod.splits)
next
  case need_bulk_len
  then show ?thesis using assms parse_int_ok_pos [of rs buf]
    by (fastforce simp: extract_step_def step_need_bulk_len_def loop_measure_def return_resync_def split: if_splits prod.splits)
next
  case need_bulk_data
  then show ?thesis using assms
    by (auto simp: extract_step_def step_need_bulk_data_def loop_measure_def Let_def split: if_splits)
next
  case need_bulk_crlf
  then show ?thesis using assms
    by (auto simp: extract_step_def step_need_bulk_crlf_def loop_measure_def return_resync_def return_compact_def Let_def
        split: if_splits prod.splits option.splits)
qed

function extract_loop :: "resp_proc \<Rightarrow> string \<Rightarrow> resp_proc \<times> string \<times> extracted" where
  "extract_loop rs buf =
     (case extract_step rs buf of
        Continue rs1 \<Rightarrow> extract_loop rs1 buf
      | Return rs1 buf1 e \<Rightarrow> (rs1, buf1, e))"
  by pat_completeness auto
termination
  by (relation "measure (\<lambda>(rs, buf). loop_measure buf rs)") (auto dest: extract_step_measure)

declare extract_loop.simps [simp del]

definition try_extract_request :: "resp_proc \<Rightarrow> string \<Rightarrow> resp_proc \<times> string \<times> extracted" where
  "try_extract_request rs buf =
     extract_loop (if length buf < rs_pos rs then rs\<lparr>rs_pos := length buf\<rparr> else rs) buf"


subsection \<open>Every call consumes input or waits for it\<close>

definition unread :: "resp_proc \<Rightarrow> string \<Rightarrow> string" where
  "unread rs buf = drop (rs_pos rs) buf"

definition weight :: "resp_proc \<Rightarrow> string \<Rightarrow> nat" where
  "weight rs buf = 2 * length (unread rs buf) + (if rs_st rs = need_star then 0 else 1)"

lemma rs_compact_fields:
  assumes "rs_compact rs buf = (rs1, buf1)"
  shows "unread rs1 buf1 = unread rs buf" "rs_st rs1 = rs_st rs" "rs_fault rs1 = rs_fault rs"
    "length buf1 \<le> length buf" "rs_pos rs \<le> length buf \<Longrightarrow> rs_pos rs1 \<le> length buf1"
  using assms by (auto simp: rs_compact_def unread_def split: if_splits)

lemma reset_and_resync_fields:
  assumes "reset_and_resync rs buf = (rs1, buf1)"
  shows "length (unread rs1 buf1) \<le> length (unread rs buf)" "rs_st rs1 = need_star" "rs_fault rs1 = rs_fault rs"
    "length buf1 \<le> length buf" "rs_pos rs \<le> length buf \<Longrightarrow> rs_pos rs1 \<le> length buf1"
    "unread rs1 buf1 = [] \<or> hd (unread rs1 buf1) = CHR ''*''"
proof -
  let ?r = "rs\<lparr>rs_st := need_star\<rparr>"
  obtain p where p: "rs_compact (?r\<lparr>rs_pos := p\<rparr>) buf = (rs1, buf1)" "rs_pos rs \<le> p"
    "rs_pos rs \<le> length buf \<Longrightarrow> p \<le> length buf" "drop p buf = [] \<or> hd (drop p buf) = CHR ''*''"
  proof (cases "length buf \<le> rs_pos rs")
    case True
    then show ?thesis using assms that [of "rs_pos rs"] by (simp add: reset_and_resync_def Let_def)
  next
    case False
    show ?thesis
    proof (cases "find_char (CHR ''*'') (drop (rs_pos rs) buf)")
      case None
      then show ?thesis using False assms that [of "length buf"] by (simp add: reset_and_resync_def Let_def)
    next
      case (Some i)
      from find_char_Some [OF Some] False have "rs_pos rs + i < length buf" "buf ! (rs_pos rs + i) = CHR ''*''" by auto
      then show ?thesis using Some False assms that [of "rs_pos rs + i"]
        by (simp add: reset_and_resync_def Let_def hd_drop_conv_nth)
    qed
  qed
  note f = rs_compact_fields [OF p(1)]
  show "length (unread rs1 buf1) \<le> length (unread rs buf)" using f(1) p(2) by (simp add: unread_def)
  show "rs_st rs1 = need_star" "rs_fault rs1 = rs_fault rs" "length buf1 \<le> length buf" using f by simp_all
  show "rs_pos rs \<le> length buf \<Longrightarrow> rs_pos rs1 \<le> length buf1" using f(5) p(3) by simp
  show "unread rs1 buf1 = [] \<or> hd (unread rs1 buf1) = CHR ''*''" using f(1) p(4) by (simp add: unread_def)
qed


lemma parse_int_not_ok:
  assumes "rs_parse_int_crlf rs buf = (stt, v, rs1)" "stt \<noteq> FP_ok"
  shows "\<exists>f. rs1 = rs\<lparr>rs_fault := f\<rparr> \<and> (stt = FP_need_more \<longrightarrow> rs1 = rs)"
proof -
  have "\<exists>f. r = r\<lparr>rs_fault := f\<rparr>" for r :: resp_proc by (rule exI [of _ "rs_fault r"]) simp
  with assms show ?thesis
    by (auto simp: rs_parse_int_crlf_def Let_def split: if_splits option.splits prod.splits)
qed

lemma return_resync_weight:
  assumes "return_resync rs buf e0 = Return rs1 buf1 e" "rs_st rs \<noteq> need_star"
  shows "weight rs1 buf1 < weight rs buf"
proof -
  obtain r b where rb: "reset_and_resync rs buf = (r, b)" by fastforce
  have "rs1 = r" "buf1 = b" using assms(1) by (simp_all add: return_resync_def rb)
  then show ?thesis using reset_and_resync_fields(1,2) [OF rb] assms(2) by (simp add: weight_def)
qed

lemma return_compact_weight:
  assumes "return_compact rs buf e0 = Return rs1 buf1 e"
  shows "weight rs1 buf1 = weight rs buf"
proof -
  obtain r b where rb: "rs_compact rs buf = (r, b)" by fastforce
  have "rs1 = r" "buf1 = b" using assms(1) by (simp_all add: return_compact_def rb)
  then show ?thesis using rs_compact_fields(1,2) [OF rb] by (simp add: weight_def)
qed

lemma return_shapes:
  "return_resync rs buf e \<noteq> Continue rs1" "return_compact rs buf e \<noteq> Continue rs1"
  "return_resync rs buf e0 = Return rs1 buf1 e \<Longrightarrow> e = e0"
  "return_compact rs buf e0 = Return rs1 buf1 e \<Longrightarrow> e = e0"
  by (auto simp: return_resync_def return_compact_def split: prod.splits)

lemma weight_mono:
  "rs_pos rs \<le> rs_pos rs1 \<Longrightarrow> rs_st rs \<noteq> need_star \<Longrightarrow> weight rs1 buf \<le> weight rs buf"
  "rs_pos rs < rs_pos rs1 \<Longrightarrow> rs_pos rs < length buf \<Longrightarrow> weight rs1 buf < weight rs buf"
  by (auto simp: weight_def unread_def)

lemma parse_case_weight:
  assumes "rs_parse_int_crlf rs buf = (stt, v, rs1)"
    "r = (if stt = FP_need_more then Return rs1 buf No_request
          else if stt \<noteq> FP_ok then return_resync rs1 buf ea
          else if bad then return_resync rs1 buf eb else Continue rsc)"
    "rs_pos rsc = rs_pos rs1" "rs_st rs \<noteq> need_star" "rs_st rsc \<noteq> need_star"
  shows "case r of Continue rs' \<Rightarrow> weight rs' buf \<le> weight rs buf
    | Return rs' buf' e \<Rightarrow> e = No_request \<or> weight rs' buf' < weight rs buf"
proof (cases "stt = FP_ok")
  case True
  note p = parse_int_ok_pos [OF assms(1) [unfolded True]]
  have "weight rs1 buf \<le> weight rs buf" using p(1) assms(4) by (intro weight_mono(1)) simp_all
  moreover have "weight rsc buf \<le> weight rs buf" using p(1) assms(3,4) by (intro weight_mono(1)) simp_all
  moreover have "rs_st rs1 \<noteq> need_star" using p(3) assms(4) by simp
  ultimately show ?thesis
    using True assms(2) return_resync_weight [of rs1 buf eb] return_shapes(1) [of rs1 buf eb]
    by (fastforce split: rs_step.splits if_splits)
next
  case False
  from parse_int_not_ok [OF assms(1) False] have "weight rs1 buf = weight rs buf" "rs_st rs1 = rs_st rs"
    by (auto simp: weight_def unread_def)
  then show ?thesis
    using False assms(2,4) return_resync_weight [of rs1 buf ea] return_shapes(1) [of rs1 buf ea]
    by (fastforce split: rs_step.splits if_splits)
qed

lemma parse_step_weight:
  assumes "rs_st rs = need_argc \<or> rs_st rs = need_bulk_len"
  shows "case extract_step rs buf of Continue rs' \<Rightarrow> weight rs' buf \<le> weight rs buf
    | Return rs' buf' e \<Rightarrow> e = No_request \<or> weight rs' buf' < weight rs buf"
proof -
  obtain stt v rs1 where p: "rs_parse_int_crlf rs buf = (stt, v, rs1)" by (metis prod_cases3)
  show ?thesis
    using assms
  proof
    assume s: "rs_st rs = need_argc"
    then show ?thesis
      by (intro parse_case_weight [OF p, where ea = protocol_error and eb = invalid_argc and bad = "v \<le> 0 \<or> kMaxArgs < v"
          and rsc = "rs1\<lparr>rs_argc := v, rs_argi := 0, rs_slices := [], rs_st := need_dollar\<rparr>"])
        (simp_all add: extract_step_def step_need_argc_def p)
  next
    assume s: "rs_st rs = need_bulk_len"
    then show ?thesis
      by (intro parse_case_weight [OF p, where ea = protocol_error and eb = invalid_bulk_length and bad = "v < 0 \<or> kMaxBulk < v"
          and rsc = "rs1\<lparr>rs_bulk_len := v, rs_st := need_bulk_data\<rparr>"])
        (simp_all add: extract_step_def step_need_bulk_len_def p)
  qed
qed

lemma return_resync_case:
  "rs_st rs \<noteq> need_star \<Longrightarrow> case return_resync rs buf e0 of Continue rs' \<Rightarrow> P rs'
    | Return rs' buf' e \<Rightarrow> e = No_request \<or> weight rs' buf' < weight rs buf"
  using return_resync_weight [of rs buf e0] return_shapes(1) [of rs buf e0] by (simp split: rs_step.split)

lemma return_compact_case:
  "weight rs1 buf < w \<Longrightarrow> case return_compact rs1 buf e0 of Continue rs' \<Rightarrow> P rs'
    | Return rs' buf' e \<Rightarrow> e = No_request \<or> weight rs' buf' < w"
  "case return_compact rs1 buf No_request of Continue rs' \<Rightarrow> P rs'
    | Return rs' buf' e \<Rightarrow> e = No_request \<or> weight rs' buf' < w"
  using return_compact_weight [of rs1 buf] return_shapes(2) [of rs1 buf] return_shapes(4) [of rs1 buf]
  by (fastforce split: rs_step.split)+

lemma extract_step_weight:
  "case extract_step rs buf of Continue rs' \<Rightarrow> weight rs' buf \<le> weight rs buf
    | Return rs' buf' e \<Rightarrow> e = No_request \<or> weight rs' buf' < weight rs buf"
proof (cases "rs_st rs")
  case need_star
  have "weight (rs\<lparr>rs_pos := p\<rparr>) buf < weight rs buf" if "rs_pos rs < length buf" "rs_pos rs < p" for p
    using that by (intro weight_mono(2)) simp_all
  then show ?thesis
    using need_star
    by (auto simp: extract_step_def step_need_star_def return_compact_case weight_def [of "rs\<lparr>rs_cmd_start := x\<rparr>" for x]
        weight_def unread_def split: option.split)
next
  case need_dollar
  then show ?thesis
    by (auto simp: extract_step_def step_need_dollar_def return_resync_case intro: weight_mono(1))
next
  case need_bulk_data
  then show ?thesis
    by (auto simp: extract_step_def step_need_bulk_data_def Let_def intro: weight_mono(1))
next
  case need_bulk_crlf
  then show ?thesis
    by (auto simp: extract_step_def step_need_bulk_crlf_def Let_def return_resync_case return_compact_case
        intro!: weight_mono return_compact_case(1) split: option.split)
qed (simp_all add: parse_step_weight)

lemma extract_loop_weight:
  "case extract_loop rs buf of (rs', buf', e) \<Rightarrow> e = No_request \<or> weight rs' buf' < weight rs buf"
proof (induction rs buf rule: extract_loop.induct)
  case (1 rs buf)
  then show ?case
    using extract_step_weight [of buf rs]
    by (auto simp: extract_loop.simps [of rs buf] split: rs_step.splits)
qed

lemma try_extract_weight:
  assumes "try_extract_request rs buf = (rs', buf', e)" "e \<noteq> No_request"
  shows "weight rs' buf' < weight rs buf"
proof -
  let ?r = "if length buf < rs_pos rs then rs\<lparr>rs_pos := length buf\<rparr> else rs"
  have "weight ?r buf = weight rs buf" by (simp add: weight_def unread_def)
  then show ?thesis using extract_loop_weight [of ?r buf] assms by (simp add: try_extract_request_def)
qed

text \<open>
  The requests that \<open>read_loop_impl\<close> takes out of its buffer after a read, in order, and
  whether the extraction threw.
\<close>

function extract_all :: "resp_proc \<Rightarrow> string \<Rightarrow> resp_proc \<times> string \<times> parsed_request list \<times> bool" where
  "extract_all rs buf =
     (case try_extract_request rs buf of
        (rs1, buf1, No_request) \<Rightarrow> (rs1, buf1, [], False)
      | (rs1, buf1, Thrown) \<Rightarrow> (rs1, buf1, [], True)
      | (rs1, buf1, Request q) \<Rightarrow>
          (case extract_all rs1 buf1 of (rs2, buf2, qs, thrown) \<Rightarrow> (rs2, buf2, q # qs, thrown)))"
  by pat_completeness auto
termination
  by (relation "measure (\<lambda>(rs, buf). weight rs buf)") (auto intro!: try_extract_weight [OF sym])

declare extract_all.simps [simp del]

text \<open>The requests of a whole connection: an empty chunk is the end of the input.\<close>

fun read_requests :: "resp_proc \<Rightarrow> string \<Rightarrow> string list \<Rightarrow> parsed_request list" where
  "read_requests rs buf [] = []"
| "read_requests rs buf (chunk # cs) =
     (if chunk = [] then []
      else
        case extract_all rs (buf @ chunk) of
          (rs1, buf1, qs, thrown) \<Rightarrow> if thrown then qs else qs @ read_requests rs1 buf1 cs)"

end
