(* ===== verification/Resp_Session.thy ===== *)
theory Resp_Session
  imports Resp_Stream
begin

text \<open>
  What \<open>RespStreamProcessor\<close> guarantees: the well-formedness of its state, the shape of the
  requests it hands out, and that it hands out exactly the commands that a client sent,
  however the network cut them into chunks.
\<close>

subsection \<open>Well-formed states\<close>

definition slice_ok :: "nat \<Rightarrow> nat \<Rightarrow> slice \<Rightarrow> bool" where
  "slice_ok lo hi sl \<longleftrightarrow> lo \<le> unat (sl_off sl) \<and> unat (sl_off sl) + unat (sl_len sl) \<le> hi
     \<and> unat (sl_len sl) \<le> nat kMaxBulk"

definition rs_wf :: "resp_proc \<Rightarrow> string \<Rightarrow> bool" where
  "rs_wf rs buf \<longleftrightarrow> rs_pos rs \<le> length buf
     \<and> (rs_st rs \<noteq> need_star \<longrightarrow> rs_cmd_start rs < rs_pos rs \<and> buf ! rs_cmd_start rs = CHR ''*'')
     \<and> (rs_st rs \<notin> {need_star, need_argc} \<longrightarrow>
          0 \<le> rs_argi rs \<and> rs_argi rs < rs_argc rs \<and> rs_argc rs \<le> kMaxArgs
          \<and> int (length (rs_slices rs)) = rs_argi rs + (if rs_st rs = need_bulk_crlf then 1 else 0)
          \<and> list_all (slice_ok (rs_cmd_start rs) (rs_pos rs)) (rs_slices rs))
     \<and> (rs_st rs = need_bulk_data \<longrightarrow> 0 \<le> rs_bulk_len rs \<and> rs_bulk_len rs \<le> kMaxBulk)"

definition error_requests :: "extracted list" where
  "error_requests = [protocol_error, invalid_argc, invalid_bulk_length]"

definition command_request :: "parsed_request \<Rightarrow> bool" where
  "command_request q \<longleftrightarrow> req_argv q \<noteq> [] \<and> int (length (req_argv q)) \<le> kMaxArgs
     \<and> (\<forall>a \<in> set (req_argv q). int (length a) \<le> kMaxBulk)
     \<and> req_frame q \<noteq> [] \<and> hd (req_frame q) = CHR ''*''"

definition extracted_ok :: "extracted \<Rightarrow> bool" where
  "extracted_ok e \<longleftrightarrow> e = No_request \<or> e \<in> set error_requests \<or> (\<exists>q. e = Request q \<and> command_request q)"

lemma error_requests_ok: "extracted_ok protocol_error" "extracted_ok invalid_argc" "extracted_ok invalid_bulk_length"
  "extracted_ok No_request"
  by (simp_all add: extracted_ok_def error_requests_def)

lemma slice_ok_mono: "slice_ok lo hi sl \<Longrightarrow> hi \<le> hi' \<Longrightarrow> slice_ok lo hi' sl"
  by (simp add: slice_ok_def)

lemma slices_ok_mono: "list_all (slice_ok lo hi) sls \<Longrightarrow> hi \<le> hi' \<Longrightarrow> list_all (slice_ok lo hi') sls"
  by (auto simp: list_all_iff intro: slice_ok_mono)

lemma rs_wf_star: "rs_st rs = need_star \<Longrightarrow> rs_wf rs buf \<longleftrightarrow> rs_pos rs \<le> length buf"
  by (simp add: rs_wf_def)

lemma rs_wf_append: "rs_wf rs buf \<Longrightarrow> rs_wf rs (buf @ fut)"
  by (auto simp: rs_wf_def nth_append)

lemma new_resp_proc_wf: "rs_wf new_resp_proc buf"
  by (simp add: rs_wf_def new_resp_proc_def)

definition step_wf :: "string \<Rightarrow> rs_step \<Rightarrow> bool" where
  "step_wf buf r \<longleftrightarrow>
     (case r of Continue rs' \<Rightarrow> rs_wf rs' buf
      | Return rs' buf' e \<Rightarrow> rs_wf rs' buf' \<and> length buf' \<le> length buf \<and> extracted_ok e)"

lemma return_resync_wf:
  assumes "rs_pos rs \<le> length buf" "extracted_ok e"
  shows "step_wf buf (return_resync rs buf e)"
proof -
  obtain r b where rb: "reset_and_resync rs buf = (r, b)" by fastforce
  show ?thesis
    using reset_and_resync_fields [OF rb] assms by (simp add: step_wf_def return_resync_def rb rs_wf_star)
qed

lemma return_compact_wf:
  assumes "rs_pos rs \<le> length buf" "rs_st rs = need_star" "extracted_ok e"
  shows "step_wf buf (return_compact rs buf e)"
proof -
  obtain r b where rb: "rs_compact rs buf = (r, b)" by fastforce
  show ?thesis
    using rs_compact_fields [OF rb] assms by (simp add: step_wf_def return_compact_def rb rs_wf_star)
qed

subsection \<open>Cutting the arguments out of the frame\<close>

definition slice_text :: "string \<Rightarrow> slice \<Rightarrow> sstring" where
  "slice_text buf sl = take (unat (sl_len sl)) (drop (unat (sl_off sl)) buf)"

lemma unat_ucast_32_64: "unat (ucast (w :: u32) :: u64) = unat w"
  by transfer simp

lemma rel_off:
  assumes "lo \<le> unat (off :: u32)"
  shows "unat (ucast off - of_nat lo :: u64) = unat off - lo"
proof -
  have l: "lo < 2 ^ 64" using assms unsigned_less [of off, where 'a = nat] by simp
  then have "(of_nat lo :: u64) \<le> ucast off"
    using assms by (simp add: word_le_nat_alt unat_of_nat unat_ucast_32_64)
  then show ?thesis using l by (simp add: unat_sub unat_of_nat unat_ucast_32_64)
qed

lemma cut_slices_frame:
  assumes "list_all (slice_ok lo hi) sls" "hi \<le> length buf"
  shows "cut_slices lo (take (hi - lo) (drop lo buf)) sls = Some (map (slice_text buf) sls)"
  using assms(1)
proof (induction sls)
  case (Cons sl sls)
  then have s: "lo \<le> unat (sl_off sl)" "unat (sl_off sl) + unat (sl_len sl) \<le> hi" by (simp_all add: slice_ok_def)
  then have "take (unat (sl_len sl)) (drop (unat (sl_off sl) - lo) (take (hi - lo) (drop lo buf))) = slice_text buf sl"
    by (simp add: slice_text_def drop_take min_def)
  with Cons s assms(2) show ?case by (simp add: substr_def rel_off)
qed simp

lemma slice_text_length: "slice_ok lo hi sl \<Longrightarrow> length (slice_text buf sl) \<le> unat (sl_len sl)"
  by (simp add: slice_text_def)


lemma new_slice_ok:
  assumes "lo < p" "p + bl \<le> length buf" "length buf < 2 ^ 32" "int bl \<le> kMaxBulk"
  shows "slice_ok lo (p + bl) \<lparr>sl_off = of_nat p, sl_len = of_nat bl\<rparr>"
    "slice_text buf \<lparr>sl_off = of_nat p, sl_len = of_nat bl\<rparr> = take bl (drop p buf)"
proof -
  have "unat (of_nat p :: u32) = p" "unat (of_nat bl :: u32) = bl"
    using assms by (simp_all add: unat_of_nat)
  then show "slice_ok lo (p + bl) \<lparr>sl_off = of_nat p, sl_len = of_nat bl\<rparr>"
    "slice_text buf \<lparr>sl_off = of_nat p, sl_len = of_nat bl\<rparr> = take bl (drop p buf)"
    using assms by (simp_all add: slice_ok_def slice_text_def)
qed

subsection \<open>Every step keeps the state well formed\<close>

lemma parse_int_wf:
  assumes "rs_wf rs buf" "rs_parse_int_crlf rs buf = (stt, v, rs1)"
  shows "rs_wf rs1 buf" "rs_pos rs1 \<le> length buf"
proof -
  show "rs_wf rs1 buf"
  proof (cases "stt = FP_ok")
    case True
    note p = parse_int_ok_pos [OF assms(2) [unfolded True]]
    have "list_all (slice_ok lo (rs_pos rs1)) sls" if "list_all (slice_ok lo (rs_pos rs)) sls" for lo sls
      using slices_ok_mono [OF that] p(1) by simp
    from this [of "rs_cmd_start rs" "rs_slices rs"] show ?thesis using assms(1) p(1,2) by (simp add: rs_wf_def p(3-8)) (metis less_trans)
  next
    case False
    then obtain f where "rs1 = rs\<lparr>rs_fault := f\<rparr>" using parse_int_not_ok [OF assms(2)] by blast
    then show ?thesis using assms(1) by (simp add: rs_wf_def)
  qed
  then show "rs_pos rs1 \<le> length buf" by (simp add: rs_wf_def)
qed

lemma need_star_wf:
  assumes "rs_wf rs buf" "rs_st rs = need_star"
  shows "step_wf buf (step_need_star rs buf)"
proof -
  have c: "step_wf buf (return_compact (rs\<lparr>rs_pos := p\<rparr>) buf protocol_error)" if "p \<le> length buf" for p
    using that assms(2) by (intro return_compact_wf) (simp_all add: error_requests_ok)
  have n: "step_wf buf (return_compact rs buf No_request)"
    using assms by (intro return_compact_wf) (simp_all add: error_requests_ok rs_wf_star)
  have "rs_pos rs + nl + 1 \<le> length buf" if "find_char LF (drop (rs_pos rs) buf) = Some nl" for nl
    using find_char_Some [OF that] by auto
  with c n show ?thesis
    by (auto simp: step_need_star_def step_wf_def [of buf "Continue r" for r] rs_wf_def split: option.split)
qed

lemma need_argc_wf:
  assumes "rs_wf rs buf" "rs_st rs = need_argc"
  shows "step_wf buf (step_need_argc rs buf)"
proof -
  obtain stt v rs1 where p: "rs_parse_int_crlf rs buf = (stt, v, rs1)" by (metis prod_cases3)
  note w = parse_int_wf [OF assms(1) p]
  have "rs_st rs1 = need_argc"
    using p assms(2) parse_int_ok_pos(3) [of rs buf v rs1] parse_int_not_ok [OF p] by (cases "stt = FP_ok") auto
  then have "rs_wf (rs1\<lparr>rs_argc := v, rs_argi := 0, rs_slices := [], rs_st := need_dollar\<rparr>) buf"
    if "0 < v" "v \<le> kMaxArgs"
    using that w by (simp add: rs_wf_def)
  then show ?thesis
    using w by (simp add: step_need_argc_def p return_resync_wf error_requests_ok step_wf_def [of buf "Return r b e" for r b e]
        step_wf_def [of buf "Continue r" for r])
qed

lemma need_dollar_wf: "rs_wf rs buf \<Longrightarrow> rs_st rs = need_dollar \<Longrightarrow> step_wf buf (step_need_dollar rs buf)"
  by (auto simp: step_need_dollar_def error_requests_ok step_wf_def [of buf "Continue rs'" for rs'] step_wf_def [of buf "Return r b e" for r b e]
      rs_wf_def intro!: return_resync_wf elim: slices_ok_mono)

lemma need_bulk_len_wf:
  assumes "rs_wf rs buf" "rs_st rs = need_bulk_len"
  shows "step_wf buf (step_need_bulk_len rs buf)"
proof -
  obtain stt v rs1 where p: "rs_parse_int_crlf rs buf = (stt, v, rs1)" by (metis prod_cases3)
  note w = parse_int_wf [OF assms(1) p]
  have "rs_st rs1 = need_bulk_len"
    using p assms(2) parse_int_ok_pos(3) [of rs buf v rs1] parse_int_not_ok [OF p] by (cases "stt = FP_ok") auto
  then have "rs_wf (rs1\<lparr>rs_bulk_len := v, rs_st := need_bulk_data\<rparr>) buf" if "0 \<le> v" "v \<le> kMaxBulk"
    using that w by (simp add: rs_wf_def)
  then show ?thesis
    using w by (simp add: step_need_bulk_len_def p return_resync_wf error_requests_ok step_wf_def [of buf "Return r b e" for r b e]
        step_wf_def [of buf "Continue r" for r])
qed

lemma need_bulk_data_wf:
  assumes "rs_wf rs buf" "rs_st rs = need_bulk_data" "length buf < 2 ^ 32"
  shows "step_wf buf (step_need_bulk_data rs buf)"
proof -
  let ?bl = "nat (rs_bulk_len rs)" and ?p = "rs_pos rs"
  have "slice_ok (rs_cmd_start rs) (?p + ?bl) \<lparr>sl_off = of_nat ?p, sl_len = of_nat ?bl\<rparr>"
    if "?p + ?bl \<le> length buf"
    using that assms by (intro new_slice_ok(1)) (simp_all add: rs_wf_def)
  then show ?thesis
    using assms(1,2)
    by (auto simp: step_need_bulk_data_def Let_def step_wf_def rs_wf_def error_requests_ok not_less elim: slices_ok_mono)
qed

lemma need_bulk_crlf_wf:
  assumes "rs_wf rs buf" "rs_st rs = need_bulk_crlf"
  shows "step_wf buf (step_need_bulk_crlf rs buf)"
proof -
  let ?lo = "rs_cmd_start rs" and ?hi = "rs_pos rs + 2"
  let ?frame = "take (?hi - ?lo) (drop ?lo buf)"
  have w: "?lo < rs_pos rs" "rs_pos rs \<le> length buf" "buf ! ?lo = CHR ''*''"
    "list_all (slice_ok ?lo (rs_pos rs)) (rs_slices rs)" "int (length (rs_slices rs)) = rs_argi rs + 1"
    "0 \<le> rs_argi rs" "rs_argi rs < rs_argc rs" "rs_argc rs \<le> kMaxArgs"
    using assms by (auto simp: rs_wf_def)
  have sl: "list_all (slice_ok ?lo ?hi) (rs_slices rs)" by (rule slices_ok_mono [OF w(4)]) simp
  have ok: "extracted_ok (Request \<lparr>req_frame = ?frame, req_argv = map (slice_text buf) (rs_slices rs)\<rparr>)"
    if "?hi \<le> length buf"
  proof -
    have "?frame \<noteq> []" "hd ?frame = CHR ''*''" using w(1-3) that by (simp_all add: hd_drop_conv_nth)
    moreover have "int (length (slice_text buf s)) \<le> kMaxBulk" if "s \<in> set (rs_slices rs)" for s
    proof -
      have "slice_ok ?lo ?hi s" using sl that by (simp add: list_all_iff)
      then show ?thesis using slice_text_length [of ?lo ?hi s buf] by (simp add: slice_ok_def kMaxBulk_def)
    qed
    ultimately show ?thesis using w(5-8) by (auto simp: extracted_ok_def command_request_def)
  qed
  show ?thesis
    using w ok sl cut_slices_frame [OF sl, of buf]
    by (auto simp: step_need_bulk_crlf_def Let_def substr_def error_requests_ok not_less
        intro!: return_resync_wf return_compact_wf) (auto simp: step_wf_def rs_wf_def error_requests_ok assms)
qed

lemma extract_step_wf: "rs_wf rs buf \<Longrightarrow> length buf < 2 ^ 32 \<Longrightarrow> step_wf buf (extract_step rs buf)"
  by (cases "rs_st rs") (simp_all add: extract_step_def need_star_wf need_argc_wf need_dollar_wf need_bulk_len_wf
      need_bulk_data_wf need_bulk_crlf_wf)

lemma extract_loop_wf:
  assumes "rs_wf rs buf" "length buf < 2 ^ 32"
  shows "case extract_loop rs buf of (rs', buf', e) \<Rightarrow> rs_wf rs' buf' \<and> length buf' \<le> length buf \<and> extracted_ok e"
  using assms
proof (induction rs buf rule: extract_loop.induct)
  case (1 rs buf)
  then show ?case
    using extract_step_wf [OF "1.prems"] by (auto simp: extract_loop.simps [of rs buf] step_wf_def split: rs_step.splits)
qed

lemma try_extract_wf:
  assumes "rs_wf rs buf" "length buf < 2 ^ 32" "try_extract_request rs buf = (rs', buf', e)"
  shows "rs_wf rs' buf'" "length buf' \<le> length buf" "extracted_ok e"
  using assms extract_loop_wf [OF assms(1,2)] by (auto simp: try_extract_request_def rs_wf_def)


subsection \<open>Reading a number from the stream\<close>

lemma digits_value_mono: "v \<le> digits_value v ds"
proof (induction ds arbitrary: v)
  case (Cons c ds)
  have "v \<le> v * 10 + digit_val c" by simp
  also have "\<dots> \<le> digits_value (v * 10 + digit_val c) ds" by (rule Cons.IH)
  finally show ?case by simp
qed simp

lemma wrap_i64_id: "0 \<le> v \<Longrightarrow> v < 2 ^ 63 \<Longrightarrow> wrap_i64 v = v"
  unfolding wrap_i64_def by (rule signed_take_bit_int_eq_self) simp_all

lemma accumulate_digits:
  assumes "\<forall>c \<in> set ds. is_digit c" "digits_value v ds < 2 ^ 63"
  shows "accumulate (int v) False ds = (Some (int (digits_value v ds)), False)"
  using assms
proof (induction ds arbitrary: v)
  case (Cons c ds)
  define w where "w = v * 10 + digit_val c"
  have p: "digits_value w ds < 2 ^ 63" using Cons.prems(2) by (simp only: w_def digits_value.simps)
  have "w < 2 ^ 63" by (rule le_less_trans [OF digits_value_mono p])
  then have "int w < int (2 ^ 63)" by (simp only: of_nat_less_iff)
  then have "wrap_i64 (int w) = int w" by (intro wrap_i64_id) simp_all
  moreover have "int v * 10 + int (digit_val c) = int w" by (simp add: w_def)
  ultimately have "accumulate (int v) False (c # ds) = accumulate (int w) False ds"
    using Cons.prems(1) by (simp add: Let_def)
  moreover have "digits_value v (c # ds) = digits_value w ds" by (simp add: w_def)
  ultimately show ?case using Cons.IH [OF _ p] Cons.prems(1) by (simp del: accumulate.simps digits_value.simps)
qed simp

lemma rs_parse_number:
  assumes "unread rs buf = to_string n @ [CR, LF] @ r" "n < 2 ^ 63"
  shows "rs_parse_int_crlf rs buf = (FP_ok, int n, rs\<lparr>rs_pos := rs_pos rs + length (to_string n) + 2\<rparr>)"
proof -
  let ?d = "to_string n"
  have d: "drop (rs_pos rs) buf = (?d @ [CR]) @ LF # r" using assms(1) by (simp add: unread_def)
  have f: "find_char LF (drop (rs_pos rs) buf) = Some (length (?d @ [CR]))"
    unfolding d by (intro find_char_append) simp
  have l: "\<not> length buf \<le> rs_pos rs" using d by (intro notI) simp
  have t: "take (length (?d @ [CR])) (drop (rs_pos rs) buf) = ?d @ [CR]" by (simp add: d)
  have h: "hd (?d @ [CR]) \<noteq> CHR ''-''" using hd_to_string [of n] by simp
  have "accumulate 0 False ?d = (Some (int n), False)"
    using accumulate_digits [of ?d 0] to_string_digits [of n] assms(2) by (simp add: digits_value_to_string)
  then show ?thesis
    using f l t h by (simp add: rs_parse_int_crlf_def Let_def del: length_append take_append) simp
qed

lemma rs_parse_partial:
  assumes "unread rs buf @ fut = to_string n @ [CR, LF] @ r" "length (unread rs buf) < length (to_string n) + 2"
  shows "rs_parse_int_crlf rs buf = (FP_need_more, 0, rs)"
proof -
  have "unread rs buf @ fut = (to_string n @ [CR]) @ [LF] @ r" using assms(1) by simp
  then obtain us where "to_string n @ [CR] = unread rs buf @ us"
  proof (cases rule: prefix_cases)
    case (1 us)
    have "length (unread rs buf) = length (to_string n) + 1 + length us" by (simp add: 1(1))
    then have "us = []" using assms(2) by simp
    then show ?thesis using 1 that [of "[]"] by simp
  qed (use that in blast)
  then have "set (unread rs buf) \<subseteq> set (to_string n @ [CR])" by (metis set_append Un_upper1)
  then have "LF \<notin> set (unread rs buf)" by auto
  then show ?thesis by (simp add: rs_parse_int_crlf_def unread_def find_char_None [symmetric])
qed

subsection \<open>A command in progress\<close>

text \<open>The bytes of the current command that are still to be consumed.\<close>

definition rs_expect :: "resp_proc \<Rightarrow> sstring list \<Rightarrow> string" where
  "rs_expect rs args =
     (let i = nat (rs_argi rs); later = enc_bulks (drop (Suc i) args)
      in case rs_st rs of
           need_star \<Rightarrow> enc_array args
         | need_argc \<Rightarrow> to_string (length args) @ [CR, LF] @ enc_bulks args
         | need_dollar \<Rightarrow> enc_bulk (args ! i) @ later
         | need_bulk_len \<Rightarrow> to_string (length (args ! i)) @ [CR, LF] @ args ! i @ [CR, LF] @ later
         | need_bulk_data \<Rightarrow> args ! i @ [CR, LF] @ later
         | need_bulk_crlf \<Rightarrow> [CR, LF] @ later)"

definition rs_at :: "resp_proc \<Rightarrow> string \<Rightarrow> sstring list \<Rightarrow> bool" where
  "rs_at rs buf args \<longleftrightarrow>
     (rs_st rs \<noteq> need_star \<longrightarrow>
        take (rs_pos rs - rs_cmd_start rs) (drop (rs_cmd_start rs) buf) @ rs_expect rs args = enc_array args)
     \<and> (rs_st rs \<notin> {need_star, need_argc} \<longrightarrow>
        rs_argc rs = int (length args) \<and> map (slice_text buf) (rs_slices rs) = take (length (rs_slices rs)) args)
     \<and> (rs_st rs = need_bulk_data \<longrightarrow> rs_bulk_len rs = int (length (args ! nat (rs_argi rs))))"

definition cmd_ok :: "sstring list \<Rightarrow> bool" where
  "cmd_ok args \<longleftrightarrow> args \<noteq> [] \<and> int (length args) \<le> kMaxArgs \<and> (\<forall>a \<in> set args. int (length a) \<le> kMaxBulk)"

text \<open>
  The processor is inside the command \<open>args\<close> (or in front of it), \<open>fut\<close> are the bytes
  that the network has not delivered yet, and \<open>rest\<close> follows the command.
\<close>

definition at_cmd :: "resp_proc \<Rightarrow> string \<Rightarrow> string \<Rightarrow> sstring list \<Rightarrow> string \<Rightarrow> bool" where
  "at_cmd rs buf fut args rest \<longleftrightarrow>
     rs_wf rs buf \<and> \<not> rs_fault rs \<and> length buf + length fut < 2 ^ 32 \<and> cmd_ok args \<and> rs_at rs buf args
     \<and> unread rs buf @ fut = rs_expect rs args @ rest"


definition step_at :: "string \<Rightarrow> string \<Rightarrow> sstring list \<Rightarrow> string \<Rightarrow> rs_step \<Rightarrow> bool" where
  "step_at buf fut args rest r \<longleftrightarrow>
     (case r of
        Continue rs' \<Rightarrow> at_cmd rs' buf fut args rest
      | Return rs' buf' e \<Rightarrow>
          (e = No_request \<and> at_cmd rs' buf' fut args rest \<and> length rest < length fut)
          \<or> (e = Request \<lparr>req_frame = enc_array args, req_argv = args\<rparr> \<and> rs_st rs' = need_star \<and> \<not> rs_fault rs'
             \<and> unread rs' buf' @ fut = rest \<and> rs_wf rs' buf' \<and> length buf' \<le> length buf))"

text \<open>Consuming \<open>k\<close> bytes of the expected ones.\<close>

lemma take_more:
  assumes "lo \<le> p" "unread rs buf = xs @ ys" "p = rs_pos rs"
  shows "take (p + length xs - lo) (drop lo buf) = take (p - lo) (drop lo buf) @ xs"
proof -
  have "drop p buf = xs @ ys" using assms(2,3) by (simp add: unread_def)
  then have "take (length xs) (drop p buf) = xs" by simp
  moreover have "p + length xs - lo = (p - lo) + length xs" "drop (p - lo) (drop lo buf) = drop p buf"
    using assms(1) by simp_all
  ultimately show ?thesis by (simp only: take_add)
qed

lemma consume:
  assumes "at_cmd rs buf fut args rest" "rs_expect rs args = xs @ ys" "length xs \<le> length (unread rs buf)"
    "rs_st rs \<noteq> need_star"
  shows "\<exists>zs. unread rs buf = xs @ zs \<and> zs @ fut = ys @ rest \<and> drop (rs_pos rs + length xs) buf = zs
    \<and> take (rs_pos rs + length xs - rs_cmd_start rs) (drop (rs_cmd_start rs) buf) @ ys = enc_array args"
proof -
  have "unread rs buf @ fut = xs @ (ys @ rest)" using assms(1,2) by (simp add: at_cmd_def)
  then obtain zs where z: "unread rs buf = xs @ zs" "zs @ fut = ys @ rest"
  proof (cases rule: prefix_cases)
    case (2 us)
    have "length xs = length (unread rs buf) + length us" by (simp add: 2(1))
    then show ?thesis using 2(2) assms(3) by simp
  qed (use that in blast)
  have "drop (rs_pos rs + length xs) buf = drop (length xs) (unread rs buf)"
    by (simp add: unread_def add.commute)
  then have "drop (rs_pos rs + length xs) buf = zs" by (simp add: z(1))
  moreover have "rs_cmd_start rs \<le> rs_pos rs" using assms(1,4) by (simp add: at_cmd_def rs_wf_def)
  moreover have "take (rs_pos rs - rs_cmd_start rs) (drop (rs_cmd_start rs) buf) @ (xs @ ys) = enc_array args"
    using assms(1,2,4) by (simp add: at_cmd_def rs_at_def)
  ultimately show ?thesis using take_more [OF _ z(1) refl] z by simp
qed

lemma not_enough:
  assumes "at_cmd rs buf fut args rest" "rs_expect rs args = xs @ ys" "length (unread rs buf) < length xs"
  shows "length rest < length fut"
proof -
  have "unread rs buf @ fut = (xs @ ys) @ rest" using assms(1,2) by (simp add: at_cmd_def)
  then have "length (unread rs buf @ fut) = length ((xs @ ys) @ rest)" by (simp only:)
  then show ?thesis using assms(3) by simp
qed


subsection \<open>One step inside a command\<close>

lemma at_cmd_argi:
  assumes "at_cmd rs buf fut args rest" "rs_st rs \<notin> {need_star, need_argc}"
  shows "nat (rs_argi rs) < length args" "int (length (args ! nat (rs_argi rs))) \<le> kMaxBulk"
    "rs_argc rs = int (length args)" "0 \<le> rs_argi rs"
proof -
  show i: "nat (rs_argi rs) < length args" "rs_argc rs = int (length args)" "0 \<le> rs_argi rs"
    using assms by (auto simp: at_cmd_def rs_wf_def rs_at_def)
  then show "int (length (args ! nat (rs_argi rs))) \<le> kMaxBulk"
    using assms(1) by (simp add: at_cmd_def cmd_ok_def)
qed

lemma kMax_small: "int n \<le> kMaxBulk \<Longrightarrow> n < 2 ^ 63" "int n \<le> kMaxArgs \<Longrightarrow> n < 2 ^ 63"
  by (simp_all add: kMaxBulk_def kMaxArgs_def)

lemma step_argc_at:
  assumes a: "at_cmd rs buf fut args rest" and s: "rs_st rs = need_argc"
  shows "step_at buf fut args rest (extract_step rs buf)"
proof -
  let ?xs = "to_string (length args) @ [CR, LF]"
  have e: "rs_expect rs args = ?xs @ enc_bulks args" by (simp add: rs_expect_def s)
  have c: "args \<noteq> []" "int (length args) \<le> kMaxArgs" using a by (simp_all add: at_cmd_def cmd_ok_def)
  note w = extract_step_wf [of rs buf]
  show ?thesis
  proof (cases "length (unread rs buf) < length ?xs")
    case True
    have "rs_parse_int_crlf rs buf = (FP_need_more, 0, rs)"
      using a e True by (intro rs_parse_partial [where n = "length args" and fut = fut and r = "enc_bulks args @ rest"]) (simp_all add: at_cmd_def)
    then show ?thesis
      using a not_enough [OF a e True] by (simp add: step_at_def extract_step_def s step_need_argc_def)
  next
    case False
    then have "length ?xs \<le> length (unread rs buf)" by (simp only: not_less)
    from consume [OF a e this] s obtain zs where z: "unread rs buf = ?xs @ zs" "zs @ fut = enc_bulks args @ rest"
      "drop (rs_pos rs + length ?xs) buf = zs"
      "take (rs_pos rs + length ?xs - rs_cmd_start rs) (drop (rs_cmd_start rs) buf) @ enc_bulks args = enc_array args"
      by (simp only: simp_thms rs_st.distinct not_False_eq_True) blast
    have "rs_parse_int_crlf rs buf = (FP_ok, int (length args), rs\<lparr>rs_pos := rs_pos rs + length ?xs\<rparr>)"
      using rs_parse_number [of rs buf "length args" zs] z(1) kMax_small(2) [OF c(2)] by simp
    then have st: "extract_step rs buf = Continue (rs\<lparr>rs_pos := rs_pos rs + length ?xs, rs_argc := int (length args),
        rs_argi := 0, rs_slices := [], rs_st := need_dollar\<rparr>)" (is "_ = Continue ?r")
      using c by (simp add: extract_step_def s step_need_argc_def)
    have "rs_expect ?r args = enc_bulks args" using c(1) by (cases args) (simp_all add: rs_expect_def)
    then have "rs_at ?r buf args" "unread ?r buf @ fut = rs_expect ?r args @ rest"
      using z by (simp_all add: rs_at_def unread_def)
    then show ?thesis using a w by (simp add: step_at_def st at_cmd_def step_wf_def)
  qed
qed

lemma step_dollar_at:
  assumes a: "at_cmd rs buf fut args rest" and s: "rs_st rs = need_dollar"
  shows "step_at buf fut args rest (extract_step rs buf)"
proof -
  let ?b = "args ! nat (rs_argi rs)"
  let ?ys = "to_string (length ?b) @ [CR, LF] @ ?b @ [CR, LF] @ enc_bulks (drop (Suc (nat (rs_argi rs))) args)"
  have e: "rs_expect rs args = ''$'' @ ?ys" by (simp add: rs_expect_def s enc_bulk_def [of ?b] Let_def)
  note w = extract_step_wf [of rs buf]
  show ?thesis
  proof (cases "length (unread rs buf) < length ''$''")
    case True
    then show ?thesis
      using a not_enough [OF a e True] by (simp add: step_at_def extract_step_def s step_need_dollar_def unread_def)
  next
    case False
    then have "length ''$'' \<le> length (unread rs buf)" by (simp only: not_less)
    from consume [OF a e this] s obtain zs where z: "unread rs buf = ''$'' @ zs" "zs @ fut = ?ys @ rest" "drop (rs_pos rs + length ''$'') buf = zs"
      "take (rs_pos rs + length ''$'' - rs_cmd_start rs) (drop (rs_cmd_start rs) buf) @ ?ys = enc_array args"
      by (simp only: simp_thms rs_st.distinct not_False_eq_True) blast
    have "\<not> length buf \<le> rs_pos rs" using z(1) by (auto simp: unread_def)
    moreover have "buf ! rs_pos rs = CHR ''$''" using z(1) calculation by (metis unread_def hd_drop_conv_nth append_Cons list.sel(1) not_le)
    ultimately have st: "extract_step rs buf = Continue (rs\<lparr>rs_pos := rs_pos rs + 1, rs_st := need_bulk_len\<rparr>)" (is "_ = Continue ?r")
      by (simp add: extract_step_def s step_need_dollar_def)
    have "rs_expect ?r args = ?ys" by (simp add: rs_expect_def Let_def)
    then have "rs_at ?r buf args" "unread ?r buf @ fut = rs_expect ?r args @ rest"
      using z a s by (simp_all add: rs_at_def unread_def at_cmd_def)
    then show ?thesis using a w by (simp add: step_at_def st at_cmd_def step_wf_def)
  qed
qed


lemma step_bulk_len_at:
  assumes a: "at_cmd rs buf fut args rest" and s: "rs_st rs = need_bulk_len"
  shows "step_at buf fut args rest (extract_step rs buf)"
proof -
  let ?b = "args ! nat (rs_argi rs)"
  let ?xs = "to_string (length ?b) @ [CR, LF]"
  let ?ys = "?b @ [CR, LF] @ enc_bulks (drop (Suc (nat (rs_argi rs))) args)"
  have e: "rs_expect rs args = ?xs @ ?ys" by (simp add: rs_expect_def s Let_def)
  have b: "int (length ?b) \<le> kMaxBulk" using at_cmd_argi(2) [OF a] s by simp
  note w = extract_step_wf [of rs buf]
  show ?thesis
  proof (cases "length (unread rs buf) < length ?xs")
    case True
    have "rs_parse_int_crlf rs buf = (FP_need_more, 0, rs)"
      using a e True
      by (intro rs_parse_partial [where n = "length ?b" and fut = fut and r = "?ys @ rest"]) (simp_all add: at_cmd_def)
    then show ?thesis
      using a not_enough [OF a e True] by (simp add: step_at_def extract_step_def s step_need_bulk_len_def)
  next
    case False
    then have "length ?xs \<le> length (unread rs buf)" by (simp only: not_less)
    from consume [OF a e this] s obtain zs where z: "unread rs buf = ?xs @ zs" "zs @ fut = ?ys @ rest"
      "drop (rs_pos rs + length ?xs) buf = zs"
      "take (rs_pos rs + length ?xs - rs_cmd_start rs) (drop (rs_cmd_start rs) buf) @ ?ys = enc_array args"
      by (simp only: simp_thms rs_st.distinct not_False_eq_True) blast
    have "rs_parse_int_crlf rs buf = (FP_ok, int (length ?b), rs\<lparr>rs_pos := rs_pos rs + length ?xs\<rparr>)"
      using rs_parse_number [of rs buf "length ?b" zs] z(1) kMax_small(1) [OF b] by simp
    then have st: "extract_step rs buf = Continue (rs\<lparr>rs_pos := rs_pos rs + length ?xs, rs_bulk_len := int (length ?b),
        rs_st := need_bulk_data\<rparr>)" (is "_ = Continue ?r")
      using b by (simp add: extract_step_def s step_need_bulk_len_def)
    have "rs_expect ?r args = ?ys" by (simp add: rs_expect_def Let_def)
    then have "rs_at ?r buf args" "unread ?r buf @ fut = rs_expect ?r args @ rest"
      using z a s by (simp_all add: rs_at_def unread_def at_cmd_def)
    then show ?thesis using a w by (simp add: step_at_def st at_cmd_def step_wf_def)
  qed
qed

lemma step_bulk_data_at:
  assumes a: "at_cmd rs buf fut args rest" and s: "rs_st rs = need_bulk_data"
  shows "step_at buf fut args rest (extract_step rs buf)"
proof -
  let ?i = "nat (rs_argi rs)"
  let ?b = "args ! ?i"
  let ?ys = "[CR, LF] @ enc_bulks (drop (Suc ?i) args)"
  have e: "rs_expect rs args = ?b @ ?ys" by (simp add: rs_expect_def s Let_def)
  note i = at_cmd_argi [OF a]
  have bl: "nat (rs_bulk_len rs) = length ?b" using a s by (simp add: at_cmd_def rs_at_def)
  have p: "rs_pos rs \<le> length buf" "rs_cmd_start rs < rs_pos rs" using a s by (auto simp: at_cmd_def rs_wf_def)
  note w = extract_step_wf [of rs buf]
  show ?thesis
  proof (cases "length (unread rs buf) < length ?b")
    case True
    then have "length buf < rs_pos rs + length ?b" using p(1) by (simp add: unread_def)
    then show ?thesis
      using a bl not_enough [OF a e True]
      by (simp add: step_at_def extract_step_def s step_need_bulk_data_def Let_def)
  next
    case False
    then have le: "length ?b \<le> length (unread rs buf)" by (simp only: not_less)
    from consume [OF a e this] s obtain zs where z: "unread rs buf = ?b @ zs" "zs @ fut = ?ys @ rest"
      "drop (rs_pos rs + length ?b) buf = zs"
      "take (rs_pos rs + length ?b - rs_cmd_start rs) (drop (rs_cmd_start rs) buf) @ ?ys = enc_array args"
      by (simp only: simp_thms rs_st.distinct not_False_eq_True) blast
    have n: "rs_pos rs + length ?b \<le> length buf" using le p(1) by (simp add: unread_def)
    let ?sl = "\<lparr>sl_off = of_nat (rs_pos rs), sl_len = of_nat (length ?b)\<rparr>"
    have st: "extract_step rs buf = Continue (rs\<lparr>rs_slices := rs_slices rs @ [?sl], rs_pos := rs_pos rs + length ?b,
        rs_st := need_bulk_crlf\<rparr>)" (is "_ = Continue ?r")
      using n bl by (simp add: extract_step_def s step_need_bulk_data_def Let_def)
    have "slice_text buf ?sl = ?b"
      using new_slice_ok(2) [OF p(2) n] a s i(2) z(1) by (simp add: at_cmd_def unread_def)
    moreover have "length (rs_slices rs) = ?i" "map (slice_text buf) (rs_slices rs) = take (length (rs_slices rs)) args"
      using a s i by (auto simp: at_cmd_def rs_wf_def rs_at_def)
    ultimately have m: "map (slice_text buf) (rs_slices ?r) = take (length (rs_slices ?r)) args"
      using i(1) s by (simp add: take_Suc_conv_app_nth)
    have "rs_expect ?r args = ?ys" by (simp add: rs_expect_def Let_def)
    then have "rs_at ?r buf args" "unread ?r buf @ fut = rs_expect ?r args @ rest"
      using z m i(3) s by (simp_all add: rs_at_def unread_def)
    then show ?thesis using a w by (simp add: step_at_def st at_cmd_def step_wf_def)
  qed
qed


lemma step_last_at:
  assumes a: "at_cmd rs buf fut args rest" and s: "rs_st rs = need_bulk_crlf"
    and z: "unread rs buf = [CR, LF] @ zs" "zs @ fut = rest" "drop (rs_pos rs + 2) buf = zs"
      "take (rs_pos rs + 2 - rs_cmd_start rs) (drop (rs_cmd_start rs) buf) = enc_array args"
    and l: "Suc (nat (rs_argi rs)) = length args" "length (unread rs buf) = length buf - rs_pos rs"
  shows "step_at buf fut args rest (extract_step rs buf)"
proof -
  have w: "rs_cmd_start rs < rs_pos rs" "rs_pos rs \<le> length buf" "0 \<le> rs_argi rs"
    "list_all (slice_ok (rs_cmd_start rs) (rs_pos rs)) (rs_slices rs)" "int (length (rs_slices rs)) = rs_argi rs + 1"
    "rs_argc rs = int (length args)" "map (slice_text buf) (rs_slices rs) = take (length (rs_slices rs)) args"
    using a s by (auto simp: at_cmd_def rs_wf_def rs_at_def)
  have n: "rs_pos rs + 2 \<le> length buf" using z(1) l(2) w(2) by simp
  have c: "buf ! rs_pos rs = CR" "buf ! Suc (rs_pos rs) = LF"
    using z(1) n nth_drop [of "rs_pos rs" buf 0] nth_drop [of "rs_pos rs" buf 1] by (simp_all add: unread_def)
  have "list_all (slice_ok (rs_cmd_start rs) (rs_pos rs + 2)) (rs_slices rs)" by (rule slices_ok_mono [OF w(4)]) simp
  from cut_slices_frame [OF this n]
  have "cut_slices (rs_cmd_start rs) (enc_array args) (rs_slices rs) = Some args"
    using w(3,5,7) l(1) by (simp add: z(4) [simplified])
  moreover have "rs_argi rs + 1 = rs_argc rs" using l(1) w(3,6) by simp
  ultimately have st: "extract_step rs buf = return_compact (rs\<lparr>rs_pos := rs_pos rs + 2, rs_argi := rs_argi rs + 1,
      rs_st := need_star\<rparr>) buf (Request \<lparr>req_frame = enc_array args, req_argv = args\<rparr>)" (is "_ = return_compact ?r _ _")
    using c n w(1,2) z(4) by (simp add: extract_step_def s step_need_bulk_crlf_def Let_def substr_def)
  obtain r b where rb: "rs_compact ?r buf = (r, b)" by fastforce
  note f = rs_compact_fields [OF rb]
  have "unread r b @ fut = rest" using f(1) z(2,3) by (simp add: unread_def)
  moreover have "\<not> rs_fault r" using f(3) a by (simp add: at_cmd_def)
  moreover have "extract_step rs buf = Return r b (Request \<lparr>req_frame = enc_array args, req_argv = args\<rparr>)"
    by (simp only: st return_compact_def rb prod.case)
  ultimately show ?thesis using f(2,4,5) n by (simp add: step_at_def rs_wf_star)
qed

lemma step_bulk_crlf_at:
  assumes a: "at_cmd rs buf fut args rest" and s: "rs_st rs = need_bulk_crlf"
  shows "step_at buf fut args rest (extract_step rs buf)"
proof -
  let ?i = "nat (rs_argi rs)"
  let ?ys = "enc_bulks (drop (Suc ?i) args)"
  have e: "rs_expect rs args = [CR, LF] @ ?ys" by (simp add: rs_expect_def s Let_def)
  note i = at_cmd_argi [OF a]
  have p: "rs_pos rs \<le> length buf" "rs_cmd_start rs < rs_pos rs" using a s by (auto simp: at_cmd_def rs_wf_def)
  have u: "length (unread rs buf) = length buf - rs_pos rs" by (simp add: unread_def)
  note w = extract_step_wf [of rs buf]
  show ?thesis
  proof (cases "length (unread rs buf) < length [CR, LF]")
    case True
    then have "length buf < rs_pos rs + 2" using p(1) u by simp
    then show ?thesis
      using a not_enough [OF a e True] by (simp add: step_at_def extract_step_def s step_need_bulk_crlf_def)
  next
    case False
    then have le: "length [CR, LF] \<le> length (unread rs buf)" by (simp only: not_less)
    from consume [OF a e this] s obtain zs where z: "unread rs buf = [CR, LF] @ zs" "zs @ fut = ?ys @ rest"
      "drop (rs_pos rs + length [CR, LF]) buf = zs"
      "take (rs_pos rs + length [CR, LF] - rs_cmd_start rs) (drop (rs_cmd_start rs) buf) @ ?ys = enc_array args"
      by (simp only: simp_thms rs_st.distinct not_False_eq_True) blast
    show ?thesis
    proof (cases "Suc ?i = length args")
      case True
      then show ?thesis using z step_last_at [OF a s, of zs] u by simp
    next
      case False
      then have lt: "Suc ?i < length args" using i(1) s by simp
      have n: "rs_pos rs + 2 \<le> length buf" using le u p(1) by simp
      have c: "buf ! rs_pos rs = CR" "buf ! Suc (rs_pos rs) = LF"
        using z(1) n nth_drop [of "rs_pos rs" buf 0] nth_drop [of "rs_pos rs" buf 1] by (simp_all add: unread_def)
      have "rs_argi rs + 1 \<noteq> rs_argc rs" using False i(3,4) s by auto
      then have st: "extract_step rs buf = Continue (rs\<lparr>rs_pos := rs_pos rs + 2, rs_argi := rs_argi rs + 1,
          rs_st := need_dollar\<rparr>)" (is "_ = Continue ?r")
        using n c by (simp add: extract_step_def s step_need_bulk_crlf_def Let_def)
      have "rs_expect ?r args = ?ys"
        using i(4) s Cons_nth_drop_Suc [OF lt, symmetric] by (simp add: rs_expect_def Let_def nat_add_distrib)
      then have "rs_at ?r buf args" "unread ?r buf @ fut = rs_expect ?r args @ rest"
        using z a s by (simp_all add: rs_at_def unread_def at_cmd_def)
      then show ?thesis using a w by (simp add: step_at_def st at_cmd_def step_wf_def)
    qed
  qed
qed

lemma step_star_at:
  assumes a: "at_cmd rs buf fut args rest" and s: "rs_st rs = need_star"
  shows "step_at buf fut args rest (extract_step rs buf)"
proof -
  let ?ys = "to_string (length args) @ [CR, LF] @ enc_bulks args"
  have e: "rs_expect rs args = ''*'' @ ?ys" by (simp add: rs_expect_def s enc_array_def)
  note w = extract_step_wf [of rs buf]
  show ?thesis
  proof (cases "unread rs buf")
    case Nil
    then have l: "length buf \<le> rs_pos rs" by (simp add: unread_def)
    obtain r b where rb: "rs_compact rs buf = (r, b)" by fastforce
    note f = rs_compact_fields [OF rb]
    have st: "extract_step rs buf = Return r b No_request"
      using l by (simp add: extract_step_def s step_need_star_def return_compact_def rb)
    have "rs_expect r args = rs_expect rs args" "rs_at r b args" using f(2) s by (simp_all add: rs_expect_def rs_at_def)
    then have "at_cmd r b fut args rest" using a f w s by (simp add: at_cmd_def rs_wf_star)
    then show ?thesis using not_enough [OF a e] Nil by (simp add: step_at_def st)
  next
    case (Cons c zs)
    then have c: "c = CHR ''*''" "zs @ fut = ?ys @ rest" using a e by (simp_all add: at_cmd_def)
    have l: "\<not> length buf \<le> rs_pos rs" using Cons by (auto simp: unread_def)
    have d: "buf ! rs_pos rs = CHR ''*''" "drop (Suc (rs_pos rs)) buf = zs"
      using Cons c l by (auto simp: unread_def Cons_nth_drop_Suc [symmetric])
    then have st: "extract_step rs buf = Continue (rs\<lparr>rs_cmd_start := rs_pos rs, rs_pos := rs_pos rs + 1,
        rs_st := need_argc\<rparr>)" (is "_ = Continue ?r")
      using l by (simp add: extract_step_def s step_need_star_def)
    have x: "rs_expect ?r args = ?ys" by (simp add: rs_expect_def)
    moreover have "take 1 (drop (rs_pos rs) buf) = ''*''" using Cons c(1) by (simp add: unread_def)
    ultimately have "rs_at ?r buf args" by (simp add: rs_at_def enc_array_def)
    then show ?thesis using a w x d(2) c(2) by (simp add: step_at_def st at_cmd_def step_wf_def unread_def)
  qed
qed

lemma extract_step_at: "at_cmd rs buf fut args rest \<Longrightarrow> step_at buf fut args rest (extract_step rs buf)"
  by (cases "rs_st rs") (simp_all add: step_star_at step_argc_at step_dollar_at step_bulk_len_at step_bulk_data_at step_bulk_crlf_at)


subsection \<open>Sessions\<close>

definition stream :: "sstring list list \<Rightarrow> string" where
  "stream cmds = concat (map enc_array cmds)"

definition cmd_request :: "sstring list \<Rightarrow> parsed_request" where
  "cmd_request args = \<lparr>req_frame = enc_array args, req_argv = args\<rparr>"

text \<open>The commands that the client sends and that have not been handed out yet.\<close>

fun sess :: "resp_proc \<Rightarrow> string \<Rightarrow> string \<Rightarrow> sstring list list \<Rightarrow> bool" where
  "sess rs buf fut [] \<longleftrightarrow> rs_st rs = need_star \<and> rs_wf rs buf \<and> unread rs buf = [] \<and> fut = []"
| "sess rs buf fut (args # cmds) \<longleftrightarrow> at_cmd rs buf fut args (stream cmds) \<and> list_all cmd_ok cmds"

definition waiting :: "string \<Rightarrow> sstring list list \<Rightarrow> bool" where
  "waiting fut cmds \<longleftrightarrow> cmds = [] \<or> length (stream (tl cmds)) < length fut"

lemma extract_loop_at:
  assumes "at_cmd rs buf fut args rest"
  shows "case extract_loop rs buf of (rs', buf', e) \<Rightarrow> step_at buf fut args rest (Return rs' buf' e)"
  using assms
proof (induction rs buf rule: extract_loop.induct)
  case (1 rs buf)
  show ?case
  proof (cases "extract_step rs buf")
    case (Continue rs1)
    then have "at_cmd rs1 buf fut args rest" using extract_step_at [OF "1.prems"] by (simp add: step_at_def)
    then show ?thesis using "1.IH" [OF Continue] Continue by (simp add: extract_loop.simps [of rs buf])
  next
    case (Return rs1 buf1 e)
    then show ?thesis using extract_step_at [OF "1.prems"] by (simp add: extract_loop.simps [of rs buf])
  qed
qed

lemma try_extract_eq: "rs_wf rs buf \<Longrightarrow> try_extract_request rs buf = extract_loop rs buf"
  by (simp add: try_extract_request_def rs_wf_def)

lemma sess_star:
  assumes "rs_st rs = need_star" "rs_wf rs buf" "\<not> rs_fault rs" "length buf + length fut < 2 ^ 32"
    "list_all cmd_ok cmds" "unread rs buf @ fut = stream cmds"
  shows "sess rs buf fut cmds"
proof (cases cmds)
  case (Cons args cs)
  then have "rs_expect rs args = enc_array args" "rs_at rs buf args" using assms(1) by (simp_all add: rs_expect_def rs_at_def)
  then show ?thesis using assms Cons by (simp add: at_cmd_def stream_def)
qed (use assms in \<open>simp add: stream_def\<close>)

lemma try_extract_sess:
  assumes "sess rs buf fut cmds"
  obtains (none) rs' buf' where "try_extract_request rs buf = (rs', buf', No_request)" "sess rs' buf' fut cmds"
      "waiting fut cmds"
    | (some) rs' buf' args cmds' where "cmds = args # cmds'"
      "try_extract_request rs buf = (rs', buf', Request (cmd_request args))" "sess rs' buf' fut cmds'"
proof (cases cmds)
  case Nil
  then have s: "rs_st rs = need_star" "rs_wf rs buf" "unread rs buf = []" "fut = []" using assms by simp_all
  obtain r b where rb: "rs_compact rs buf = (r, b)" by fastforce
  have "extract_step rs buf = Return r b No_request"
    using s by (simp add: extract_step_def step_need_star_def return_compact_def rb unread_def)
  then have "try_extract_request rs buf = (r, b, No_request)"
    using s(2) by (simp add: try_extract_eq extract_loop.simps [of rs buf])
  then show ?thesis using none rs_compact_fields [OF rb] s Nil by (simp add: waiting_def rs_wf_star)
next
  case (Cons args cs)
  then have a: "at_cmd rs buf fut args (stream cs)" "list_all cmd_ok cs" using assms by simp_all
  then have w: "rs_wf rs buf" "length buf + length fut < 2 ^ 32" by (simp_all add: at_cmd_def)
  obtain r b e where l: "extract_loop rs buf = (r, b, e)" by (metis prod_cases3)
  then have t: "try_extract_request rs buf = (r, b, e)" using w(1) by (simp add: try_extract_eq)
  have "step_at buf fut args (stream cs) (Return r b e)" using extract_loop_at [OF a(1)] l by simp
  then consider "e = No_request" "at_cmd r b fut args (stream cs)" "length (stream cs) < length fut"
    | "e = Request (cmd_request args)" "rs_st r = need_star" "\<not> rs_fault r" "unread r b @ fut = stream cs"
      "rs_wf r b" "length b \<le> length buf"
    by (auto simp: step_at_def cmd_request_def)
  then show ?thesis
  proof cases
    case 1
    then show ?thesis using t none [of r b] a(2) Cons by (simp add: waiting_def)
  next
    case 2
    then have "sess r b fut cs" using w(2) a(2) by (intro sess_star) simp_all
    then show ?thesis using some [of args cs r b] t 2(1) Cons by simp
  qed
qed

lemma extract_all_sess:
  assumes "sess rs buf fut cmds"
  shows "\<exists>done cmds' rs' buf'. cmds = done @ cmds' \<and> extract_all rs buf = (rs', buf', map cmd_request done, False)
    \<and> sess rs' buf' fut cmds' \<and> waiting fut cmds'"
  using assms
proof (induction cmds arbitrary: rs buf)
  case Nil
  then show ?case by (cases rule: try_extract_sess [OF Nil]) (auto simp: extract_all.simps [of rs buf])
next
  case (Cons args cmds)
  show ?case
  proof (cases rule: try_extract_sess [OF Cons.prems])
    case (1 rs' buf')
    then show ?thesis
      by (intro exI [of _ "[]"] exI [of _ "args # cmds"] exI [of _ rs'] exI [of _ buf'])
        (simp add: extract_all.simps [of rs buf])
  next
    case (2 rs' buf' a cmds')
    then obtain d c r b where d: "cmds = d @ c" "extract_all rs' buf' = (r, b, map cmd_request d, False)"
      "sess r b fut c" "waiting fut c"
      using Cons.IH [of rs' buf'] by auto
    then show ?thesis
      using 2 by (intro exI [of _ "args # d"] exI [of _ c] exI [of _ r] exI [of _ b]) (simp add: extract_all.simps [of rs buf])
  qed
qed


lemma sess_append:
  assumes "sess rs buf (chunk @ fut) cmds"
  shows "sess rs (buf @ chunk) fut cmds"
proof (cases cmds)
  case Nil
  then show ?thesis using assms by simp
next
  case (Cons args cs)
  then have a: "at_cmd rs buf (chunk @ fut) args (stream cs)" "list_all cmd_ok cs" using assms by simp_all
  then have w: "rs_wf rs buf" "rs_at rs buf args" by (simp_all add: at_cmd_def)
  then have p: "rs_pos rs \<le> length buf" by (simp add: rs_wf_def)
  have "slice_text (buf @ chunk) sl = slice_text buf sl" if "slice_ok (rs_cmd_start rs) (rs_pos rs) sl" for sl
    using that p by (simp add: slice_text_def slice_ok_def)
  then have m: "map (slice_text (buf @ chunk)) (rs_slices rs) = map (slice_text buf) (rs_slices rs)"
    if "rs_st rs \<notin> {need_star, need_argc}"
    using that w(1) by (auto simp: rs_wf_def list_all_iff)
  have t: "take (rs_pos rs - rs_cmd_start rs) (drop (rs_cmd_start rs) (buf @ chunk))
      = take (rs_pos rs - rs_cmd_start rs) (drop (rs_cmd_start rs) buf)"
    if "rs_st rs \<noteq> need_star"
    using that w(1) p by (simp add: rs_wf_def)
  have "rs_at rs (buf @ chunk) args \<longleftrightarrow> rs_at rs buf args"
    by (simp only: rs_at_def m t simp_thms not_False_eq_True cong: conj_cong imp_cong)
  with w(2) have "rs_at rs (buf @ chunk) args" by simp
  then show ?thesis
    using a p rs_wf_append [OF w(1)] Cons by (simp add: at_cmd_def unread_def)
qed

lemma read_requests_sess:
  assumes "sess rs buf (concat chunks @ fut) cmds" "[] \<notin> set chunks" "chunks = [] \<Longrightarrow> waiting fut cmds"
  shows "\<exists>done rest. cmds = done @ rest \<and> read_requests rs buf chunks = map cmd_request done \<and> waiting fut rest"
  using assms
proof (induction chunks arbitrary: rs buf cmds)
  case (Cons chunk cs)
  have "sess rs (buf @ chunk) (concat cs @ fut) cmds" using Cons.prems(1) sess_append by simp
  from extract_all_sess [OF this] obtain d c r b where
    d: "cmds = d @ c" "extract_all rs (buf @ chunk) = (r, b, map cmd_request d, False)" "sess r b (concat cs @ fut) c"
      "waiting (concat cs @ fut) c"
    by blast
  have "cs = [] \<Longrightarrow> waiting fut c" using d(4) by simp
  from Cons.IH [OF d(3) _ this] Cons.prems(2) obtain d' c' where
    d': "c = d' @ c'" "read_requests r b cs = map cmd_request d'" "waiting fut c'" by auto
  show ?case
    using Cons.prems(2) d(1,2) d' by (intro exI [of _ "d @ d'"] exI [of _ c']) auto
qed auto

lemma stream_split: "stream (xs @ ys) = stream xs @ stream ys"
  by (simp add: stream_def)

lemma enc_array_not_Nil [simp]: "enc_array args \<noteq> []"
  by (simp add: enc_array_def)

lemma fresh_sess:
  assumes "list_all cmd_ok cmds" "length (stream cmds) < 2 ^ 32"
  shows "sess new_resp_proc [] (stream cmds) cmds"
  using assms by (intro sess_star) (simp_all add: new_resp_proc_def new_resp_proc_wf [unfolded new_resp_proc_def] unread_def)

lemma fresh_waiting: "waiting (stream cmds) cmds"
  by (cases cmds) (simp_all add: waiting_def stream_def)

lemma extract_all_length: "case extract_all rs buf of (rs', buf', qs, thrown) \<Rightarrow> length qs \<le> weight rs buf"
proof (induction rs buf rule: extract_all.induct)
  case (1 rs buf)
  obtain r b e where t: "try_extract_request rs buf = (r, b, e)" by (metis prod_cases3)
  show ?case
  proof (cases e)
    case (Request q)
    have "weight r b < weight rs buf" using try_extract_weight [OF t] Request by simp
    moreover have "case extract_all r b of (rs', buf', qs, thrown) \<Rightarrow> length qs \<le> weight r b"
      using 1 [OF t [symmetric] refl] Request by simp
    ultimately show ?thesis by (auto simp: extract_all.simps [of rs buf] t Request split: prod.splits)
  qed (simp_all add: extract_all.simps [of rs buf] t)
qed

subsection \<open>Properties\<close>

text \<open>
  C26. The requests that the read loop takes from a connection are exactly the commands that
  the client sent, in order, with their arguments byte for byte, however the network cuts the
  stream into chunks. A command is handed out with the chunk that completes it: if some
  commands are left, the first of them has not arrived completely.
\<close>

theorem stream_roundtrip:
  assumes "list_all cmd_ok cmds" "concat chunks @ fut = stream cmds" "[] \<notin> set chunks"
    "length (stream cmds) < 2 ^ 32"
  shows "\<exists>k \<le> length cmds. read_requests new_resp_proc [] chunks = map cmd_request (take k cmds)
    \<and> (k < length cmds \<longrightarrow> length (concat chunks) < length (stream (take (Suc k) cmds)))
    \<and> (fut = [] \<longrightarrow> k = length cmds)"
proof -
  have "sess new_resp_proc [] (concat chunks @ fut) cmds" using fresh_sess [OF assms(1,4)] assms(2) by simp
  from read_requests_sess [OF this assms(3)] fresh_waiting [of cmds] assms(2)
  obtain d r where d: "cmds = d @ r" "read_requests new_resp_proc [] chunks = map cmd_request d" "waiting fut r"
    by (cases "chunks = []") auto
  have "length (concat chunks) < length (stream (take (Suc (length d)) cmds))" if "r \<noteq> []"
  proof -
    obtain a s where r: "r = a # s" using \<open>r \<noteq> []\<close> by (cases r) auto
    have "length (concat chunks @ fut) = length (stream (d @ [a]) @ stream s)"
      by (simp only: assms(2) d(1) r) (simp add: stream_def)
    moreover have "length (stream s) < length fut" using d(3) r by (simp add: waiting_def)
    ultimately have "length (concat chunks) < length (stream (d @ [a]))" by simp
    then show ?thesis by (simp add: d(1) r)
  qed
  moreover have "r = []" if "fut = []" using d(3) that by (simp add: waiting_def)
  ultimately show ?thesis using d by (intro exI [of _ "length d"]) auto
qed

theorem stream_roundtrip_witness:
  "\<exists>k \<le> 1. read_requests new_resp_proc [] [''*1'' @ [CR], [LF] @ ''$0'' @ [CR, LF, CR], [LF]] = map cmd_request (take k [[[]]])
    \<and> k = 1"
proof -
  have n: "to_string (Suc 0) = ''1''" "to_string 0 = ''0''" by code_simp+
  show ?thesis
    using stream_roundtrip [of "[[[]]]" "[''*1'' @ [CR], [LF] @ ''$0'' @ [CR, LF, CR], [LF]]" "[]"]
    by (auto simp: n cmd_ok_def kMaxArgs_def kMaxBulk_def stream_def enc_array_def enc_bulk_def)
qed

text \<open>
  C27. From any well-formed state and for any bytes in the buffer, one call of
  \<open>try_extract_request\<close> never throws and yields nothing, one of the three error replies, or a
  command within the limits (1 to 1024 arguments of at most 64 MiB each, the frame starting
  with the asterisk), and leaves a well-formed state and a buffer that is not longer.
\<close>

theorem try_extract_type:
  assumes "rs_wf rs buf" "length buf < 2 ^ 32" "try_extract_request rs buf = (rs', buf', e)"
  shows "rs_wf rs' buf' \<and> length buf' \<le> length buf \<and> extracted_ok e"
  using try_extract_wf [OF assms] by simp

theorem try_extract_type_witness:
  "rs_wf new_resp_proc ''GET'' \<and> length ''GET'' < 2 ^ 32
    \<and> extracted_ok (snd (snd (try_extract_request new_resp_proc ''GET'')))"
  using try_extract_type [of new_resp_proc "''GET''" "fst (try_extract_request new_resp_proc ''GET'')"
      "fst (snd (try_extract_request new_resp_proc ''GET''))" "snd (snd (try_extract_request new_resp_proc ''GET''))"]
  by (simp add: new_resp_proc_wf)

text \<open>
  The inner read loop ends: the requests taken from one buffer, error replies included,
  are at most twice as many as its unread bytes, plus one.
\<close>

theorem extract_all_terminates:
  "case extract_all rs buf of (rs', buf', qs, thrown) \<Rightarrow> length qs \<le> 2 * length (unread rs buf) + 1"
  using extract_all_length [of rs buf] by (auto simp: weight_def split: if_splits)




text \<open>
  The digit loop has no overflow check: the array length 2^64 + 1 wraps to 1 and the
  frame is accepted as a command with one argument. The flag records that the signed
  multiplication overflowed on the way.
\<close>

theorem argc_overflow:
  "\<exists>rs'. try_extract_request new_resp_proc (''*18446744073709551617'' @ [CR, LF] @ ''$4'' @ [CR, LF] @ ''QUIT'' @ [CR, LF])
      = (rs', [], Request \<lparr>req_frame = ''*18446744073709551617'' @ [CR, LF] @ ''$4'' @ [CR, LF] @ ''QUIT'' @ [CR, LF],
                           req_argv = [''QUIT'']\<rparr>) \<and> rs_fault rs'"
proof -
  let ?s = "''*18446744073709551617'' @ [CR, LF] @ ''$4'' @ [CR, LF] @ ''QUIT'' @ [CR, LF]"
  have "case try_extract_request new_resp_proc ?s of (rs', buf', e) \<Rightarrow>
      rs_fault rs' \<and> buf' = [] \<and> e = Request \<lparr>req_frame = ?s, req_argv = [''QUIT'']\<rparr>"
    by code_simp
  then show ?thesis by (simp split: prod.splits)
qed

end
