(* ===== verification/Resp_Reader.thy ===== *)
theory Resp_Reader
  imports Resp_Parser
begin

text \<open>
  The class \<open>Reader\<close> of \<open>include/resp/resp_parser.hh\<close> and \<open>src/resp/resp_parser.cc\<close>:
  a parser that pulls commands from an input stream. An input stream is the list of
  the chunks that its \<open>read()\<close> returns, in order; the empty chunk, and the end of the list,
  is the end of the stream. An operation returns its value or the message of the exception
  it throws, the reader, and the chunks still to come.
\<close>

record reader =
  rd_buf :: sstring
  rd_off :: nat

type_synonym 'a rd_result = "(string + 'a) \<times> reader \<times> string list"

definition rd_size :: "reader \<Rightarrow> nat" where
  "rd_size r = length (rd_buf r) - rd_off r"

definition rd_view :: "reader \<Rightarrow> string" where
  "rd_view r = drop (rd_off r) (rd_buf r)"

definition rd_compact :: "reader \<Rightarrow> reader" where
  "rd_compact r =
     (if rd_off r = 0 then r
      else if length (rd_buf r) \<le> rd_off r then r\<lparr>rd_buf := [], rd_off := 0\<rparr>
      else if 4096 \<le> rd_off r \<or> length (rd_buf r) \<le> rd_off r * 2
      then r\<lparr>rd_buf := drop (rd_off r) (rd_buf r), rd_off := 0\<rparr>
      else r)"

definition rd_append :: "string \<Rightarrow> reader \<Rightarrow> reader" where
  "rd_append chunk r = (let r1 = rd_compact r in r1\<lparr>rd_buf := rd_buf r1 @ chunk\<rparr>)"

definition rd_advance :: "nat \<Rightarrow> reader \<Rightarrow> reader" where
  "rd_advance n r = rd_compact (r\<lparr>rd_off := rd_off r + n\<rparr>)"

fun ensure :: "nat \<Rightarrow> reader \<Rightarrow> string list \<Rightarrow> reader \<times> string list" where
  "ensure n r [] = (r, [])"
| "ensure n r (chunk # cs) =
     (if rd_size r < n then
        if chunk = [] then (r, cs) else ensure n (rd_append chunk r) cs
      else (r, chunk # cs))"

definition read_byte :: "reader \<Rightarrow> string list \<Rightarrow> char \<times> reader \<times> string list" where
  "read_byte r cs =
     (case ensure 1 r cs of
        (r1, cs1) \<Rightarrow>
          if rd_size r1 = 0 then (CHR 0x00, r1, cs1)
          else (rd_buf r1 ! rd_off r1, rd_advance 1 r1, cs1))"

text \<open>\<open>string_view::find\<close> of the two-character line end.\<close>

fun find_crlf :: "string \<Rightarrow> nat option" where
  "find_crlf (a # b # s) = (if a = CR \<and> b = LF then Some 0 else map_option Suc (find_crlf (b # s)))"
| "find_crlf _ = None"

fun read_line_crlf :: "reader \<Rightarrow> string list \<Rightarrow> sstring rd_result" where
  "read_line_crlf r cs =
     (case find_crlf (rd_view r) of
        Some p \<Rightarrow> (Inr (take p (rd_view r)), rd_advance (p + 2) r, cs)
      | None \<Rightarrow>
          (case cs of
             [] \<Rightarrow> (if rd_size r = 0 then Inr [] else Inl (fail_msg ''unexpected EOF while reading line''), r, [])
           | chunk # cs1 \<Rightarrow>
               if chunk = [] then
                 (if rd_size r = 0 then Inr [] else Inl (fail_msg ''unexpected EOF while reading line''), r, cs1)
               else read_line_crlf (rd_append chunk r) cs1))"

declare read_line_crlf.simps [simp del]

definition read_int_line :: "reader \<Rightarrow> string list \<Rightarrow> int rd_result" where
  "read_int_line r cs =
     (case read_line_crlf r cs of
        (Inl e, r1, cs1) \<Rightarrow> (Inl e, r1, cs1)
      | (Inr line, r1, cs1) \<Rightarrow>
          if line = [] then (Inr 0, r1, cs1)
          else (case from_chars_signed INT64_MAX line of
                  Inr (n, []) \<Rightarrow> (Inr n, r1, cs1)
                | _ \<Rightarrow> (Inl (fail_msg ''invalid integer''), r1, cs1)))"

definition read_bulk :: "reader \<Rightarrow> string list \<Rightarrow> sstring rd_result" where
  "read_bulk r cs =
     (case read_line_crlf r cs of
        (Inl e, r1, cs1) \<Rightarrow> (Inl e, r1, cs1)
      | (Inr len_line, r1, cs1) \<Rightarrow>
          if len_line = [] then (Inl (fail_msg ''unexpected EOF reading bulk length''), r1, cs1)
          else
            case from_chars_signed INT64_MAX len_line of
              Inr (len, []) \<Rightarrow>
                if len = - 1 then (Inr [], r1, cs1)
                else if len < 0 then (Inl (fail_msg ''negative bulk length''), r1, cs1)
                else if MAX_BULK < len then (Inl (fail_msg ''bulk string too large''), r1, cs1)
                else
                  (case ensure (nat len + 2) r1 cs1 of
                     (r2, cs2) \<Rightarrow>
                       if rd_size r2 < nat len + 2
                       then (Inl (fail_msg ''unexpected EOF reading bulk payload''), r2, cs2)
                       else if rd_view r2 ! nat len \<noteq> CR \<or> rd_view r2 ! (nat len + 1) \<noteq> LF
                       then (Inl (fail_msg ''missing CRLF after bulk payload''), r2, cs2)
                       else (Inr (take (nat len) (rd_view r2)), rd_advance (nat len + 2) r2, cs2))
            | _ \<Rightarrow> (Inl (fail_msg ''invalid bulk length''), r1, cs1))"

fun read_args :: "nat \<Rightarrow> sstring list \<Rightarrow> reader \<Rightarrow> string list \<Rightarrow> sstring list rd_result" where
  "read_args 0 argv r cs = (Inr argv, r, cs)"
| "read_args (Suc n) argv r cs =
     (case read_byte r cs of
        (bt, r1, cs1) \<Rightarrow>
          if bt = CHR 0x00 then (Inl (fail_msg ''unexpected EOF inside array''), r1, cs1)
          else if bt \<noteq> CHR ''$''
          then (Inl (fail_msg ''expected bulk string '' @ [CHR 0x27] @ ''$'' @ [CHR 0x27] @ '' in array''), r1, cs1)
          else
            case read_bulk r1 cs1 of
              (Inl e, r2, cs2) \<Rightarrow> (Inl e, r2, cs2)
            | (Inr s, r2, cs2) \<Rightarrow> read_args n (argv @ [s]) r2 cs2)"

definition read_command :: "reader \<Rightarrow> string list \<Rightarrow> sstring list rd_result" where
  "read_command r cs =
     (case read_byte r cs of
        (t, r1, cs1) \<Rightarrow>
          if t = CHR 0x00 then (Inr [], r1, cs1)
          else if t \<noteq> CHR ''*''
          then (Inl (fail_msg ''expected array '' @ [CHR 0x27] @ ''*'' @ [CHR 0x27]), r1, cs1)
          else
            case read_int_line r1 cs1 of
              (Inl e, r2, cs2) \<Rightarrow> (Inl e, r2, cs2)
            | (Inr n, r2, cs2) \<Rightarrow>
                if n \<le> 0 then (Inl (fail_msg ''array length must be positive''), r2, cs2)
                else if MAX_ARGS < n then (Inl (fail_msg ''too many arguments''), r2, cs2)
                else read_args (nat n) [] r2 cs2)"

subsection \<open>What is still to be read\<close>

text \<open>
  The bytes not consumed yet: those buffered and those of the chunks to come. Every
  operation is a function of these bytes, however they are cut into chunks.
\<close>

definition pending :: "reader \<Rightarrow> string list \<Rightarrow> string" where
  "pending r cs = rd_view r @ concat cs"

definition rd_ok :: "reader \<Rightarrow> string list \<Rightarrow> bool" where
  "rd_ok r cs \<longleftrightarrow> rd_off r \<le> length (rd_buf r) \<and> [] \<notin> set cs"

lemma rd_compact_view [simp]: "rd_view (rd_compact r) = rd_view r"
  by (simp add: rd_compact_def rd_view_def)

lemma rd_compact_ok: "rd_ok r cs \<Longrightarrow> rd_ok (rd_compact r) cs"
  by (simp add: rd_ok_def rd_compact_def)

lemma rd_size_view: "rd_size r = length (rd_view r)"
  by (simp add: rd_size_def rd_view_def)

lemma rd_append_view:
  assumes "rd_ok r cs"
  shows "rd_view (rd_append c r) = rd_view r @ c" "rd_ok (rd_append c r) cs"
proof -
  have o: "rd_off (rd_compact r) \<le> length (rd_buf (rd_compact r))"
    using rd_compact_ok [OF assms] by (simp add: rd_ok_def)
  have "rd_view (rd_append c r) = rd_view (rd_compact r) @ c"
    using o unfolding rd_append_def Let_def rd_view_def by simp
  then show "rd_view (rd_append c r) = rd_view r @ c" by simp
  show "rd_ok (rd_append c r) cs" using o assms by (simp add: rd_append_def rd_ok_def Let_def)
qed

lemma rd_advance_view:
  assumes "rd_ok r cs" "n \<le> rd_size r"
  shows "rd_view (rd_advance n r) = drop n (rd_view r)" "rd_ok (rd_advance n r) cs"
proof -
  show "rd_view (rd_advance n r) = drop n (rd_view r)"
    by (simp add: rd_advance_def) (simp add: rd_view_def add.commute)
  have "rd_ok (r\<lparr>rd_off := rd_off r + n\<rparr>) cs" using assms by (auto simp: rd_ok_def rd_size_def)
  then show "rd_ok (rd_advance n r) cs" unfolding rd_advance_def by (rule rd_compact_ok)
qed

lemma ensure_pending:
  assumes "rd_ok r cs" "n \<le> length (pending r cs)"
  shows "case ensure n r cs of (r', cs') \<Rightarrow>
    rd_ok r' cs' \<and> pending r' cs' = pending r cs \<and> n \<le> rd_size r'"
  using assms
proof (induction n r cs rule: ensure.induct)
  case (1 n r)
  then show ?case by (simp add: pending_def rd_size_view)
next
  case (2 n r chunk cs)
  have c: "chunk \<noteq> []" "rd_ok r cs" using "2.prems"(1) by (auto simp: rd_ok_def)
  note a = rd_append_view [OF c(2), of chunk]
  have "pending (rd_append chunk r) cs = pending r (chunk # cs)" by (simp add: pending_def a)
  with 2 c(1) a show ?case by auto
qed

lemma read_byte_pending:
  assumes "rd_ok r cs" "pending r cs = c # rest"
  shows "\<exists>r' cs'. read_byte r cs = (c, r', cs') \<and> rd_ok r' cs' \<and> pending r' cs' = rest"
proof -
  obtain r1 cs1 where e: "ensure 1 r cs = (r1, cs1)" by fastforce
  have i: "rd_ok r1 cs1" "pending r1 cs1 = c # rest" "1 \<le> rd_size r1"
    using ensure_pending [OF assms(1), of 1] assms(2) e by auto
  then obtain x xs where v: "rd_view r1 = x # xs" by (cases "rd_view r1") (auto simp: rd_size_view)
  then have x: "x = c" "xs @ concat cs1 = rest" using i(2) by (auto simp: pending_def)
  have "rd_buf r1 ! rd_off r1 = c"
    using v x(1) by (metis rd_view_def hd_drop_conv_nth list.sel(1) drop_eq_Nil2 list.distinct(1) linorder_not_le)
  moreover note a = rd_advance_view [OF i(1,3)]
  ultimately show ?thesis
    using e i(3) x v by (intro exI [of _ "rd_advance 1 r1"] exI [of _ cs1]) (simp add: read_byte_def pending_def)
qed


lemma find_crlf_bound: "find_crlf s = Some p \<Longrightarrow> p + 2 \<le> length s"
  by (induction s arbitrary: p rule: find_crlf.induct) (auto split: if_splits)

lemma find_crlf_append: "find_crlf s = Some p \<Longrightarrow> find_crlf (s @ t) = Some p"
  by (induction s arbitrary: p rule: find_crlf.induct) (auto split: if_splits)

lemma find_crlf_line: "CR \<notin> set line \<Longrightarrow> find_crlf (line @ CR # LF # rest) = Some (length line)"
proof (induction line)
  case (Cons c line)
  then show ?case by (cases line) auto
qed simp

lemma read_line_pending:
  assumes "rd_ok r cs" "find_crlf (pending r cs) = Some p"
  shows "\<exists>r' cs'. read_line_crlf r cs = (Inr (take p (pending r cs)), r', cs')
    \<and> rd_ok r' cs' \<and> pending r' cs' = drop (p + 2) (pending r cs)"
  using assms
proof (induction r cs rule: read_line_crlf.induct)
  case (1 r cs)
  show ?case
  proof (cases "find_crlf (rd_view r)")
    case (Some q)
    then have "find_crlf (pending r cs) = Some q" by (simp add: pending_def find_crlf_append)
    then have q: "q = p" using "1.prems"(2) by simp
    have b: "p + 2 \<le> length (rd_view r)" using find_crlf_bound [OF Some] q by simp
    note a = rd_advance_view [OF "1.prems"(1), of "p + 2", unfolded rd_size_view, OF b]
    show ?thesis
      using Some a b q
      by (intro exI [of _ "rd_advance (p + 2) r"] exI [of _ cs]) (simp add: read_line_crlf.simps pending_def)
  next
    case None
    then obtain chunk cs1 where cs: "cs = chunk # cs1" using "1.prems"(2) by (cases cs) (auto simp: pending_def)
    have c: "chunk \<noteq> []" "rd_ok r cs1" using "1.prems"(1) cs by (auto simp: rd_ok_def)
    note a = rd_append_view [OF c(2), of chunk]
    have e: "pending (rd_append chunk r) cs1 = pending r cs" by (simp add: pending_def a(1) cs)
    have "read_line_crlf r cs = read_line_crlf (rd_append chunk r) cs1"
      unfolding cs using None c(1) by (simp add: read_line_crlf.simps [of r "chunk # cs1"])
    then show ?thesis using "1.IH" [OF None cs c(1) a(2)] "1.prems"(2) by (simp add: e)
  qed
qed

lemma read_number_line:
  assumes "rd_ok r cs" "pending r cs = to_string n @ [CR, LF] @ rest"
  obtains r' cs' where "read_line_crlf r cs = (Inr (to_string n), r', cs')" "rd_ok r' cs'" "pending r' cs' = rest"
  using read_line_pending [OF assms(1), of "length (to_string n)"] assms(2)
    find_crlf_line [of "to_string n" rest] by auto

lemma read_bulk_pending:
  assumes "rd_ok r cs" "pending r cs = to_string (length b) @ [CR, LF] @ b @ [CR, LF] @ rest"
    "int (length b) \<le> MAX_BULK"
  shows "\<exists>r' cs'. read_bulk r cs = (Inr b, r', cs') \<and> rd_ok r' cs' \<and> pending r' cs' = rest"
proof -
  obtain r1 cs1 where l: "read_line_crlf r cs = (Inr (to_string (length b)), r1, cs1)" "rd_ok r1 cs1"
    "pending r1 cs1 = b @ [CR, LF] @ rest"
    using read_number_line [OF assms(1,2)] by blast
  obtain r2 cs2 where e: "ensure (length b + 2) r1 cs1 = (r2, cs2)" by fastforce
  have i: "rd_ok r2 cs2" "pending r2 cs2 = b @ [CR, LF] @ rest" "length b + 2 \<le> rd_size r2"
    using ensure_pending [OF l(2), of "length b + 2"] l(3) e by auto
  have "rd_view r2 @ concat cs2 = (b @ [CR, LF]) @ rest" using i(2) by (simp add: pending_def)
  then obtain v where v: "rd_view r2 = b @ [CR, LF] @ v" "v @ concat cs2 = rest"
    using i(3)
  proof (cases rule: prefix_cases)
    case (2 us)
    have "length (b @ [CR, LF]) = length (rd_view r2 @ us)" by (simp only: 2(1))
    then show ?thesis using 2(2) i(3) by (simp add: rd_size_view)
  qed (use that in simp)
  have "length b \<le> INT64_MAX" using assms(3) by (simp add: MAX_BULK_def INT64_MAX_def)
  note f = from_chars_signed_to_string [OF this]
  note a = rd_advance_view [OF i(1,3)]
  have "read_bulk r cs = (Inr b, rd_advance (length b + 2) r2, cs2)"
    using l(1) f e i(3) assms(3) by (simp add: read_bulk_def v(1) nth_append)
  then show ?thesis using a v by (simp add: pending_def)
qed

lemma read_args_pending:
  assumes "rd_ok r cs" "pending r cs = enc_bulks bs @ rest" "\<forall>b \<in> set bs. int (length b) \<le> MAX_BULK"
  shows "\<exists>r' cs'. read_args (length bs) argv r cs = (Inr (argv @ bs), r', cs')
    \<and> rd_ok r' cs' \<and> pending r' cs' = rest"
  using assms
proof (induction bs arbitrary: argv r cs)
  case (Cons b bs)
  have "pending r cs = CHR ''$'' # to_string (length b) @ [CR, LF] @ b @ [CR, LF] @ (enc_bulks bs @ rest)"
    using Cons.prems(2) by (simp add: enc_bulk_def [of b])
  then obtain r1 cs1 where 1: "read_byte r cs = (CHR ''$'', r1, cs1)" "rd_ok r1 cs1"
    "pending r1 cs1 = to_string (length b) @ [CR, LF] @ b @ [CR, LF] @ (enc_bulks bs @ rest)"
    using read_byte_pending [OF Cons.prems(1)] by blast
  then obtain r2 cs2 where "read_bulk r1 cs1 = (Inr b, r2, cs2)" "rd_ok r2 cs2" "pending r2 cs2 = enc_bulks bs @ rest"
    using read_bulk_pending [OF 1(2,3)] Cons.prems(3) by auto
  with 1(1) Cons.IH [of r2 cs2 "argv @ [b]"] Cons.prems(3) show ?case by simp
qed simp

lemma read_command_enc:
  assumes "rd_ok r cs" "pending r cs = enc_array args @ rest" "args \<noteq> []"
    "int (length args) \<le> MAX_ARGS" "\<forall>b \<in> set args. int (length b) \<le> MAX_BULK"
  shows "\<exists>r' cs'. read_command r cs = (Inr args, r', cs') \<and> rd_ok r' cs' \<and> pending r' cs' = rest"
proof -
  have "pending r cs = CHR ''*'' # to_string (length args) @ [CR, LF] @ (enc_bulks args @ rest)"
    using assms(2) by (simp add: enc_array_def)
  then obtain r1 cs1 where 1: "read_byte r cs = (CHR ''*'', r1, cs1)" "rd_ok r1 cs1"
    "pending r1 cs1 = to_string (length args) @ [CR, LF] @ (enc_bulks args @ rest)"
    using read_byte_pending [OF assms(1)] by blast
  then obtain r2 cs2 where 2: "read_line_crlf r1 cs1 = (Inr (to_string (length args)), r2, cs2)" "rd_ok r2 cs2"
    "pending r2 cs2 = enc_bulks args @ rest"
    using read_number_line [OF 1(2,3)] by blast
  have "length args \<le> INT64_MAX" using assms(4) by (simp add: MAX_ARGS_def INT64_MAX_def)
  then have "read_int_line r1 cs1 = (Inr (int (length args)), r2, cs2)"
    by (simp add: read_int_line_def 2(1) from_chars_signed_to_string)
  then have "read_command r cs = read_args (length args) [] r2 cs2"
    using 1(1) assms(3,4) by (simp add: read_command_def)
  then show ?thesis using read_args_pending [OF 2(2,3) assms(5), of "[]"] by simp
qed

subsection \<open>Properties\<close>

text \<open>
  C31. \<open>Reader::read_command\<close> returns exactly the arguments of the next command of the
  stream, however the network cut the bytes into chunks and however many of them were
  buffered already, and leaves exactly the bytes after the command for the next call.
  With no bytes left it returns the empty array: the peer has closed the connection.
\<close>

theorem reader_chunk_independent:
  assumes "rd_ok r cs" "args \<noteq> []" "int (length args) \<le> MAX_ARGS"
    "\<forall>b \<in> set args. int (length b) \<le> MAX_BULK"
  shows "(pending r cs = enc_array args @ rest \<longrightarrow>
       (\<exists>r' cs'. read_command r cs = (Inr args, r', cs') \<and> rd_ok r' cs' \<and> pending r' cs' = rest))
    \<and> (pending r cs = [] \<longrightarrow> fst (read_command r cs) = Inr [])"
proof (intro conjI impI)
  show "\<exists>r' cs'. read_command r cs = (Inr args, r', cs') \<and> rd_ok r' cs' \<and> pending r' cs' = rest"
    if "pending r cs = enc_array args @ rest"
    by (rule read_command_enc [OF assms(1) that assms(2-4)])
  assume p: "pending r cs = []"
  then have "cs = []" using assms(1) by (cases cs) (auto simp: pending_def rd_ok_def)
  then show "fst (read_command r cs) = Inr []"
    using p by (simp add: read_command_def read_byte_def pending_def rd_size_view)
qed

theorem reader_chunk_independent_witness:
  "\<exists>r' cs'. read_command \<lparr>rd_buf = ''*1'', rd_off = 0\<rparr> [[CR], [LF] @ ''$4'' @ [CR, LF] @ ''QU'', ''IT'' @ [CR, LF] @ ''*'']
      = (Inr [''QUIT''], r', cs') \<and> rd_ok r' cs' \<and> pending r' cs' = ''*''"
proof -
  have "to_string (Suc 0) = ''1''" "to_string (Suc (Suc (Suc (Suc 0)))) = ''4''" by code_simp+
  then show ?thesis
    using reader_chunk_independent [of "\<lparr>rd_buf = ''*1'', rd_off = 0\<rparr>"
        "[[CR], [LF] @ ''$4'' @ [CR, LF] @ ''QU'', ''IT'' @ [CR, LF] @ ''*'']" "[''QUIT'']" "''*''"]
    by (simp add: rd_ok_def pending_def rd_view_def enc_array_def enc_bulk_def MAX_ARGS_def MAX_BULK_def del: ex_simps)
qed

end
