(* ===== verification/Commands.thy ===== *)
theory Commands
  imports Info Cache_Server Resp_Session Resp_Reader
begin

text \<open>
  The command handlers (\<open>src/cmd_get.cc\<close>, \<open>src/cmd_set.cc\<close>, \<open>src/cmd_quit.cc\<close>, \<open>src/cmd_node_info.cc\<close>,
  \<open>src/cmd_info.cc\<close>), the dispatch table of \<open>src/commands.cc\<close>, and \<open>handle_request\<close> of
  \<open>src/resp/resp_stream_processor.cc\<close>. A handler runs on the shard \<open>here\<close>; it returns what it
  wrote (\<open>Inr\<close>) or the message of the exception it threw (\<open>Inl\<close>), and the cluster.
\<close>

type_synonym handler =
  "runtime \<Rightarrow> u32 \<Rightarrow> moment \<Rightarrow> sstring list \<Rightarrow> string \<Rightarrow> cluster \<Rightarrow> (string + string) \<times> cluster"

definition SQ :: string where
  "SQ = [CHR 0x27]"

subsection \<open>GET\<close>

definition get_key_value :: "runtime \<Rightarrow> u32 \<Rightarrow> moment \<Rightarrow> sstring \<Rightarrow> service \<Rightarrow> sstring option \<times> service" where
  "get_key_value rt sid mo key sv = local_get rt sid mo key sv"

definition handle_get :: handler where
  "handle_get rt here mo cmd out cl =
     (if length cmd \<noteq> 2 then (Inr (write_error out (''ERR wrong number of arguments for '' @ SQ @ ''GET'' @ SQ)), cl)
      else
        let key = cmd ! 1
        in if key = [] then (Inr (write_error out ''ERR empty key''), cl)
           else
             let sid = owner rt key;
                 forwarded = (sid \<noteq> here);
                 cl1 = on_shard here (record_get forwarded) cl;
                 (val, cl2) =
                   (if \<not> forwarded then submit_to here (get_key_value rt here mo key) cl1
                    else submit_to sid (get_key_value rt sid mo key) cl1)
             in case val of
                  Some v \<Rightarrow> (Inr (write_bulk out v), cl2)
                | None \<Rightarrow> (Inr (write_null out), on_shard here (service_record_cache_miss_count 1) cl2))"

subsection \<open>SET\<close>

definition set_key_value :: "runtime \<Rightarrow> u32 \<Rightarrow> moment \<Rightarrow> sstring \<Rightarrow> sstring \<Rightarrow> u64 \<Rightarrow> service \<Rightarrow> bool \<times> service" where
  "set_key_value rt sid mo key value ttl_ms sv =
     (if ttl_ms = 0 then local_set rt sid mo key value sv else local_set_ttl rt sid mo key value ttl_ms sv)"

text \<open>The optional arguments: the time to live, 0 for none, or the error reply.\<close>

definition set_options :: "sstring list \<Rightarrow> string + u64" where
  "set_options cmd =
     (if length cmd = 5 then
        if \<not> ieq (cmd ! 3) ''EX'' then Inl ''ERR syntax error (expected EX)''
        else
          (case from_chars_unsigned (2 ^ 64 - 1) (cmd ! 4) of
             Inr (n, []) \<Rightarrow> if n = 0 then Inl ''ERR invalid expire time'' else Inr (of_nat n)
           | _ \<Rightarrow> Inl ''ERR invalid expire time'')
      else if length cmd \<noteq> 3 then Inl ''ERR syntax error''
      else Inr 0)"

definition handle_set :: handler where
  "handle_set rt here mo cmd out cl =
     (if length cmd < 3 then (Inr (write_error out (''ERR wrong number of arguments for '' @ SQ @ ''SET'' @ SQ)), cl)
      else
        let key = cmd ! 1; value = cmd ! 2
        in if key = [] then (Inr (write_error out ''ERR empty key''), cl)
           else
             case set_options cmd of
               Inl msg \<Rightarrow> (Inr (write_error out msg), cl)
             | Inr ttl_ms \<Rightarrow>
                 (let sid = owner rt key;
                      forwarded = (sid \<noteq> here);
                      (ok, cl1) =
                        (if \<not> forwarded then submit_to here (set_key_value rt here mo key value ttl_ms) cl
                         else submit_to sid (set_key_value rt sid mo key value ttl_ms) cl)
                  in if ok then (Inr (write_simple out ''OK''), cl1) else (Inr (write_error out ''NOT STORED''), cl1)))"

subsection \<open>QUIT, NODE\_INFO and INFO\<close>

definition handle_quit :: handler where
  "handle_quit rt here mo cmd out cl = (Inr (write_simple out ''BYE''), cl)"

definition handle_node_info :: handler where
  "handle_node_info rt here mo cmd out cl =
     (if length cmd \<noteq> 1 \<and> length cmd \<noteq> 2
      then (Inr (write_error out (''ERR wrong number of arguments for '' @ SQ @ ''NODE_INFO'' @ SQ)), cl)
      else if length cmd = 2 \<and> (ieq (cmd ! 1) ''RANGES'' \<or> ieq (cmd ! 1) ''MAP'')
      then (Inr (write_bulk out (compute_hash_ranges (rt_node rt))), cl)
      else if length cmd = 2 \<and> ieq (cmd ! 1) ''SHARDS''
      then (Inr (write_bulk out (get_smp_count (rt_node rt))), cl)
      else
        case (if length cmd = 2 then parse_u16 (cmd ! 1) else Inr (ucast here)) of
          Inl msg \<Rightarrow> (Inl msg, cl)
        | Inr shard_no \<Rightarrow> (Inr (write_bulk out (compute_hash (rt_node rt) shard_no)), cl))"

definition handle_info :: handler where
  "handle_info rt here mo cmd out cl =
     (if 2 < length cmd then (Inr (write_error out (''ERR wrong number of arguements for '' @ SQ @ ''INFO'' @ SQ)), cl)
      else if length cmd = 2 then
        if \<not> ieq (cmd ! 1) ''JSON'' then (Inr (write_error out (''Invalid sub arg for '' @ SQ @ ''INFO'' @ SQ)), cl)
        else (Inr (write_bulk out (fetchJsonInfo rt mo cl)), cl)
      else (Inr (write_bulk out (fetchInfo rt mo cl)), cl))"

subsection \<open>Dispatch\<close>

definition command_dispatch :: "(string \<times> handler) list" where
  "command_dispatch =
     [(''SET'', handle_set), (''GET'', handle_get), (''QUIT'', handle_quit), (''NODE_INFO'', handle_node_info),
      (''INFO'', handle_info)]"

definition handle_request :: "runtime \<Rightarrow> u32 \<Rightarrow> moment \<Rightarrow> parsed_request \<Rightarrow> cluster \<Rightarrow> string \<times> cluster" where
  "handle_request rt here mo req cl =
     (if req_argv req = [] \<and> req_frame req \<noteq> [] \<and> hd (req_frame req) = CHR ''-'' then (req_frame req, cl)
      else if req_argv req = [] then (''-ERR empty command'' @ [CR, LF], cl)
      else
        case find (\<lambda>entry. ascii_ieq (hd (req_argv req)) (fst entry)) command_dispatch of
          None \<Rightarrow> (''-ERR unknown command'' @ [CR, LF], cl)
        | Some (_, h) \<Rightarrow>
            (case h rt here mo (req_argv req) [] cl of
               (Inr out, cl1) \<Rightarrow> (out, cl1)
             | (Inl what, cl1) \<Rightarrow> (''-ERR '' @ what @ [CR, LF], cl1)))"

subsection \<open>The sessions of \<open>tcp_server\<close>\<close>

text \<open>
  \<open>handle_session\<close> of \<open>src/server.cc\<close>, a file that the build leaves out: one command after the
  other, read with \<open>Reader\<close>. The list of the moments at which the commands run bounds the
  number of iterations; \<open>None\<close> says that it was too short. An exception ends the session.
\<close>

fun handle_session ::
  "runtime \<Rightarrow> u32 \<Rightarrow> moment list \<Rightarrow> reader \<Rightarrow> string list \<Rightarrow> string \<Rightarrow> cluster \<Rightarrow> (string \<times> cluster) option" where
  "handle_session rt here [] r cs out cl = None"
| "handle_session rt here (mo # mos) r cs out cl =
     (case read_command r cs of
        (Inl e, _) \<Rightarrow> Some (out, cl)
      | (Inr cmd, r1, cs1) \<Rightarrow>
          if cmd = [] then Some (out, cl)
          else
            let cmdU = to_upper (hd cmd)
            in case map_of command_dispatch cmdU of
                 None \<Rightarrow> handle_session rt here mos r1 cs1 (write_error out ''ERR unknown command'') cl
               | Some h \<Rightarrow>
                   (case h rt here mo cmd out cl of
                      (Inl e, cl1) \<Rightarrow> Some (out, cl1)
                    | (Inr out1, cl1) \<Rightarrow>
                        if cmdU = ''QUIT'' then Some (out1, cl1)
                        else handle_session rt here mos r1 cs1 out1 cl1))"


subsection \<open>One call on the owner of a key\<close>

lemma ensure_started_id: "sv_started sv \<Longrightarrow> ensure_started rt here sv = sv"
  by (simp add: ensure_started_def)

lemma view_update:
  "cluster_view rt (cl(sid := sv)) k = (if owner rt k = sid then contents (sv_store sv) k else cluster_view rt cl k)"
  by (simp add: cluster_view_def)

lemma cluster_ok_update:
  assumes "cluster_ok rt n cl" "sv_started sv" "store_inv (sv_store sv)" "next_addr (sv_store sv) + m < 2 ^ 63" "m \<le> n"
  shows "cluster_ok rt m (cl(sid := sv))"
  using assms by (auto simp: cluster_ok_def)

text \<open>A step of the owner's store is a step of the cluster.\<close>

fun op_key :: "store_op \<Rightarrow> sstring option" where
  "op_key (OpSet now key v) = Some key"
| "op_key (OpSetEx now now' key v ttl) = Some key"
| "op_key (OpGet now key) = Some key"
| "op_key _ = None"

lemma cache_step_lift:
  assumes "cache_step op r m m'" "op_key op = Some key" "P key"
    "\<And>k. P k \<Longrightarrow> M k = m k" "\<And>k. M' k = (if P k then m' k else M k)"
  shows "cache_step op r M M'"
  using assms(1)
proof cases
  case (step_set m1 k v now)
  then have k: "P k" using assms(2,3) by simp
  let ?M1 = "\<lambda>x. if P x then m1 x else M x"
  have "?M1 \<subseteq>\<^sub>m M" using step_set(3) assms(4) by (auto simp: map_le_def)
  moreover have "M' \<subseteq>\<^sub>m ?M1(k \<mapsto> set_value False (v, 0) (?M1 k))"
    using step_set(4) assms(5) k by (auto simp: map_le_def dom_def split: if_splits)
  ultimately show ?thesis unfolding step_set(1,2) by (rule cache_step.step_set)
next
  case (step_set_ex m1 k v now ttl now')
  then have k: "P k" using assms(2,3) by simp
  let ?M1 = "\<lambda>x. if P x then m1 x else M x"
  have "?M1 \<subseteq>\<^sub>m M" using step_set_ex(3) assms(4) by (auto simp: map_le_def)
  moreover have "M' \<subseteq>\<^sub>m ?M1(k \<mapsto> (v, now + ttl))"
    using step_set_ex(4) assms(5) k by (auto simp: map_le_def dom_def split: if_splits)
  ultimately show ?thesis unfolding step_set_ex(1,2) by (rule cache_step.step_set_ex)
next
  case (step_get now k)
  then have k: "P k" using assms(2,3) by simp
  have "cache_lookup now k m = cache_lookup now k M" using assms(4) [OF k] by (simp add: cache_lookup_def)
  moreover have "M' = cache_expire now k M"
  proof
    fix x
    show "M' x = cache_expire now k M x"
      using step_get(3) assms(4) [OF k] assms(4) [of x] assms(5) [of x] k
      by (auto simp: cache_expire_def split: option.splits if_splits)
  qed
  ultimately show ?thesis using step_get cache_step.step_get [of now k M] by simp
qed (use assms(2) in simp_all)

lemma owner_exec:
  assumes "cluster_ok rt (Suc n) cl" "op_key op = Some key"
    "store_exec (rt_rnd rt) op (sv_store (cl (owner rt key))) = (r, st)"
  shows "cache_step op r (cluster_view rt cl) (cluster_view rt (cl(owner rt key := (cl (owner rt key))\<lparr>sv_store := st\<rparr>)))"
    "cluster_ok rt n (cl(owner rt key := (cl (owner rt key))\<lparr>sv_store := st\<rparr>))"
proof -
  note o = cluster_ok_owner [OF assms(1), of key]
  have "Suc (next_addr (sv_store (cl (owner rt key)))) < 2 ^ 63" using o(3) by simp
  from store_exec_refines [OF o(2) this assms(3)]
  have e: "cache_step op r (contents (sv_store (cl (owner rt key)))) (contents st)" "store_inv st"
    "next_addr st \<le> Suc (next_addr (sv_store (cl (owner rt key))))" by blast+
  show "cache_step op r (cluster_view rt cl) (cluster_view rt (cl(owner rt key := (cl (owner rt key))\<lparr>sv_store := st\<rparr>)))"
    by (rule cache_step_lift [OF e(1) assms(2), where P = "\<lambda>k. owner rt k = owner rt key"])
      (simp_all add: view_update cluster_view_def)
  show "cluster_ok rt n (cl(owner rt key := (cl (owner rt key))\<lparr>sv_store := st\<rparr>))"
    using e(2,3) o(1,3) by (intro cluster_ok_update [OF assms(1)]) simp_all
qed

text \<open>Counters do not matter.\<close>

lemma record_get_fields [simp]:
  "sv_store (record_get f sv) = sv_store sv" "sv_started (record_get f sv) = sv_started sv"
  by (simp_all add: record_get_def Let_def)

lemma on_shard_neutral:
  assumes "\<And>sv. sv_started (f sv) = sv_started sv" "\<And>sv. store_inv (sv_store (f sv)) = store_inv (sv_store sv)"
    "\<And>sv. contents (sv_store (f sv)) = contents (sv_store sv)" "\<And>sv. next_addr (sv_store (f sv)) = next_addr (sv_store sv)"
  shows "cluster_view rt (on_shard here f cl) = cluster_view rt cl" "cluster_ok rt n (on_shard here f cl) = cluster_ok rt n cl"
  using assms by (auto simp: on_shard_def cluster_view_def cluster_ok_def fun_eq_iff)

lemma on_shard_record_get [simp]:
  "cluster_view rt (on_shard here (record_get f) cl) = cluster_view rt cl"
  "cluster_ok rt n (on_shard here (record_get f) cl) = cluster_ok rt n cl"
  by (rule on_shard_neutral; simp)+

lemma on_shard_miss [simp]:
  "cluster_view rt (on_shard here (service_record_cache_miss_count c) cl) = cluster_view rt cl"
  "cluster_ok rt n (on_shard here (service_record_cache_miss_count c) cl) = cluster_ok rt n cl"
  by (rule on_shard_neutral; simp add: service_record_cache_miss_count_def)+


subsection \<open>Valid requests\<close>

text \<open>The call of the store that a well-formed SET or GET stands for.\<close>

definition op_of :: "moment \<Rightarrow> sstring list \<Rightarrow> store_op option" where
  "op_of mo argv =
     (if argv \<noteq> [] \<and> ascii_ieq (hd argv) ''SET'' then
        if length argv < 3 \<or> argv ! 1 = [] then None
        else (case set_options argv of
                Inl _ \<Rightarrow> None
              | Inr ttl \<Rightarrow>
                  Some (if ttl = 0 then OpSet (mo_now mo) (argv ! 1) (argv ! 2)
                        else OpSetEx (mo_now mo) (mo_now2 mo) (argv ! 1) (argv ! 2) ttl))
      else if argv \<noteq> [] \<and> ascii_ieq (hd argv) ''GET'' \<and> length argv = 2 \<and> argv ! 1 \<noteq> []
      then Some (OpGet (mo_now mo) (argv ! 1))
      else None)"

fun reply_of :: "store_ret \<Rightarrow> string" where
  "reply_of (RSet True) = ''+OK'' @ [CR, LF]"
| "reply_of (RSet False) = ''-NOT STORED'' @ [CR, LF]"
| "reply_of (RGet (Some v)) = enc_bulk v"
| "reply_of (RGet None) = ''$-1'' @ [CR, LF]"
| "reply_of RUnit = []"

lemma handle_get_step:
  assumes "cluster_ok rt (Suc n) cl" "length cmd = 2" "cmd ! 1 = key" "key \<noteq> []" "handle_get rt here mo cmd out cl = (res, cl')"
  shows "\<exists>r. res = Inr (out @ reply_of r) \<and> cache_step (OpGet (mo_now mo) key) r (cluster_view rt cl) (cluster_view rt cl')
    \<and> cluster_ok rt n cl'"
proof -
  define cl1 where "cl1 = on_shard here (record_get (owner rt key \<noteq> here)) cl"
  have ok: "cluster_ok rt (Suc n) cl1" "cluster_view rt cl1 = cluster_view rt cl" using assms(1) by (simp_all add: cl1_def)
  obtain v st where g: "store_get (mo_now mo) key (sv_store (cl1 (owner rt key))) = (v, st)" by fastforce
  define cl2 where "cl2 = cl1(owner rt key := (cl1 (owner rt key))\<lparr>sv_store := st\<rparr>)"
  have "store_exec (rt_rnd rt) (OpGet (mo_now mo) key) (sv_store (cl1 (owner rt key))) = (RGet v, st)" by (simp add: g)
  from owner_exec [OF ok(1) _ this, folded cl2_def] ok(2)
  have e: "cache_step (OpGet (mo_now mo) key) (RGet v) (cluster_view rt cl) (cluster_view rt cl2)" "cluster_ok rt n cl2"
    by simp_all
  have "submit_to (owner rt key) (get_key_value rt (owner rt key) mo key) cl1 = (v, cl2)"
    using cluster_ok_owner(1) [OF ok(1), of key]
    by (simp add: submit_to_def get_key_value_def local_get_def ensure_started_id g cl2_def)
  then have "handle_get rt here mo cmd out cl =
      (case v of Some v \<Rightarrow> (Inr (write_bulk out v), cl2)
       | None \<Rightarrow> (Inr (write_null out), on_shard here (service_record_cache_miss_count 1) cl2))"
    using assms(2,4) unfolding handle_get_def Let_def assms(3) cl1_def [symmetric] by (cases "owner rt key = here") simp_all
  then show ?thesis
    using assms(5) e by (cases v) (auto intro!: exI [of _ "RGet v"] simp: write_bulk_enc write_null_def)
qed

lemma set_exec:
  assumes "op = (if ttl = 0 then OpSet (mo_now mo) key v else OpSetEx (mo_now mo) (mo_now2 mo) key v ttl)"
    "sv_started sv"
  obtains b st where "store_exec (rt_rnd rt) op (sv_store sv) = (RSet b, st)"
    "set_key_value rt sid mo key v ttl sv = (b, sv\<lparr>sv_store := st\<rparr>)"
  using assms that
  by (cases "store_set (rt_rnd rt) (mo_now mo) key v (sv_store sv)";
      cases "set_with_ttl (rt_rnd rt) (mo_now mo) (mo_now2 mo) key v ttl (sv_store sv)"; cases "ttl = 0")
    (simp_all add: set_key_value_def local_set_def local_set_ttl_def ensure_started_id)

lemma handle_set_step:
  assumes "cluster_ok rt (Suc n) cl" "\<not> length cmd < 3" "cmd ! 1 = key" "cmd ! 2 = v" "key \<noteq> []" "set_options cmd = Inr ttl"
    "handle_set rt here mo cmd out cl = (res, cl')"
    "op = (if ttl = 0 then OpSet (mo_now mo) key v else OpSetEx (mo_now mo) (mo_now2 mo) key v ttl)"
  shows "\<exists>r. res = Inr (out @ reply_of r) \<and> cache_step op r (cluster_view rt cl) (cluster_view rt cl') \<and> cluster_ok rt n cl'"
proof -
  have k: "op_key op = Some key" using assms(8) by simp
  obtain b st where x: "store_exec (rt_rnd rt) op (sv_store (cl (owner rt key))) = (RSet b, st)"
    "set_key_value rt (owner rt key) mo key v ttl (cl (owner rt key)) = (b, (cl (owner rt key))\<lparr>sv_store := st\<rparr>)"
    using set_exec [OF assms(8) cluster_ok_owner(1) [OF assms(1)]] by metis
  define cl2 where "cl2 = cl(owner rt key := (cl (owner rt key))\<lparr>sv_store := st\<rparr>)"
  note e = owner_exec [OF assms(1) k x(1), folded cl2_def]
  have "submit_to (owner rt key) (set_key_value rt (owner rt key) mo key v ttl) cl = (b, cl2)"
    by (simp add: submit_to_def x(2) cl2_def)
  then have "handle_set rt here mo cmd out cl =
      (if b then (Inr (write_simple out ''OK''), cl2) else (Inr (write_error out ''NOT STORED''), cl2))"
    using assms(2,5) unfolding handle_set_def Let_def assms(3,4,6) by (cases "owner rt key = here") simp_all
  then show ?thesis
    using assms(7) e by (cases b) (auto intro!: exI [of _ "RSet b"] simp: write_simple_def write_error_def write_crlf_def)
qed

lemma dispatch_set: "ascii_ieq a ''SET'' \<Longrightarrow> find (\<lambda>entry. ascii_ieq a (fst entry)) command_dispatch = Some (''SET'', handle_set)"
  by (simp add: command_dispatch_def)

lemma dispatch_get: "ascii_ieq a ''GET'' \<Longrightarrow> find (\<lambda>entry. ascii_ieq a (fst entry)) command_dispatch = Some (''GET'', handle_get)"
  by (auto simp: command_dispatch_def ascii_ieq_map ascii_upper_def)

lemma handle_request_valid:
  assumes "cluster_ok rt (Suc n) cl" "op_of mo (req_argv req) = Some op" "handle_request rt here mo req cl = (reply, cl')"
  shows "\<exists>r. reply = reply_of r \<and> cache_step op r (cluster_view rt cl) (cluster_view rt cl') \<and> cluster_ok rt n cl'"
proof -
  let ?a = "req_argv req"
  have ne: "?a \<noteq> []" using assms(2) by (auto simp: op_of_def split: if_splits)
  show ?thesis
  proof (cases "ascii_ieq (hd ?a) ''SET''")
    case True
    then obtain ttl where t: "\<not> length ?a < 3" "?a ! 1 \<noteq> []" "set_options ?a = Inr ttl"
      "op = (if ttl = 0 then OpSet (mo_now mo) (?a ! 1) (?a ! 2) else OpSetEx (mo_now mo) (mo_now2 mo) (?a ! 1) (?a ! 2) ttl)"
      using assms(2) ne by (auto simp: op_of_def split: if_splits sum.splits)
    obtain res cl2 where h: "handle_set rt here mo ?a [] cl = (res, cl2)" by fastforce
    obtain r where r: "res = Inr ([] @ reply_of r)" "cache_step op r (cluster_view rt cl) (cluster_view rt cl2)" "cluster_ok rt n cl2"
      using handle_set_step [OF assms(1) t(1) refl refl t(2,3) h t(4)] by blast
    show ?thesis using assms(3) ne r h dispatch_set [OF True] by (auto simp: handle_request_def)
  next
    case False
    then have t: "ascii_ieq (hd ?a) ''GET''" "length ?a = 2" "?a ! 1 \<noteq> []" "op = OpGet (mo_now mo) (?a ! 1)"
      using assms(2) ne by (auto simp: op_of_def split: if_splits)
    obtain res cl2 where h: "handle_get rt here mo ?a [] cl = (res, cl2)" by fastforce
    obtain r where r: "res = Inr ([] @ reply_of r)" "cache_step op r (cluster_view rt cl) (cluster_view rt cl2)" "cluster_ok rt n cl2"
      using handle_get_step [OF assms(1) t(2) refl t(3) h] t(4) by blast
    show ?thesis using assms(3) ne r h dispatch_get [OF t(1)] by (auto simp: handle_request_def)
  qed
qed


subsection \<open>All other requests\<close>

lemma dispatch_other:
  assumes "\<not> ascii_ieq a ''SET''" "\<not> ascii_ieq a ''GET''" "find (\<lambda>entry. ascii_ieq a (fst entry)) command_dispatch = Some (name, h)"
  shows "h = handle_quit \<or> h = handle_node_info \<or> h = handle_info"
  using assms by (auto simp: command_dispatch_def split: if_splits)

lemma readonly_handlers:
  "snd (handle_quit rt here mo cmd out cl) = cl" "snd (handle_node_info rt here mo cmd out cl) = cl"
  "snd (handle_info rt here mo cmd out cl) = cl"
  by (auto simp: handle_quit_def handle_node_info_def handle_info_def split: sum.splits)

text \<open>An error reply: one line that starts with a minus sign.\<close>

definition is_error :: "string \<Rightarrow> bool" where
  "is_error reply \<longleftrightarrow> (\<exists>msg. reply = ''-'' @ msg @ [CR, LF])"

lemma write_error_is_error: "is_error (write_error [] msg)"
  by (simp add: is_error_def write_error_def write_crlf_def)

lemma invalid_set:
  assumes "length cmd < 3 \<or> cmd ! 1 = [] \<or> (\<exists>e. set_options cmd = Inl e)"
  shows "\<exists>msg. handle_set rt here mo cmd out cl = (Inr (write_error out msg), cl)"
  using assms by (auto simp: handle_set_def Let_def split: sum.split)

lemma invalid_get:
  assumes "length cmd \<noteq> 2 \<or> cmd ! 1 = []"
  shows "\<exists>msg. handle_get rt here mo cmd out cl = (Inr (write_error out msg), cl)"
  using assms by (auto simp: handle_get_def Let_def)

lemma handle_request_other:
  assumes "op_of mo (req_argv req) = None"
  shows "snd (handle_request rt here mo req cl) = cl"
    "req_argv req \<noteq> [] \<Longrightarrow> ascii_ieq (hd (req_argv req)) ''SET'' \<or> ascii_ieq (hd (req_argv req)) ''GET'' \<Longrightarrow>
      is_error (fst (handle_request rt here mo req cl))"
proof -
  let ?a = "req_argv req"
  have s: "\<exists>msg. handle_set rt here mo ?a [] cl = (Inr (write_error [] msg), cl)" if "?a \<noteq> []" "ascii_ieq (hd ?a) ''SET''"
  proof (rule invalid_set)
    show "length ?a < 3 \<or> ?a ! 1 = [] \<or> (\<exists>e. set_options ?a = Inl e)"
      using assms that by (cases "set_options ?a") (auto simp: op_of_def split: if_splits)
  qed
  have g: "\<exists>msg. handle_get rt here mo ?a [] cl = (Inr (write_error [] msg), cl)" if "?a \<noteq> []" "ascii_ieq (hd ?a) ''GET''" "\<not> ascii_ieq (hd ?a) ''SET''"
    using assms that by (intro invalid_get) (auto simp: op_of_def split: if_splits)
  show "snd (handle_request rt here mo req cl) = cl"
  proof (cases "?a = [] \<or> find (\<lambda>entry. ascii_ieq (hd ?a) (fst entry)) command_dispatch = None")
    case True
    then show ?thesis by (auto simp: handle_request_def)
  next
    case False
    then obtain name h where f: "find (\<lambda>entry. ascii_ieq (hd ?a) (fst entry)) command_dispatch = Some (name, h)" by auto
    have "snd (h rt here mo ?a [] cl) = cl"
    proof (cases "ascii_ieq (hd ?a) ''SET''")
      case True
      then show ?thesis using f False s dispatch_set [OF True] by auto
    next
      case ns: False
      then show ?thesis
      proof (cases "ascii_ieq (hd ?a) ''GET''")
        case True
        then show ?thesis using f False ns g dispatch_get [OF True] by auto
      next
        case ng: False
        show ?thesis using dispatch_other [OF ns ng f] readonly_handlers by auto
      qed
    qed
    then show ?thesis using False f by (auto simp: handle_request_def split: prod.splits sum.splits)
  qed
  show "is_error (fst (handle_request rt here mo req cl))" if ne: "?a \<noteq> []" and c: "ascii_ieq (hd ?a) ''SET'' \<or> ascii_ieq (hd ?a) ''GET''"
  proof (cases "ascii_ieq (hd ?a) ''SET''")
    case True
    then show ?thesis using ne s [OF ne True] dispatch_set [OF True] write_error_is_error by (auto simp: handle_request_def)
  next
    case False
    then have "ascii_ieq (hd ?a) ''GET''" using c by simp
    then show ?thesis using ne g [OF ne _ False] dispatch_get write_error_is_error by (auto simp: handle_request_def)
  qed
qed

subsection \<open>Many requests, on any shards\<close>

type_synonym request = "u32 \<times> moment \<times> parsed_request"

fun serve :: "runtime \<Rightarrow> request list \<Rightarrow> cluster \<Rightarrow> string list \<times> cluster" where
  "serve rt [] cl = ([], cl)"
| "serve rt ((here, mo, req) # reqs) cl =
     (let (reply, cl1) = handle_request rt here mo req cl; (replies, cl2) = serve rt reqs cl1
      in (reply # replies, cl2))"

definition request_op :: "request \<Rightarrow> store_op option" where
  "request_op = (\<lambda>(here, mo, req). op_of mo (req_argv req))"

lemma cluster_ok_mono: "cluster_ok rt n cl \<Longrightarrow> m \<le> n \<Longrightarrow> cluster_ok rt m cl"
  by (auto simp: cluster_ok_def)

definition serve_one :: "runtime \<Rightarrow> request \<Rightarrow> cluster \<Rightarrow> string \<times> cluster" where
  "serve_one rt = (\<lambda>(here, mo, req). handle_request rt here mo req)"

lemma serve_run_all: "serve rt reqs cl = run_all (serve_one rt) reqs cl"
proof (induction reqs arbitrary: cl)
  case (Cons q reqs)
  then show ?case by (cases q) (simp add: serve_one_def split: prod.split)
qed simp

interpretation cluster: cache_server "serve_one rt" request_op "cluster_view rt" "cluster_ok rt" reply_of for rt
proof
  fix n cl q c a cl'
  assume ok: "cluster_ok rt (Suc n) cl" and e: "serve_one rt q cl = (a, cl')"
  obtain here mo req where q: "q = (here, mo, req)" by (cases q)
  have h: "handle_request rt here mo req cl = (a, cl')" using e by (simp add: q serve_one_def)
  show "\<exists>r. a = reply_of r \<and> cache_step c r (cluster_view rt cl) (cluster_view rt cl') \<and> cluster_ok rt n cl'"
    if "request_op q = Some c"
    using handle_request_valid [OF ok _ h] that by (simp add: q request_op_def)
  show "cluster_view rt cl' = cluster_view rt cl \<and> cluster_ok rt n cl'" if "request_op q = None"
    using handle_request_other(1) [of mo req rt here cl] h that cluster_ok_mono [OF ok, of n] by (simp add: q request_op_def)
qed

definition example_runtime :: runtime where
  "example_runtime = \<lparr>rt_rnd = id, rt_sz = 76, rt_total_mem = (\<lambda>_. 1600), rt_free_mem = (\<lambda>_. 0), rt_smp = 2, rt_first = 0,
     rt_node = default_node_cfg\<lparr>nc_smp := 2\<rparr>\<rparr>"

definition example_moment :: moment where
  "example_moment = \<lparr>mo_now = 5, mo_now2 = 5, mo_mem = (\<lambda>_. \<lparr>ms_allocated = 0, ms_mallocs = 0, ms_free = 0, ms_total = 0, ms_failed = 0\<rparr>)\<rparr>"

definition example_cluster :: cluster where
  "example_cluster = start_services example_runtime example_config (dc_ev_config example_config)"

lemma example_cluster_size: "max_size (sv_store (example_cluster sid)) \<le> 4"
proof (cases "sid < rt_smp example_runtime")
  case True
  then have "sv_store (example_cluster sid) = example_store"
    by (simp add: example_cluster_def start_services_def service_start_def new_service_def example_runtime_def example_store_def)
  then show ?thesis by (simp add: example_store_size)
next
  case False
  then show ?thesis by (simp add: example_cluster_def start_services_def new_service_def new_store_def)
qed

lemma example_cluster_small: "n < 1000 \<Longrightarrow> \<forall>sid. max_size (sv_store (example_cluster sid)) + n < 2 ^ 63"
proof
  fix sid
  assume "n < 1000"
  then show "max_size (sv_store (example_cluster sid)) + n < 2 ^ 63" using example_cluster_size [of sid] by simp
qed

subsection \<open>Properties\<close>

text \<open>
  C2. Whatever requests arrive, in whatever order and on whatever shards, the cluster answers
  like one cache: the replies to the well-formed SETs and GETs are the encoded answers of a
  run of the cache specification, which starts empty and ends with what the shards store.
\<close>

theorem cluster_refines_cache:
  assumes "rt_first rt < rt_smp rt"
    "\<forall>sid. max_size (sv_store (start_services rt cfg ev sid)) + length reqs < 2 ^ 63"
    "serve rt reqs (start_services rt cfg ev) = (replies, cl)"
  shows "\<exists>rs. cache_run (ops_in request_op reqs) rs Map.empty (cluster_view rt cl) \<and> op_answers request_op reqs replies = map reply_of rs"
proof -
  note s = cluster_ok_start [OF assms(1,2)]
  show ?thesis using cluster.run_refines [of rt reqs 0, OF _ assms(3) [unfolded serve_run_all]] s by auto
qed

theorem cluster_refines_cache_witness:
  "let reqs = [(0, example_moment, cmd_request [''SET'', ''k'', ''v'']), (1, example_moment, cmd_request [''get'', ''k''])];
       (replies, cl) = serve example_runtime reqs example_cluster
   in \<exists>rs. cache_run (ops_in request_op reqs) rs Map.empty (cluster_view example_runtime cl) \<and> op_answers request_op reqs replies = map reply_of rs"
proof -
  let ?reqs = "[(0, example_moment, cmd_request [''SET'', ''k'', ''v'']), (1, example_moment, cmd_request [''get'', ''k''])]"
  obtain replies cl where s: "serve example_runtime ?reqs example_cluster = (replies, cl)" by fastforce
  have "rt_first example_runtime < rt_smp example_runtime" by (simp add: example_runtime_def)
  moreover have "\<forall>sid. max_size (sv_store (start_services example_runtime example_config (dc_ev_config example_config) sid))
      + length ?reqs < 2 ^ 63"
    by (rule example_cluster_small [unfolded example_cluster_def]) simp
  ultimately show ?thesis
    unfolding Let_def s prod.case by (rule cluster_refines_cache [OF _ _ s [unfolded example_cluster_def]])
qed

text \<open>
  C3. A GET on any shard answers with the value of the last SET of the key, on whatever shard
  that SET arrived, or with null if the key was never written, evicted or expired; never with
  an older value or the value of another key.
\<close>

theorem cluster_reads_last_write:
  assumes "rt_first rt < rt_smp rt" "key \<noteq> []"
    "\<forall>sid. max_size (sv_store (start_services rt cfg ev sid)) + Suc (length reqs) < 2 ^ 63"
    "serve rt reqs (start_services rt cfg ev) = (replies, cl)"
    "handle_request rt here mo (cmd_request [''GET'', key]) cl = (reply, cl')"
  shows "reply = ''$-1'' @ [CR, LF] \<or> (\<exists>v. last_write key None (ops_in request_op reqs) = Some v \<and> reply = enc_bulk v)"
proof -
  have "\<forall>sid. max_size (sv_store (start_services rt cfg ev sid)) + (length reqs + 1) < 2 ^ 63"
    using assms(3) by simp
  note s = cluster_ok_start [OF assms(1) this]
  have "request_op (here, mo, cmd_request [''GET'', key]) = Some (OpGet (mo_now mo) key)"
    using assms(2) by (simp add: request_op_def op_of_def cmd_request_def ascii_ieq_map ascii_upper_def)
  from cluster.reads_last_write [OF s assms(4) [unfolded serve_run_all] this, of reply cl'] assms(5) show ?thesis
    by (auto simp: serve_one_def)
qed

theorem cluster_reads_last_write_witness:
  "let cl = snd (serve example_runtime [(0, example_moment, cmd_request [''SET'', ''k'', ''v''])] example_cluster);
       reply = fst (handle_request example_runtime 1 example_moment (cmd_request [''GET'', ''k'']) cl)
   in reply = ''$-1'' @ [CR, LF] \<or> reply = enc_bulk ''v''"
proof -
  let ?reqs = "[(0, example_moment, cmd_request [''SET'', ''k'', ''v''])]"
  let ?cl = "snd (serve example_runtime ?reqs example_cluster)"
  let ?h = "handle_request example_runtime 1 example_moment (cmd_request [''GET'', ''k'']) ?cl"
  have "rt_first example_runtime < rt_smp example_runtime" by (simp add: example_runtime_def)
  moreover have "''k'' \<noteq> []" by simp
  moreover have "\<forall>sid. max_size (sv_store (start_services example_runtime example_config (dc_ev_config example_config) sid))
      + Suc (length ?reqs) < 2 ^ 63"
    by (rule example_cluster_small [unfolded example_cluster_def]) simp
  ultimately have "fst ?h = ''$-1'' @ [CR, LF] \<or> (\<exists>v. last_write ''k'' None (ops_in request_op ?reqs) = Some v \<and> fst ?h = enc_bulk v)"
    unfolding example_cluster_def by (rule cluster_reads_last_write [OF _ _ _ surjective_pairing surjective_pairing])
  moreover have "last_write ''k'' None (ops_in request_op ?reqs) = Some ''v''"
    by (simp add: request_op_def op_of_def set_options_def cmd_request_def ascii_ieq_map ascii_upper_def)
  ultimately show ?thesis unfolding Let_def by (auto simp del: ops_in.simps serve.simps)
qed



text \<open>
  The error text for a bad shard number quotes the argument as it is: an argument with a
  line end splits the reply, and the client reads a second, forged reply.
\<close>

theorem node_info_splits_reply:
  "handle_request rt here mo (cmd_request [''NODE_INFO'', ''x'' @ [CR, LF] @ ''+OK'']) cl =
     (''-ERR invalid shard id: x'' @ [CR, LF] @ ''+OK'' @ [CR, LF], cl)"
proof -
  have "parse_u16 (''x'' @ [CR, LF] @ ''+OK'') = Inl (''invalid shard id: x'' @ [CR, LF] @ ''+OK'')"
    by (simp add: parse_u16_def is_digit_def)
  then show ?thesis
    by (simp add: handle_request_def cmd_request_def command_dispatch_def handle_node_info_def ieq_map ascii_ieq_map ascii_upper_def)
qed

subsection \<open>Sessions\<close>

text \<open>What a session does on a list of commands.\<close>

fun session_spec ::
  "runtime \<Rightarrow> u32 \<Rightarrow> moment list \<Rightarrow> sstring list list \<Rightarrow> string \<Rightarrow> cluster \<Rightarrow> (string \<times> cluster) option" where
  "session_spec rt here [] cmds out cl = None"
| "session_spec rt here (mo # mos) [] out cl = Some (out, cl)"
| "session_spec rt here (mo # mos) (cmd # cmds) out cl =
     (case map_of command_dispatch (to_upper (hd cmd)) of
        None \<Rightarrow> session_spec rt here mos cmds (write_error out ''ERR unknown command'') cl
      | Some h \<Rightarrow>
          (case h rt here mo cmd out cl of
             (Inl e, cl1) \<Rightarrow> Some (out, cl1)
           | (Inr out1, cl1) \<Rightarrow>
               if to_upper (hd cmd) = ''QUIT'' then Some (out1, cl1) else session_spec rt here mos cmds out1 cl1))"

lemma handle_session_spec:
  assumes "rd_ok r cs" "pending r cs = stream cmds"
    "\<forall>cmd \<in> set cmds. cmd \<noteq> [] \<and> int (length cmd) \<le> MAX_ARGS \<and> (\<forall>b \<in> set cmd. int (length b) \<le> MAX_BULK)"
  shows "handle_session rt here mos r cs out cl = session_spec rt here mos cmds out cl"
  using assms
proof (induction mos arbitrary: r cs cmds out cl)
  case (Cons mo mos)
  show ?case
  proof (cases cmds)
    case Nil
    then have p: "pending r cs = []" using Cons.prems(2) by (simp add: stream_def)
    then have "cs = []" using Cons.prems(1) by (cases cs) (auto simp: pending_def rd_ok_def)
    then show ?thesis using p Nil by (simp add: read_command_def read_byte_def pending_def rd_size_view)
  next
    case c: (Cons cmd cmds')
    have "pending r cs = enc_array cmd @ stream cmds'" using Cons.prems(2) c by (simp add: stream_def)
    then obtain r1 cs1 where r: "read_command r cs = (Inr cmd, r1, cs1)" "rd_ok r1 cs1" "pending r1 cs1 = stream cmds'"
      using read_command_enc [OF Cons.prems(1), of cmd "stream cmds'"] Cons.prems(3) c by auto
    have "handle_session rt here mos r1 cs1 out' cl' = session_spec rt here mos cmds' out' cl'" for out' cl'
      using Cons.IH [OF r(2,3)] Cons.prems(3) c by simp
    then show ?thesis using r(1) c Cons.prems(3) by (simp add: Let_def split: option.split prod.split sum.split)
  qed
qed simp

end
