(* ===== verification/Conn.thy ===== *)
theory Conn
  imports Commands
begin

text \<open>
  The pipelined connection handler: \<open>PipelinedSocketHandler\<close> of \<open>include/conn/socket_handler.hh\<close> and
  \<open>src/conn/socket_handler.cc\<close>, with its two derived classes (\<open>src/conn/resp_handler.cc\<close>,
  \<open>src/conn/LineEchoHandler.cc\<close>). The two coroutines \<open>read_loop_impl\<close> and \<open>write_loop_impl\<close> share the
  response queue, the flag \<open>_eof\<close> and the semaphore \<open>_slots\<close>; they interleave at their suspension
  points. A step of the relation is what one of them does between two suspension points. A
  request takes effect when it is queued (a request for another shard goes through the message
  queue to that shard, which keeps the order of the requests of one connection; that a SET can be suspended
  there before it takes effect is the subject of theory \<open>Coroutines\<close>); its response is
  awaited by the writer, which can also time out. Reading, writing and flushing can fail.
\<close>

datatype reader_pc = R_read | R_extract | R_wait parsed_request | R_done

datatype writer_pc = W_idle | W_await string | W_written | W_flush | W_done

record ('p, 'c) conn_state =
  cn_reader :: reader_pc
  cn_writer :: writer_pc
  cn_in :: "string list"
  cn_buffer :: string
  cn_proc :: 'p
  cn_respq :: "string list"
  cn_eof :: bool
  cn_slots :: nat
  cn_out :: string
  cn_sent :: string
  cn_closed :: bool
  cn_failed :: bool
  cn_world :: 'c
  cn_log :: "(parsed_request \<times> string) list"

definition max_inflight :: nat where
  "max_inflight = 1024"

text \<open>
  A connection when its handler starts. \<open>cn_failed\<close> and \<open>cn_log\<close> are ghosts: whether a loop was
  left through an exception, and the requests with their responses in the order they ran.
\<close>

definition new_conn :: "'p \<Rightarrow> 'c \<Rightarrow> string list \<Rightarrow> ('p, 'c) conn_state" where
  "new_conn p c chunks =
     \<lparr>cn_reader = R_read, cn_writer = W_idle, cn_in = chunks, cn_buffer = [], cn_proc = p, cn_respq = [], cn_eof = False,
      cn_slots = max_inflight, cn_out = [], cn_sent = [], cn_closed = False, cn_failed = False, cn_world = c, cn_log = []\<rparr>"

subsection \<open>Extracting and handling requests\<close>

text \<open>\<open>PipelinedSocketHandler::try_extract_request\<close>: one request per line.\<close>

definition line_extract :: "unit \<Rightarrow> string \<Rightarrow> unit \<times> string \<times> extracted" where
  "line_extract u buf =
     (case find_char LF buf of
        None \<Rightarrow> ((), buf, No_request)
      | Some pos \<Rightarrow>
          (let req = take pos buf;
               buf1 = drop (pos + 1) buf;
               req1 = (if req \<noteq> [] \<and> last req = CR then butlast req else req)
           in ((), buf1, Request \<lparr>req_frame = req1, req_argv = []\<rparr>)))"

definition line_echo :: "unit \<Rightarrow> parsed_request \<Rightarrow> unit \<Rightarrow> string \<times> unit" where
  "line_echo e req u = (req_frame req @ [LF], ())"

text \<open>\<open>RespHandler\<close> delegates to its \<open>RespStreamProcessor\<close>.\<close>

definition resp_extract :: "resp_proc \<Rightarrow> string \<Rightarrow> resp_proc \<times> string \<times> extracted" where
  "resp_extract = try_extract_request"

definition resp_handle :: "runtime \<Rightarrow> u32 \<Rightarrow> moment \<Rightarrow> parsed_request \<Rightarrow> cluster \<Rightarrow> string \<times> cluster" where
  "resp_handle = handle_request"

definition send_shard_details :: "runtime \<Rightarrow> u32 \<Rightarrow> string \<Rightarrow> string" where
  "send_shard_details rt here out =
     (let json = compute_hash (rt_node rt) (ucast here) in out @ ''$'' @ to_string (length json) @ [CR, LF] @ json @ [CR, LF])"

text \<open>
  \<open>process\<close> up to the loops: if the server is configured so, the greeting is sent and flushed.
  If that fails, the loops are not entered and the streams are closed.
\<close>

definition process_start :: "bool \<Rightarrow> bool \<Rightarrow> runtime \<Rightarrow> u32 \<Rightarrow> cluster \<Rightarrow> string list \<Rightarrow> (resp_proc, cluster) conn_state" where
  "process_start g_send_shard_details_on_connect sent_ok rt here cl chunks =
     (let s = new_conn new_resp_proc cl chunks
      in if g_send_shard_details_on_connect
         then (let out = send_shard_details rt here []
               in if sent_ok then s\<lparr>cn_out := out, cn_sent := out\<rparr>
                  else s\<lparr>cn_out := out, cn_reader := R_done, cn_writer := W_done, cn_failed := True\<rparr>)
         else s)"

subsection \<open>The steps\<close>

text \<open>
  The arguments: the extractor, the handler, with what it reads from its environment, and
  whether reading, writing and waiting may fail.
\<close>

inductive conn_step ::
  "('p \<Rightarrow> string \<Rightarrow> 'p \<times> string \<times> extracted) \<Rightarrow> ('e \<Rightarrow> parsed_request \<Rightarrow> 'c \<Rightarrow> string \<times> 'c) \<Rightarrow>
   ('p, 'c) conn_state \<Rightarrow> ('p, 'c) conn_state \<Rightarrow> bool"
  for ext hdl where
  r_chunk: "cn_reader s = R_read \<Longrightarrow> cn_in s = c # cs \<Longrightarrow> c \<noteq> [] \<Longrightarrow>
     conn_step ext hdl s (s\<lparr>cn_in := cs, cn_buffer := cn_buffer s @ c, cn_reader := R_extract\<rparr>)"
| r_eof: "cn_reader s = R_read \<Longrightarrow> cn_in s = [] \<or> cn_in s = [] # cs \<Longrightarrow>
     conn_step ext hdl s (s\<lparr>cn_eof := True, cn_reader := R_done\<rparr>)"
| r_fail: "cn_reader s = R_read \<Longrightarrow>
     conn_step ext hdl s (s\<lparr>cn_eof := True, cn_reader := R_done, cn_failed := True\<rparr>)"
| r_none: "cn_reader s = R_extract \<Longrightarrow> ext (cn_proc s) (cn_buffer s) = (p, b, No_request) \<Longrightarrow>
     conn_step ext hdl s (s\<lparr>cn_proc := p, cn_buffer := b, cn_reader := R_read\<rparr>)"
| r_some: "cn_reader s = R_extract \<Longrightarrow> ext (cn_proc s) (cn_buffer s) = (p, b, Request q) \<Longrightarrow>
     conn_step ext hdl s (s\<lparr>cn_proc := p, cn_buffer := b, cn_reader := R_wait q\<rparr>)"
| r_throw: "cn_reader s = R_extract \<Longrightarrow> ext (cn_proc s) (cn_buffer s) = (p, b, Thrown) \<Longrightarrow>
     conn_step ext hdl s (s\<lparr>cn_proc := p, cn_buffer := b, cn_eof := True, cn_reader := R_done, cn_failed := True\<rparr>)"
| r_slot: "cn_reader s = R_wait q \<Longrightarrow> 0 < cn_slots s \<Longrightarrow> hdl e q (cn_world s) = (r, w) \<Longrightarrow>
     conn_step ext hdl s (s\<lparr>cn_slots := cn_slots s - 1, cn_respq := cn_respq s @ [r], cn_world := w,
       cn_log := cn_log s @ [(q, r)], cn_reader := R_extract\<rparr>)"
| w_take: "cn_writer s = W_idle \<Longrightarrow> cn_respq s = r # rs \<Longrightarrow>
     conn_step ext hdl s (s\<lparr>cn_respq := rs, cn_writer := W_await r\<rparr>)"
| w_exit: "cn_writer s = W_idle \<Longrightarrow> cn_respq s = [] \<Longrightarrow> cn_eof s \<Longrightarrow>
     conn_step ext hdl s (s\<lparr>cn_writer := W_done\<rparr>)"
| w_write: "cn_writer s = W_await r \<Longrightarrow>
     conn_step ext hdl s (s\<lparr>cn_out := cn_out s @ r, cn_writer := W_written\<rparr>)"
| w_more: "cn_writer s = W_written \<Longrightarrow> cn_respq s \<noteq> [] \<Longrightarrow>
     conn_step ext hdl s (s\<lparr>cn_slots := cn_slots s + 1, cn_writer := W_idle\<rparr>)"
| w_flush: "cn_writer s = W_written \<Longrightarrow> cn_respq s = [] \<Longrightarrow>
     conn_step ext hdl s (s\<lparr>cn_writer := W_flush\<rparr>)"
| w_flushed: "cn_writer s = W_flush \<Longrightarrow>
     conn_step ext hdl s (s\<lparr>cn_sent := cn_out s, cn_slots := cn_slots s + 1, cn_writer := W_idle\<rparr>)"
| w_fail: "cn_writer s = W_await r \<or> cn_writer s = W_flush \<Longrightarrow>
     conn_step ext hdl s (s\<lparr>cn_eof := True, cn_slots := cn_slots s + max_inflight, cn_writer := W_done, cn_failed := True\<rparr>)"
| p_close: "cn_reader s = R_done \<Longrightarrow> cn_writer s = W_done \<Longrightarrow> \<not> cn_closed s \<Longrightarrow>
     conn_step ext hdl s (s\<lparr>cn_closed := True\<rparr>)"

inductive_cases conn_stepE: "conn_step ext hdl s t"

inductive conn_run ::
  "('p \<Rightarrow> string \<Rightarrow> 'p \<times> string \<times> extracted) \<Rightarrow> ('e \<Rightarrow> parsed_request \<Rightarrow> 'c \<Rightarrow> string \<times> 'c) \<Rightarrow>
   ('p, 'c) conn_state \<Rightarrow> ('p, 'c) conn_state \<Rightarrow> bool"
  for ext hdl where
  run_refl: "conn_run ext hdl s s"
| run_step: "conn_run ext hdl s t \<Longrightarrow> conn_step ext hdl t u \<Longrightarrow> conn_run ext hdl s u"

lemma conn_run_invariant:
  assumes "conn_run ext hdl s t" "I s" "\<And>t u. I t \<Longrightarrow> conn_step ext hdl t u \<Longrightarrow> I u"
  shows "I t"
  using assms(1,2) by (induction rule: conn_run.induct) (auto intro: assms(3))


subsection \<open>The state of the pipeline\<close>

fun awaited :: "writer_pc \<Rightarrow> string list" where
  "awaited (W_await r) = [r]"
| "awaited _ = []"

fun busy :: "writer_pc \<Rightarrow> nat" where
  "busy (W_await r) = 1"
| "busy W_written = 1"
| "busy W_flush = 1"
| "busy _ = 0"

text \<open>Backpressure: while the writer runs, every queued response holds one slot.\<close>

definition slots_inv :: "('p, 'c) conn_state \<Rightarrow> bool" where
  "slots_inv s \<longleftrightarrow> cn_writer s = W_done \<or> cn_slots s + length (cn_respq s) + busy (cn_writer s) = max_inflight"

text \<open>Order: \<open>greeting\<close> and then the responses, in the order the requests ran.\<close>

definition order_inv :: "string \<Rightarrow> ('p, 'c) conn_state \<Rightarrow> bool" where
  "order_inv greeting s \<longleftrightarrow>
     (\<exists>written rest. map snd (cn_log s) = written @ rest \<and> cn_out s = greeting @ concat written
        \<and> (\<not> (cn_writer s = W_done \<and> cn_failed s) \<longrightarrow> rest = awaited (cn_writer s) @ cn_respq s))"

definition flags_inv :: "('p, 'c) conn_state \<Rightarrow> bool" where
  "flags_inv s \<longleftrightarrow> (cn_closed s \<longrightarrow> cn_reader s = R_done \<and> cn_writer s = W_done)
     \<and> (\<not> cn_failed s \<longrightarrow>
          (cn_eof s \<longleftrightarrow> cn_reader s = R_done)
          \<and> (cn_writer s = W_idle \<and> cn_respq s = [] \<longrightarrow> cn_sent s = cn_out s)
          \<and> (cn_writer s = W_done \<longrightarrow> cn_eof s \<and> cn_respq s = [] \<and> cn_sent s = cn_out s))"

lemma slots_inv_step: "conn_step ext hdl s t \<Longrightarrow> slots_inv s \<Longrightarrow> slots_inv t"
  by (elim conn_stepE) (auto simp: slots_inv_def)

lemma order_inv_step:
  assumes "conn_step ext hdl s t" "order_inv g s"
  shows "order_inv g t"
  using assms(1)
proof cases
  case (r_slot q e r w)
  from assms(2) obtain written rest where "map snd (cn_log s) = written @ rest" "cn_out s = g @ concat written"
    "\<not> (cn_writer s = W_done \<and> cn_failed s) \<longrightarrow> rest = awaited (cn_writer s) @ cn_respq s" by (auto simp: order_inv_def)
  then show ?thesis
    unfolding order_inv_def r_slot(1) by (intro exI [of _ written] exI [of _ "rest @ [r]"]) auto
next
  case (w_write r)
  with assms(2) obtain written where "map snd (cn_log s) = written @ r # cn_respq s" "cn_out s = g @ concat written"
    by (auto simp: order_inv_def)
  then show ?thesis
    unfolding order_inv_def w_write(1) by (intro exI [of _ "written @ [r]"] exI [of _ "cn_respq s"]) simp
qed (use assms(2) in \<open>auto simp: order_inv_def\<close>)

lemma flags_inv_step: "conn_step ext hdl s t \<Longrightarrow> flags_inv s \<Longrightarrow> flags_inv t"
  by (elim conn_stepE) (auto simp: flags_inv_def)

definition conn_inv :: "string \<Rightarrow> ('p, 'c) conn_state \<Rightarrow> bool" where
  "conn_inv greeting s \<longleftrightarrow> slots_inv s \<and> order_inv greeting s \<and> flags_inv s"

lemma conn_inv_step: "conn_inv g s \<Longrightarrow> conn_step ext hdl s t \<Longrightarrow> conn_inv g t"
  using slots_inv_step order_inv_step flags_inv_step by (metis conn_inv_def)

lemma conn_inv_run: "conn_run ext hdl s t \<Longrightarrow> conn_inv g s \<Longrightarrow> conn_inv g t"
  by (rule conn_run_invariant [of ext hdl s t]) (auto intro: conn_inv_step)

lemma new_conn_inv: "conn_inv g ((new_conn p c chunks)\<lparr>cn_out := g, cn_sent := g\<rparr>)" "conn_inv [] (new_conn p c chunks)"
  by (auto simp: conn_inv_def slots_inv_def order_inv_def flags_inv_def new_conn_def)

definition greeting :: "bool \<Rightarrow> runtime \<Rightarrow> u32 \<Rightarrow> string" where
  "greeting g rt here = (if g then send_shard_details rt here [] else [])"

lemma process_start_inv: "conn_inv (greeting g rt here) (process_start g ok rt here cl chunks)"
  by (simp add: process_start_def greeting_def Let_def new_conn_inv)
    (simp add: conn_inv_def slots_inv_def order_inv_def flags_inv_def new_conn_def)

text \<open>What the writer and the reader can do without failing.\<close>

definition writer_ready :: "('p, 'c) conn_state \<Rightarrow> bool" where
  "writer_ready s \<longleftrightarrow> cn_writer s = W_idle \<and> (cn_respq s \<noteq> [] \<or> cn_eof s) \<or> busy (cn_writer s) = 1"

lemma writer_can_step:
  assumes "writer_ready s" "\<not> cn_failed s"
  shows "\<exists>t. conn_step ext hdl s t \<and> \<not> cn_failed t"
proof (cases "cn_writer s")
  case W_idle
  then show ?thesis
    using assms w_take [of s _ _ ext hdl] w_exit [of s ext hdl] by (cases "cn_respq s") (fastforce simp: writer_ready_def)+
next
  case (W_await r)
  then show ?thesis using w_write [of s r ext hdl] assms(2) by fastforce
next
  case W_written
  then show ?thesis using w_more [of s ext hdl] w_flush [of s ext hdl] assms(2) by fastforce
next
  case W_flush
  then show ?thesis using w_flushed [of s ext hdl] assms(2) by fastforce
qed (use assms(1) in \<open>simp add: writer_ready_def\<close>)

lemma extract_can_step:
  assumes "cn_reader s = R_extract" "\<not> cn_failed s"
  shows "(\<exists>t. conn_step ext hdl s t \<and> \<not> cn_failed t) \<or> (\<exists>p b. ext (cn_proc s) (cn_buffer s) = (p, b, Thrown))"
proof -
  obtain p b e where e: "ext (cn_proc s) (cn_buffer s) = (p, b, e)" by (metis prod_cases3)
  show ?thesis
  proof (cases e)
    case No_request
    then show ?thesis using r_none [OF assms(1), of ext p b hdl] e assms(2) by fastforce
  next
    case (Request q)
    then show ?thesis using r_some [OF assms(1), of ext p b q hdl] e assms(2) by fastforce
  next
    case Thrown
    then show ?thesis using e by blast
  qed
qed

lemma read_can_step:
  assumes "cn_reader s = R_read" "\<not> cn_failed s"
  shows "\<exists>t. conn_step ext hdl s t \<and> \<not> cn_failed t"
  using assms r_chunk [of s "hd (cn_in s)" "tl (cn_in s)" ext hdl] r_eof [of s "tl (cn_in s)" ext hdl]
  by (cases "cn_in s"; cases "hd (cn_in s) = []") fastforce+

text \<open>No deadlock: a connection that has not failed and is not closed can go on without failing.\<close>

lemma conn_can_step:
  assumes "conn_inv g s" "\<not> cn_failed s" "\<not> cn_closed s"
  shows "\<exists>t. conn_step ext hdl s t \<and> \<not> cn_failed t \<or> (\<exists>p b. cn_reader s = R_extract \<and> ext (cn_proc s) (cn_buffer s) = (p, b, Thrown))"
proof (cases "cn_reader s")
  case R_read
  then show ?thesis using read_can_step assms(2) by blast
next
  case R_extract
  then show ?thesis using extract_can_step [OF R_extract assms(2), of ext hdl] by blast
next
  case (R_wait q)
  show ?thesis
  proof (cases "0 < cn_slots s")
    case True
    obtain e r x where "hdl e q (cn_world s) = (r, x)" by fastforce
    then show ?thesis using r_slot [OF R_wait True, of hdl e r x ext] assms(2) by fastforce
  next
    case False
    have "cn_writer s \<noteq> W_done" using assms(1,2) R_wait by (auto simp: conn_inv_def flags_inv_def)
    moreover from this have "length (cn_respq s) + busy (cn_writer s) = max_inflight"
      using assms(1) False by (auto simp: conn_inv_def slots_inv_def)
    ultimately have "writer_ready s" by (cases "cn_writer s") (auto simp: max_inflight_def writer_ready_def)
    then show ?thesis using writer_can_step [OF _ assms(2)] by blast
  qed
next
  case R_done
  then have "cn_eof s" using assms(1,2) by (simp add: conn_inv_def flags_inv_def)
  then have "writer_ready s \<or> cn_writer s = W_done" by (cases "cn_writer s") (auto simp: writer_ready_def)
  then show ?thesis using writer_can_step [OF _ assms(2)] p_close [OF R_done, of ext hdl] assms(2,3) by fastforce
qed


subsection \<open>Request sources\<close>

text \<open>The work that is left to the two loops.\<close>

definition reader_rank :: "('p \<Rightarrow> string \<Rightarrow> nat) \<Rightarrow> ('p, 'c) conn_state \<Rightarrow> nat" where
  "reader_rank left s =
     (case cn_reader s of
        R_done \<Rightarrow> 0
      | R_read \<Rightarrow> 1
      | R_extract \<Rightarrow> 2 * left (cn_proc s) (cn_buffer s) + 2
      | R_wait q \<Rightarrow> 2 * left (cn_proc s) (cn_buffer s) + 3)"

definition writer_work :: "('p, 'c) conn_state \<Rightarrow> nat" where
  "writer_work s = 4 * length (cn_respq s)
     + (case cn_writer s of W_idle \<Rightarrow> 1 | W_await r \<Rightarrow> 4 | W_written \<Rightarrow> 3 | W_flush \<Rightarrow> 2 | W_done \<Rightarrow> 0) + (if cn_closed s then 0 else 1)"

text \<open>
  What the read loop needs of an extractor: taking a request out of the buffer makes progress.
  With it every run of a connection is finite, however the loops interleave.
\<close>

locale request_source =
  fixes ext :: "'p \<Rightarrow> string \<Rightarrow> 'p \<times> string \<times> extracted"
    and left :: "'p \<Rightarrow> string \<Rightarrow> nat"
  assumes progress: "ext p b = (p', b', Request q) \<Longrightarrow> left p' b' < left p b"
begin

lemma conn_step_decreases:
  "conn_step ext hdl s t \<Longrightarrow> (t, s) \<in> measures [\<lambda>s. length (cn_in s), reader_rank left, writer_work]"
  by (cases rule: conn_step.cases, assumption) (auto simp: reader_rank_def writer_work_def dest: progress split: reader_pc.splits)

lemma conn_terminates: "wfp (\<lambda>t s. conn_step ext hdl s t)"
proof -
  have "wf (measures [\<lambda>s :: ('p, 'c) conn_state. length (cn_in s), reader_rank left, writer_work])" by (rule wf_measures)
  then have "wf {(t, s). conn_step ext hdl s t}"
    by (rule wf_subset) (auto intro: conn_step_decreases)
  then show ?thesis by (simp add: wfp_def)
qed

text \<open>A connection that cannot throw while extracting can always be run to its end without failing.\<close>

lemma conn_completes:
  assumes "conn_inv g s" "\<not> cn_failed s"
    "\<And>t. conn_run ext hdl s t \<Longrightarrow> \<forall>p b. cn_reader t = R_extract \<longrightarrow> ext (cn_proc t) (cn_buffer t) \<noteq> (p, b, Thrown)"
  shows "\<exists>t. conn_run ext hdl s t \<and> cn_closed t \<and> \<not> cn_failed t"
proof -
  have "conn_run ext hdl s u \<Longrightarrow> conn_inv g u \<Longrightarrow> \<not> cn_failed u \<Longrightarrow> ?thesis" for u
  proof (induction u rule: wfp_induct_rule [OF conn_terminates [of hdl]])
    case (1 u)
    show ?case
    proof (cases "cn_closed u")
      case True
      then show ?thesis using 1 by blast
    next
      case False
      from conn_can_step [OF "1.prems"(2,3) this, of ext hdl] assms(3) [OF "1.prems"(1)]
      obtain v where v: "conn_step ext hdl u v" "\<not> cn_failed v" by blast
      show ?thesis
        using "1.IH" [OF v(1) run_step [OF "1.prems"(1) v(1)] conn_inv_step [OF "1.prems"(2) v(1)] v(2)] .
    qed
  qed
  then show ?thesis using assms(1,2) run_refl by blast
qed

end

interpretation resp: request_source resp_extract weight
  by unfold_locales (auto simp: resp_extract_def dest: try_extract_weight)

interpretation line: request_source line_extract "\<lambda>u buf. length buf"
proof
  fix p b p' b' q
  assume "line_extract p b = (p', b', Request q)"
  then obtain pos where "find_char LF b = Some pos" "b' = drop (pos + 1) b"
    by (auto simp: line_extract_def Let_def split: option.splits)
  then show "length b' < length b" using find_char_Some [of LF b pos] by auto
qed


subsection \<open>The requests of a connection\<close>

text \<open>The requests that the reader still has to hand out.\<close>

definition after_read :: "resp_proc \<Rightarrow> string \<Rightarrow> string list \<Rightarrow> parsed_request list" where
  "after_read p b cs =
     (case extract_all p b of (p1, b1, qs, thrown) \<Rightarrow> if thrown then qs else qs @ read_requests p1 b1 cs)"

definition to_come :: "(resp_proc, 'c) conn_state \<Rightarrow> parsed_request list" where
  "to_come s =
     (case cn_reader s of
        R_done \<Rightarrow> []
      | R_read \<Rightarrow> read_requests (cn_proc s) (cn_buffer s) (cn_in s)
      | R_extract \<Rightarrow> after_read (cn_proc s) (cn_buffer s) (cn_in s)
      | R_wait q \<Rightarrow> q # after_read (cn_proc s) (cn_buffer s) (cn_in s))"

lemma after_read_none: "try_extract_request p b = (p1, b1, No_request) \<Longrightarrow> after_read p b cs = read_requests p1 b1 cs"
  by (simp add: after_read_def extract_all.simps [of p b])

lemma after_read_some: "try_extract_request p b = (p1, b1, Request q) \<Longrightarrow> after_read p b cs = q # after_read p1 b1 cs"
  by (simp add: after_read_def extract_all.simps [of p b] split: prod.split)

definition requests_inv :: "parsed_request list \<Rightarrow> (resp_proc, 'c) conn_state \<Rightarrow> bool" where
  "requests_inv qs s \<longleftrightarrow> (\<not> cn_failed s \<longrightarrow> map fst (cn_log s) @ to_come s = qs)"

lemma requests_inv_step: "conn_step resp_extract hdl s t \<Longrightarrow> requests_inv qs s \<Longrightarrow> requests_inv qs t"
  by (cases rule: conn_step.cases, assumption)
    (auto simp: requests_inv_def to_come_def resp_extract_def after_read_none after_read_some after_read_def [of _ "b @ c" for b c]
      split: reader_pc.splits)

text \<open>The responses are those of the cluster, asked in this order.\<close>

definition served_inv :: "runtime \<Rightarrow> u32 \<Rightarrow> cluster \<Rightarrow> (resp_proc, cluster) conn_state \<Rightarrow> bool" where
  "served_inv rt here cl s \<longleftrightarrow>
     (\<exists>mos. length mos = length (cn_log s)
        \<and> serve rt (map2 (\<lambda>mo q. (here, mo, q)) mos (map fst (cn_log s))) cl = (map snd (cn_log s), cn_world s))"

lemma serve_append:
  "serve rt (xs @ ys) cl = (let (a, cl1) = serve rt xs cl; (b, cl2) = serve rt ys cl1 in (a @ b, cl2))"
proof (induction xs arbitrary: cl)
  case (Cons q xs)
  then show ?case by (cases q) (simp add: Let_def split: prod.split)
qed simp

lemma served_inv_step:
  assumes "conn_step ext (resp_handle rt here) s t" "served_inv rt here cl s"
  shows "served_inv rt here cl t"
  using assms(1)
proof cases
  case (r_slot q e r w)
  from assms(2) obtain mos where m: "length mos = length (cn_log s)"
    "serve rt (map2 (\<lambda>mo q. (here, mo, q)) mos (map fst (cn_log s))) cl = (map snd (cn_log s), cn_world s)"
    by (auto simp: served_inv_def)
  have "handle_request rt here e q (cn_world s) = (r, w)" using r_slot by (simp add: resp_handle_def)
  then show ?thesis
    unfolding served_inv_def r_slot(1) using m by (intro exI [of _ "mos @ [e]"]) (simp add: serve_append)
qed (use assms(2) in \<open>auto simp: served_inv_def\<close>)

lemma process_start_requests:
  "requests_inv (read_requests new_resp_proc [] chunks) (process_start g ok rt here cl chunks)"
  "served_inv rt here cl (process_start g ok rt here cl chunks)"
  by (simp_all add: requests_inv_def served_inv_def process_start_def new_conn_def to_come_def Let_def)

lemma closed_responses:
  assumes "conn_inv g s" "cn_closed s" "\<not> cn_failed s"
  shows "cn_sent s = g @ concat (map snd (cn_log s))" "cn_reader s = R_done"
proof -
  have f: "cn_writer s = W_done" "cn_reader s = R_done" "cn_respq s = []" "cn_sent s = cn_out s"
    using assms by (auto simp: conn_inv_def flags_inv_def)
  then show "cn_reader s = R_done" by simp
  from assms(1,3) f show "cn_sent s = g @ concat (map snd (cn_log s))" by (auto simp: conn_inv_def order_inv_def)
qed

lemma served_run: "conn_run ext (resp_handle rt here) s t \<Longrightarrow> served_inv rt here cl s \<Longrightarrow> served_inv rt here cl t"
  by (rule conn_run_invariant [of ext "resp_handle rt here" s t]) (auto intro: served_inv_step)

lemma requests_run: "conn_run resp_extract hdl s t \<Longrightarrow> requests_inv qs s \<Longrightarrow> requests_inv qs t"
  by (rule conn_run_invariant [of resp_extract hdl s t]) (auto intro: requests_inv_step)


text \<open>The buffer and the parser state stay well formed, so extraction never throws.\<close>

definition buffer_inv :: "(resp_proc, 'c) conn_state \<Rightarrow> bool" where
  "buffer_inv s \<longleftrightarrow> rs_wf (cn_proc s) (cn_buffer s) \<and> length (cn_buffer s) + length (concat (cn_in s)) < 2 ^ 32"

lemma buffer_inv_step:
  assumes "conn_step resp_extract hdl s t" "buffer_inv s"
  shows "buffer_inv t"
  using assms(1)
proof cases
  case (r_chunk c cs)
  then show ?thesis using assms(2) by (simp add: buffer_inv_def rs_wf_append)
next
  case (r_none p b)
  then show ?thesis using assms(2) try_extract_wf [of "cn_proc s" "cn_buffer s" p b] by (simp add: buffer_inv_def resp_extract_def)
next
  case (r_some p b q)
  then show ?thesis using assms(2) try_extract_wf [of "cn_proc s" "cn_buffer s" p b] by (simp add: buffer_inv_def resp_extract_def)
next
  case (r_throw p b)
  then show ?thesis using assms(2) try_extract_wf [of "cn_proc s" "cn_buffer s" p b] by (simp add: buffer_inv_def resp_extract_def)
qed (use assms(2) in \<open>simp_all add: buffer_inv_def\<close>)

lemma buffer_inv_run: "conn_run resp_extract hdl s t \<Longrightarrow> buffer_inv s \<Longrightarrow> buffer_inv t"
  by (rule conn_run_invariant [of resp_extract hdl s t]) (auto intro: buffer_inv_step)

lemma buffer_inv_no_throw: "buffer_inv s \<Longrightarrow> resp_extract (cn_proc s) (cn_buffer s) \<noteq> (p, b, Thrown)"
  by (auto simp: buffer_inv_def resp_extract_def extracted_ok_def error_requests_def protocol_error_def invalid_argc_def
      invalid_bulk_length_def dest!: try_extract_wf(3) [rotated 2])

lemma conn_run_trans: "conn_run ext hdl t u \<Longrightarrow> conn_run ext hdl s t \<Longrightarrow> conn_run ext hdl s u"
  by (induction rule: conn_run.induct) (auto intro: run_step)

lemma process_start_buffer: "length (concat chunks) < 2 ^ 32 \<Longrightarrow> buffer_inv (process_start g ok rt here cl chunks)"
  by (simp add: buffer_inv_def process_start_def new_conn_def Let_def new_resp_proc_wf)

text \<open>From every state that has not failed, the connection can be served to its end.\<close>

lemma resp_completes:
  assumes "length (concat chunks) < 2 ^ 32" "conn_run resp_extract hdl (process_start g ok rt here cl chunks) s" "\<not> cn_failed s"
  shows "\<exists>t. conn_run resp_extract hdl s t \<and> cn_closed t \<and> \<not> cn_failed t"
proof (rule resp.conn_completes)
  show "conn_inv (greeting g rt here) s" using conn_inv_run [OF assms(2) process_start_inv] .
  show "\<not> cn_failed s" by (rule assms(3))
  show "\<forall>p b. cn_reader t = R_extract \<longrightarrow> resp_extract (cn_proc t) (cn_buffer t) \<noteq> (p, b, Thrown)"
    if "conn_run resp_extract hdl s t" for t
    using buffer_inv_no_throw buffer_inv_run [OF that] buffer_inv_run [OF assms(2)] process_start_buffer [OF assms(1)] by blast
qed

lemma read_requests_all:
  assumes "list_all cmd_ok cmds" "concat chunks = stream cmds" "[] \<notin> set chunks" "length (stream cmds) < 2 ^ 32"
  shows "read_requests new_resp_proc [] chunks = map cmd_request cmds"
proof -
  have "sess new_resp_proc [] (concat chunks @ []) cmds" using fresh_sess [OF assms(1,4)] assms(2) by simp
  from read_requests_sess [OF this assms(3)] fresh_waiting [of cmds] assms(2) show ?thesis
    by (cases "chunks = []") (auto simp: waiting_def)
qed

lemma closed_session:
  assumes "list_all cmd_ok cmds" "concat chunks = stream cmds" "[] \<notin> set chunks" "length (stream cmds) < 2 ^ 32"
    "conn_run resp_extract (resp_handle rt here) (process_start g ok rt here cl chunks) s" "cn_closed s" "\<not> cn_failed s"
  obtains mos replies where "length mos = length cmds" "cn_sent s = greeting g rt here @ concat replies"
    "serve rt (map2 (\<lambda>mo cmd. (here, mo, cmd_request cmd)) mos cmds) cl = (replies, cn_world s)"
proof -
  note i = conn_inv_run [OF assms(5) process_start_inv]
  note c = closed_responses [OF i assms(6,7)]
  have "map fst (cn_log s) = map cmd_request cmds"
    using requests_run [OF assms(5) process_start_requests(1)] assms(7) c(2) read_requests_all [OF assms(1-4)]
    by (simp add: requests_inv_def to_come_def)
  moreover from this have "length (cn_log s) = length cmds" by (metis length_map)
  ultimately show ?thesis
    using served_run [OF assms(5) process_start_requests(2)] c(1) that
    by (auto simp: served_inv_def zip_map2 comp_def split_def)
qed


text \<open>Once the writer has left, the reader uses up the slots and then waits for ever.\<close>

lemma waits_forever:
  assumes "cn_reader s = R_wait q" "cn_slots s = 0" "cn_writer s = W_done"
  shows "\<not> conn_step ext hdl s t"
  using assms by (auto elim: conn_stepE)

lemma uses_up_slots:
  assumes "cn_reader s = R_extract" "cn_writer s = W_done" "extract_all (cn_proc s) (cn_buffer s) = (p, b, qs, thrown)"
    "cn_slots s < length qs" "\<not> cn_closed s" "cn_eof s"
  shows "\<exists>t q. conn_run resp_extract hdl s t \<and> cn_reader t = R_wait q \<and> cn_slots t = 0 \<and> cn_writer t = W_done
    \<and> \<not> cn_closed t \<and> cn_eof t \<and> length (cn_log t) = length (cn_log s) + cn_slots s"
  using assms
proof (induction "cn_slots s" arbitrary: s qs)
  case 0
  obtain p1 b1 q where "try_extract_request (cn_proc s) (cn_buffer s) = (p1, b1, Request q)"
    using 0 by (auto simp: extract_all.simps [of "cn_proc s" "cn_buffer s"] split: prod.splits extracted.splits)
  then have "conn_run resp_extract hdl s (s\<lparr>cn_proc := p1, cn_buffer := b1, cn_reader := R_wait q\<rparr>)"
    using 0 by (intro run_step [OF run_refl] r_some) (simp_all add: resp_extract_def)
  then show ?case using 0 by (intro exI conjI) (assumption | simp)+
next
  case (Suc n)
  obtain p1 b1 q qs1 where q: "try_extract_request (cn_proc s) (cn_buffer s) = (p1, b1, Request q)"
    "extract_all p1 b1 = (p, b, qs1, thrown)" "qs = q # qs1"
    using Suc.prems by (auto simp: extract_all.simps [of "cn_proc s" "cn_buffer s"] split: prod.splits extracted.splits)
  let ?u = "s\<lparr>cn_proc := p1, cn_buffer := b1, cn_reader := R_wait q\<rparr>"
  obtain e r w where h: "hdl e q (cn_world ?u) = (r, w)" by fastforce
  let ?v = "?u\<lparr>cn_slots := cn_slots ?u - 1, cn_respq := cn_respq ?u @ [r], cn_world := w, cn_log := cn_log ?u @ [(q, r)], cn_reader := R_extract\<rparr>"
  have "conn_run resp_extract hdl s ?u"
    using Suc.prems q by (intro run_step [OF run_refl] r_some) (simp_all add: resp_extract_def)
  then have "conn_run resp_extract hdl s ?v"
    by (rule run_step) (rule r_slot, simp, use Suc.hyps(2) in simp, rule h)
  moreover obtain t q1 where "conn_run resp_extract hdl ?v t" "cn_reader t = R_wait q1" "cn_slots t = 0" "cn_writer t = W_done"
    "\<not> cn_closed t" "cn_eof t" "length (cn_log t) = length (cn_log ?v) + cn_slots ?v"
    using Suc.hyps(1) [of ?v qs1] Suc.hyps(2) [symmetric] Suc.prems q by auto
  ultimately show ?case
    using conn_run_trans [of resp_extract hdl ?v t s] Suc.hyps(2) by (intro exI [of _ t] exI [of _ q1]) simp
qed

lemma failed_write_hangs:
  assumes "chunk \<noteq> []" "2 * max_inflight < length (read_requests new_resp_proc [] [chunk])"
  shows "\<exists>t. conn_run resp_extract (resp_handle rt here) (process_start False True rt here cl [chunk]) t
    \<and> \<not> cn_closed t \<and> cn_eof t \<and> length (cn_log t) = 2 * max_inflight \<and> (\<forall>u. \<not> conn_step resp_extract (resp_handle rt here) t u)"
proof -
  let ?hdl = "resp_handle rt here"
  let ?s = "process_start False True rt here cl [chunk]"
  obtain p b qs thrown where e: "extract_all new_resp_proc chunk = (p, b, qs, thrown)" by (metis prod_cases4)
  then have "2 * max_inflight < length qs" using assms by (simp split: if_splits)
  then obtain p1 b1 q qs1 where q: "try_extract_request new_resp_proc chunk = (p1, b1, Request q)"
    "extract_all p1 b1 = (p, b, qs1, thrown)" "qs = q # qs1"
    using e by (auto simp: extract_all.simps [of new_resp_proc chunk] split: prod.splits extracted.splits)
  obtain mo r w where h: "?hdl mo q cl = (r, w)" by fastforce
  let ?a = "?s\<lparr>cn_in := [], cn_buffer := cn_buffer ?s @ chunk, cn_reader := R_extract\<rparr>"
  let ?b = "?a\<lparr>cn_proc := p1, cn_buffer := b1, cn_reader := R_wait q\<rparr>"
  let ?c = "?b\<lparr>cn_slots := cn_slots ?b - 1, cn_respq := cn_respq ?b @ [r], cn_world := w, cn_log := cn_log ?b @ [(q, r)], cn_reader := R_extract\<rparr>"
  let ?d = "?c\<lparr>cn_respq := [], cn_writer := W_await r\<rparr>"
  let ?e = "?d\<lparr>cn_eof := True, cn_slots := cn_slots ?d + max_inflight, cn_writer := W_done, cn_failed := True\<rparr>"
  have s: "process_start False True rt here cl [chunk] = new_conn new_resp_proc cl [chunk]" by (simp add: process_start_def)
  have "conn_run resp_extract ?hdl ?s ?a"
    using assms(1) by (intro run_step [OF run_refl] r_chunk) (simp_all add: s new_conn_def)
  then have "conn_run resp_extract ?hdl ?s ?b"
    by (rule run_step) (rule r_some, simp, use q in \<open>simp add: s new_conn_def resp_extract_def\<close>)
  then have "conn_run resp_extract ?hdl ?s ?c"
    by (rule run_step) (rule r_slot, simp, simp add: s new_conn_def max_inflight_def, use h in \<open>simp add: s new_conn_def\<close>)
  then have "conn_run resp_extract ?hdl ?s ?d"
    by (rule run_step) (rule w_take, simp_all add: s new_conn_def)
  then have "conn_run resp_extract ?hdl ?s ?e"
    by (rule run_step) (rule w_fail [where r = r], simp)
  moreover obtain t q1 where t: "conn_run resp_extract ?hdl ?e t" "cn_reader t = R_wait q1" "cn_slots t = 0" "cn_writer t = W_done"
    "\<not> cn_closed t" "cn_eof t" "length (cn_log t) = length (cn_log ?e) + cn_slots ?e"
    using uses_up_slots [of ?e p b qs1 thrown ?hdl] q \<open>2 * max_inflight < length qs\<close>
    by (auto simp: s new_conn_def max_inflight_def)
  ultimately show ?thesis
    using conn_run_trans [of resp_extract ?hdl ?e t ?s] waits_forever [OF t(2-4), of resp_extract ?hdl]
    by (intro exI [of _ t] conjI allI) (simp_all add: s new_conn_def max_inflight_def)
qed


definition example_commands :: "sstring list list" where
  "example_commands = [[''SET'', ''k'', ''v''], [''GET'', ''k'']]"

definition example_start :: "(resp_proc, cluster) conn_state" where
  "example_start = process_start True True example_runtime 0 example_cluster [stream example_commands]"

lemma example_stream: "length (stream example_commands) < 2 ^ 32" "list_all cmd_ok example_commands" "stream example_commands \<noteq> []"
proof -
  have n: "to_string (Suc 0) = ''1''" "to_string (Suc (Suc 0)) = ''2''" "to_string (Suc (Suc (Suc 0))) = ''3''" by code_simp+
  show "length (stream example_commands) < 2 ^ 32"
    by (simp add: example_commands_def stream_def enc_array_def enc_bulk_def n)
  show "list_all cmd_ok example_commands" "stream example_commands \<noteq> []"
    by (simp_all add: example_commands_def cmd_ok_def kMaxArgs_def kMaxBulk_def stream_def)
qed

lemma example_session:
  "\<exists>t. conn_run resp_extract (resp_handle example_runtime 0) example_start t \<and> cn_closed t \<and> \<not> cn_failed t"
  unfolding example_start_def
  by (rule resp_completes [OF _ run_refl])
    (use example_stream(1) in \<open>simp_all add: process_start_def new_conn_def Let_def\<close>)

subsection \<open>Properties\<close>

text \<open>
  C4. Pipelining keeps the order: at every moment of every run, whatever interleaving and
  whatever fails, the bytes handed to the output stream are the greeting and then the whole
  responses of an initial part of the requests, in the order of the requests; and while the
  writer runs, at most 1024 responses are pending.
\<close>

theorem responses_in_order:
  assumes "conn_run resp_extract (resp_handle rt here) (process_start g ok rt here cl chunks) s"
  shows "(\<exists>n \<le> length (cn_log s). cn_out s = greeting g rt here @ concat (map snd (take n (cn_log s))))
    \<and> (cn_writer s \<noteq> W_done \<longrightarrow> length (cn_respq s) + busy (cn_writer s) \<le> 1024)"
proof -
  have i: "conn_inv (greeting g rt here) s" using conn_inv_run [OF assms process_start_inv] .
  then obtain w r where wr: "map snd (cn_log s) = w @ r" "cn_out s = greeting g rt here @ concat w"
    by (auto simp: conn_inv_def order_inv_def)
  then have "map snd (take (length w) (cn_log s)) = w" by (metis append_eq_conv_conj take_map)
  moreover have "length w \<le> length (cn_log s)" using arg_cong [OF wr(1), of length] by simp
  moreover have "cn_writer s \<noteq> W_done \<longrightarrow> length (cn_respq s) + busy (cn_writer s) \<le> 1024"
    using i by (auto simp: conn_inv_def slots_inv_def max_inflight_def)
  ultimately show ?thesis using wr(2) by auto
qed

theorem responses_in_order_witness:
  "\<exists>s. conn_run resp_extract (resp_handle example_runtime 0) example_start s \<and> cn_closed s
    \<and> (\<exists>n \<le> length (cn_log s). cn_out s = greeting True example_runtime 0 @ concat (map snd (take n (cn_log s))))"
proof -
  obtain s where s: "conn_run resp_extract (resp_handle example_runtime 0) example_start s" "cn_closed s"
    using example_session by blast
  then show ?thesis using responses_in_order [OF s(1) [unfolded example_start_def]] by blast
qed







end
