(* ===== verification/Socket_Server.thy ===== *)
theory Socket_Server
  imports Text
begin

text \<open>
  The socket server of one shard (\<open>include/conn/socket_server.hh\<close>, \<open>src/conn/socket_server.cc\<close>), the life of its
  connections (\<open>include/conn/connections.hh\<close>, \<open>src/conn/connections.cc\<close>) and the orchestrator of the servers of all
  shards (\<open>src/conn/orchestrator.cc\<close>). The gate \<open>_task_gate\<close> is its counter and whether it is closed. Every listener
  has an accept loop, which holds the gate once for the loop and once more while it waits for a
  connection. Connections are numbered as they are constructed; the number stands for the address.
\<close>

datatype accept_pc = A_enter | A_accept | A_ended

record accept_loop =
  al_which :: nat
  al_tls :: bool
  al_pc :: accept_pc

record socket_server =
  ss_listeners :: "sstring list"
  ss_handler_factory :: bool
  ss_total_connections :: u64
  ss_current_connections :: u64
  ss_requests_served :: u64
  ss_read_errors :: u64
  ss_respond_errors :: u64
  ss_credentials :: bool
  ss_gate_count :: nat
  ss_gate_closed :: bool
  ss_keepalive :: "nat option"
  ss_content_length_limit :: u64
  ss_connections :: "nat list"
  ss_loops :: "accept_loop list"
  ss_next :: nat
  ss_shut :: "nat list"

text \<open>\<open>ss_loops\<close> holds the accept loops that were started, \<open>ss_shut\<close> the connections that were shut down.\<close>

definition new_socket_server :: socket_server where
  "new_socket_server =
     \<lparr>ss_listeners = [], ss_handler_factory = False, ss_total_connections = 0, ss_current_connections = 0,
      ss_requests_served = 0, ss_read_errors = 0, ss_respond_errors = 0, ss_credentials = False,
      ss_gate_count = 0, ss_gate_closed = False, ss_keepalive = None, ss_content_length_limit = - 1,
      ss_connections = [], ss_loops = [], ss_next = 0, ss_shut = []\<rparr>"

definition set_handler :: "bool \<Rightarrow> socket_server \<Rightarrow> socket_server" where
  "set_handler factory s = s\<lparr>ss_handler_factory := factory\<rparr>"

definition set_tls_credentials :: "bool \<Rightarrow> socket_server \<Rightarrow> socket_server" where
  "set_tls_credentials creds s = s\<lparr>ss_credentials := creds\<rparr>"

definition set_keepalive_parameters :: "nat option \<Rightarrow> socket_server \<Rightarrow> socket_server" where
  "set_keepalive_parameters params s = s\<lparr>ss_keepalive := params\<rparr>"

definition set_content_length_limit :: "u64 \<Rightarrow> socket_server \<Rightarrow> socket_server" where
  "set_content_length_limit limit s = s\<lparr>ss_content_length_limit := limit\<rparr>"

subsection \<open>Connections\<close>

definition on_conn_open :: "nat \<Rightarrow> socket_server \<Rightarrow> socket_server" where
  "on_conn_open c s =
     s\<lparr>ss_total_connections := ss_total_connections s + 1,
       ss_current_connections := ss_current_connections s + 1,
       ss_connections := ss_connections s @ [c]\<rparr>"

definition on_conn_close :: "nat \<Rightarrow> socket_server \<Rightarrow> socket_server" where
  "on_conn_close c s = s\<lparr>ss_current_connections := ss_current_connections s - 1\<rparr>"

text \<open>The constructor calls \<open>on_new_connection\<close>; the destructor takes the connection out of the list.\<close>

definition on_new_connection :: "nat \<Rightarrow> socket_server \<Rightarrow> socket_server" where
  "on_new_connection c s = on_conn_open c s"

definition make_connection :: "socket_server \<Rightarrow> nat \<times> socket_server" where
  "make_connection s = (let c = ss_next s in (c, on_new_connection c (s\<lparr>ss_next := Suc c\<rparr>)))"

definition connection_shutdown :: "nat \<Rightarrow> socket_server \<Rightarrow> socket_server" where
  "connection_shutdown c s = s\<lparr>ss_shut := ss_shut s @ [c]\<rparr>"

definition destroy_connection :: "nat \<Rightarrow> socket_server \<Rightarrow> socket_server" where
  "destroy_connection c s =
     s\<lparr>ss_current_connections := ss_current_connections s - 1, ss_connections := remove1 c (ss_connections s)\<rparr>"

subsection \<open>Accepting\<close>

definition gate_enter :: "socket_server \<Rightarrow> socket_server" where
  "gate_enter s = s\<lparr>ss_gate_count := ss_gate_count s + 1\<rparr>"

definition gate_leave :: "socket_server \<Rightarrow> socket_server" where
  "gate_leave s = s\<lparr>ss_gate_count := ss_gate_count s - 1\<rparr>"

definition set_loop :: "nat \<Rightarrow> accept_pc \<Rightarrow> socket_server \<Rightarrow> socket_server" where
  "set_loop i pc s = s\<lparr>ss_loops := (ss_loops s)[i := (ss_loops s ! i)\<lparr>al_pc := pc\<rparr>]\<rparr>"

definition do_accepts :: "nat \<Rightarrow> bool \<Rightarrow> socket_server \<Rightarrow> socket_server" where
  "do_accepts which tls s =
     (if ss_gate_closed s then s
      else gate_enter (s\<lparr>ss_loops := ss_loops s @ [\<lparr>al_which = which, al_tls = tls, al_pc = A_enter\<rparr>]\<rparr>))"

definition listen :: "sstring \<Rightarrow> bool \<Rightarrow> socket_server \<Rightarrow> socket_server" where
  "listen addr creds s =
     (let s1 = s\<lparr>ss_listeners := ss_listeners s @ [addr]\<rparr>
      in do_accepts (length (ss_listeners s1) - 1) creds s1)"

definition listen_default :: "sstring \<Rightarrow> socket_server \<Rightarrow> socket_server" where
  "listen_default addr s = listen addr (ss_credentials s) s"

text \<open>The two halves of an iteration of the accept loop: \<open>try_with_gate\<close> and what \<open>accept\<close> resolves to.\<close>

definition accept_enter :: "nat \<Rightarrow> socket_server \<Rightarrow> socket_server" where
  "accept_enter i s =
     (if ss_gate_closed s then gate_leave (set_loop i A_ended s) else gate_enter (set_loop i A_accept s))"

datatype accepted = Incoming | Accept_failed

definition do_accept_one :: "accepted \<Rightarrow> socket_server \<Rightarrow> socket_server" where
  "do_accept_one r s =
     (case r of
        Accept_failed \<Rightarrow> s
      | Incoming \<Rightarrow>
          if \<not> ss_handler_factory s then s
          else (let (c, s1) = make_connection s
                in if ss_gate_closed s1 then destroy_connection c s1 else gate_enter s1))"

definition accept_leave :: "nat \<Rightarrow> accepted \<Rightarrow> socket_server \<Rightarrow> socket_server" where
  "accept_leave i r s = gate_leave (set_loop i A_enter (do_accept_one r s))"

text \<open>The handler of a connection has finished: the connection is destroyed and leaves the gate.\<close>

definition connection_done :: "nat \<Rightarrow> socket_server \<Rightarrow> socket_server" where
  "connection_done c s = gate_leave (destroy_connection c s)"

definition socket_server_stop :: "socket_server \<Rightarrow> socket_server" where
  "socket_server_stop s = (let s1 = fold connection_shutdown (ss_connections s) s in s1\<lparr>ss_gate_closed := True\<rparr>)"

subsection \<open>The date header\<close>

record tm =
  tm_wday :: nat
  tm_mday :: nat
  tm_mon :: nat
  tm_year :: nat
  tm_hour :: nat
  tm_min :: nat
  tm_sec :: nat

definition two_digits :: "nat \<Rightarrow> string" where
  "two_digits n = (if n < 10 then CHR ''0'' # to_string n else to_string n)"

definition http_date :: "tm \<Rightarrow> string" where
  "http_date t =
     ([''Sun'', ''Mon'', ''Tue'', ''Wed'', ''Thu'', ''Fri'', ''Sat''] ! tm_wday t) @ '', '' @ two_digits (tm_mday t) @ '' ''
     @ ([''Jan'', ''Feb'', ''Mar'', ''Apr'', ''May'', ''Jun'', ''Jul'', ''Aug'', ''Sep'', ''Oct'', ''Nov'', ''Dec''] ! tm_mon t)
     @ '' '' @ to_string (1900 + tm_year t) @ '' '' @ two_digits (tm_hour t) @ '':'' @ two_digits (tm_min t)
     @ '':'' @ two_digits (tm_sec t) @ '' GMT''"

subsection \<open>The steps of a server\<close>

text \<open>The environment may end the handler of an open connection at any time.\<close>

inductive server_step :: "socket_server \<Rightarrow> socket_server \<Rightarrow> bool" where
  s_handler: "server_step s (set_handler factory s)"
| s_listen: "server_step s (listen addr creds s)"
| s_enter: "i < length (ss_loops s) \<Longrightarrow> al_pc (ss_loops s ! i) = A_enter \<Longrightarrow> server_step s (accept_enter i s)"
| s_leave: "i < length (ss_loops s) \<Longrightarrow> al_pc (ss_loops s ! i) = A_accept \<Longrightarrow> server_step s (accept_leave i r s)"
| s_done: "c \<in> set (ss_connections s) \<Longrightarrow> server_step s (connection_done c s)"
| s_stop: "\<not> ss_gate_closed s \<Longrightarrow> server_step s (socket_server_stop s)"

inductive server_run :: "socket_server \<Rightarrow> socket_server \<Rightarrow> bool" where
  server_refl: "server_run s s"
| server_next: "server_run s t \<Longrightarrow> server_step t u \<Longrightarrow> server_run s u"

inductive_cases server_stepE: "server_step s t"


subsection \<open>The invariant\<close>

primrec loop_holds :: "accept_pc \<Rightarrow> nat" where
  "loop_holds A_enter = 1"
| "loop_holds A_accept = 2"
| "loop_holds A_ended = 0"

definition loops_hold :: "accept_loop list \<Rightarrow> nat" where
  "loops_hold ls = sum_list (map (loop_holds \<circ> al_pc) ls)"

definition server_inv :: "socket_server \<Rightarrow> bool" where
  "server_inv s \<longleftrightarrow> distinct (ss_connections s) \<and> (\<forall>c \<in> set (ss_connections s). c < ss_next s)
     \<and> ss_current_connections s = of_nat (length (ss_connections s)) \<and> ss_total_connections s = of_nat (ss_next s)
     \<and> ss_gate_count s = loops_hold (ss_loops s) + length (ss_connections s)
     \<and> (ss_gate_closed s \<longrightarrow> set (ss_connections s) \<subseteq> set (ss_shut s))"

lemma loops_hold_update:
  assumes "i < length ls"
  shows "loops_hold (ls[i := (ls ! i)\<lparr>al_pc := pc\<rparr>]) + loop_holds (al_pc (ls ! i)) = loops_hold ls + loop_holds pc"
proof -
  let ?ns = "map (loop_holds \<circ> al_pc) ls"
  have "loop_holds (al_pc (ls ! i)) \<le> sum_list ?ns" using assms by (auto intro!: member_le_sum_list)
  then show ?thesis
    using assms sum_list_update [of i ?ns "loop_holds pc"] by (simp add: loops_hold_def map_update)
qed

lemma loops_hold_snoc: "loops_hold (ls @ [l]) = loops_hold ls + loop_holds (al_pc l)"
  by (simp add: loops_hold_def)

lemma new_socket_server_inv: "server_inv new_socket_server"
  by (simp add: server_inv_def new_socket_server_def loops_hold_def)

lemma do_accept_one_inv:
  assumes "server_inv s"
  shows "server_inv (do_accept_one r s)"
proof -
  have "ss_next s \<notin> set (ss_connections s)" using assms by (auto simp: server_inv_def)
  then show ?thesis
    using assms by (cases r) (auto simp: do_accept_one_def make_connection_def on_new_connection_def on_conn_open_def
        destroy_connection_def gate_enter_def server_inv_def Let_def remove1_append intro: less_SucI)
qed

lemma do_accept_one_loops [simp]: "ss_loops (do_accept_one r s) = ss_loops s"
  by (cases r) (simp_all add: do_accept_one_def make_connection_def on_new_connection_def on_conn_open_def
      destroy_connection_def gate_enter_def Let_def)

lemma accept_enter_inv:
  assumes "server_inv s" "i < length (ss_loops s)" "al_pc (ss_loops s ! i) = A_enter"
  shows "server_inv (accept_enter i s)"
  using assms loops_hold_update [OF assms(2), of A_ended] loops_hold_update [OF assms(2), of A_accept]
  by (auto simp: accept_enter_def server_inv_def gate_leave_def gate_enter_def set_loop_def)

lemma accept_leave_inv:
  assumes "server_inv s" "i < length (ss_loops s)" "al_pc (ss_loops s ! i) = A_accept"
  shows "server_inv (accept_leave i r s)"
  using do_accept_one_inv [OF assms(1), of r] assms(2,3) loops_hold_update [OF assms(2), of A_enter]
  by (auto simp: accept_leave_def server_inv_def gate_leave_def set_loop_def)

lemma of_nat_pred: "0 < n \<Longrightarrow> (of_nat n :: u64) - 1 = of_nat (n - 1)"
  by (cases n) simp_all

lemma connection_done_inv:
  assumes "server_inv s" "c \<in> set (ss_connections s)"
  shows "server_inv (connection_done c s)"
proof -
  have "0 < length (ss_connections s)" using assms(2) by (cases "ss_connections s") auto
  moreover from this have "n + length (ss_connections s) - 1 = n + (length (ss_connections s) - 1)" for n by linarith
  ultimately show ?thesis
    using assms of_nat_pred [of "length (ss_connections s)"] notin_set_remove1 [of _ "ss_connections s" c]
    by (auto simp: connection_done_def destroy_connection_def gate_leave_def server_inv_def length_remove1 dest: set_remove1_subset [THEN subsetD])
qed

lemma listen_inv: "server_inv s \<Longrightarrow> server_inv (listen addr creds s)"
  by (auto simp: listen_def do_accepts_def server_inv_def gate_enter_def loops_hold_snoc Let_def)

lemma fold_shutdown: "fold connection_shutdown cs s = s\<lparr>ss_shut := ss_shut s @ cs\<rparr>"
  by (induction cs arbitrary: s) (simp_all add: connection_shutdown_def)

lemma stop_inv: "server_inv s \<Longrightarrow> server_inv (socket_server_stop s)"
  by (auto simp: socket_server_stop_def fold_shutdown server_inv_def)

lemma server_step_inv: "server_step s t \<Longrightarrow> server_inv s \<Longrightarrow> server_inv t"
  by (induction rule: server_step.induct)
    (auto simp: accept_enter_inv accept_leave_inv connection_done_inv listen_inv stop_inv, simp add: set_handler_def server_inv_def)

lemma server_run_inv: "server_run s t \<Longrightarrow> server_inv s \<Longrightarrow> server_inv t"
  by (induction rule: server_run.induct) (auto intro: server_step_inv)

subsection \<open>Stopping\<close>

lemma server_run_trans: "server_run t u \<Longrightarrow> server_run s t \<Longrightarrow> server_run s u"
  by (induction rule: server_run.induct) (auto intro: server_next)

lemma stopped_step:
  assumes "server_step s t" "ss_gate_closed s"
  shows "ss_gate_closed t \<and> set (ss_connections t) \<subseteq> set (ss_connections s) \<and> length (ss_loops t) = length (ss_loops s)"
  using assms
  by (cases rule: server_step.cases)
    (auto simp: set_handler_def listen_def do_accepts_def accept_enter_def accept_leave_def do_accept_one_def make_connection_def
      on_new_connection_def on_conn_open_def destroy_connection_def connection_done_def gate_enter_def gate_leave_def set_loop_def
      Let_def remove1_append split: accepted.splits dest: set_remove1_subset [THEN subsetD])


lemma loops_hold_zero: "loops_hold ls = 0 \<longleftrightarrow> (\<forall>l \<in> set ls. al_pc l = A_ended)"
proof -
  have "loop_holds pc = 0 \<longleftrightarrow> pc = A_ended" for pc by (cases pc) simp_all
  then show ?thesis by (simp add: loops_hold_def)
qed

text \<open>A stopped server that still holds its gate can let go of it once.\<close>

lemma stopped_releases:
  assumes "server_inv s" "ss_gate_closed s" "0 < ss_gate_count s"
  shows "\<exists>t. server_step s t \<and> ss_gate_count t < ss_gate_count s"
proof (cases "ss_connections s = []")
  case True
  then have "loops_hold (ss_loops s) \<noteq> 0" using assms by (simp add: server_inv_def)
  then obtain i where i: "i < length (ss_loops s)" "al_pc (ss_loops s ! i) \<noteq> A_ended"
    using loops_hold_zero by (auto simp: in_set_conv_nth)
  show ?thesis
  proof (cases "al_pc (ss_loops s ! i)")
    case A_enter
    then show ?thesis
      using s_enter [OF i(1)] assms(2,3) by (intro exI [of _ "accept_enter i s"]) (simp add: accept_enter_def gate_leave_def set_loop_def)
  next
    case A_accept
    then show ?thesis
      using s_leave [OF i(1), of Accept_failed] assms(3)
      by (intro exI [of _ "accept_leave i Accept_failed s"]) (simp add: accept_leave_def do_accept_one_def gate_leave_def set_loop_def)
  qed (use i(2) in simp)
next
  case False
  then obtain c where "c \<in> set (ss_connections s)" using hd_in_set by blast
  then show ?thesis
    using s_done assms(3) by (intro exI [of _ "connection_done c s"]) (simp add: connection_done_def destroy_connection_def gate_leave_def)
qed

lemma stopped_drains:
  assumes "server_inv s" "ss_gate_closed s"
  shows "\<exists>t. server_run s t \<and> ss_gate_count t = 0"
  using assms
proof (induction "ss_gate_count s" arbitrary: s rule: less_induct)
  case less
  show ?case
  proof (cases "ss_gate_count s = 0")
    case True
    then show ?thesis using server_refl by blast
  next
    case False
    with stopped_releases [OF less.prems] obtain t where t: "server_step s t" "ss_gate_count t < ss_gate_count s" by auto
    from less.hyps [OF t(2) server_step_inv [OF t(1) less.prems(1)]] stopped_step [OF t(1) less.prems(2)]
    obtain u where "server_run t u" "ss_gate_count u = 0" by blast
    then show ?thesis using server_run_trans [OF _ server_next [OF server_refl t(1)]] by blast
  qed
qed

lemma gate_free_idle:
  assumes "server_inv s" "ss_gate_count s = 0"
  shows "ss_connections s = []" "ss_current_connections s = 0" "\<forall>l \<in> set (ss_loops s). al_pc l = A_ended"
  using assms loops_hold_zero by (auto simp: server_inv_def)

subsection \<open>All shards\<close>

text \<open>\<open>sharded<socket_server>\<close>: a server on every shard, once it is started.\<close>

type_synonym orchestrator = "u32 \<Rightarrow> socket_server option"

definition orchestrator_start :: "u32 \<Rightarrow> orchestrator" where
  "orchestrator_start smp = (\<lambda>sid. if sid < smp then Some new_socket_server else None)"

definition invoke_on_all :: "(socket_server \<Rightarrow> socket_server) \<Rightarrow> orchestrator \<Rightarrow> orchestrator" where
  "invoke_on_all f ob = (\<lambda>sid. map_option f (ob sid))"

definition orchestrator_set_handler :: "bool \<Rightarrow> orchestrator \<Rightarrow> orchestrator" where
  "orchestrator_set_handler h = invoke_on_all (set_handler h)"

definition orchestrator_listen :: "sstring \<Rightarrow> orchestrator \<Rightarrow> orchestrator" where
  "orchestrator_listen addr = invoke_on_all (listen_default addr)"

definition orchestrator_listen_tls :: "sstring \<Rightarrow> bool \<Rightarrow> orchestrator \<Rightarrow> orchestrator" where
  "orchestrator_listen_tls addr creds = invoke_on_all (listen addr creds)"

definition orchestrator_listen_options :: "sstring \<Rightarrow> orchestrator \<Rightarrow> orchestrator" where
  "orchestrator_listen_options addr = invoke_on_all (listen_default addr)"

definition orchestrator_stop :: "orchestrator \<Rightarrow> orchestrator" where
  "orchestrator_stop = invoke_on_all socket_server_stop"

subsection \<open>Properties\<close>

text \<open>
  C38. The books of a server are right at every moment: whatever it was asked to do and
  whatever arrived, the counter of current connections is the length of the list of
  connections, in which none stands twice, and the gate is held exactly by the accept loops
  and the connections.
\<close>

theorem server_accounting:
  assumes "server_run new_socket_server s"
  shows "ss_current_connections s = of_nat (length (ss_connections s)) \<and> distinct (ss_connections s)
    \<and> ss_gate_count s = loops_hold (ss_loops s) + length (ss_connections s)"
  using server_run_inv [OF assms new_socket_server_inv] by (simp add: server_inv_def)


definition example_server :: socket_server where
  "example_server = accept_leave 0 Incoming (accept_enter 0 (listen_default ''0.0.0.0'' (set_handler True new_socket_server)))"

lemma example_server_run: "server_run new_socket_server example_server" "\<not> ss_gate_closed example_server" "ss_connections example_server = [0]"
proof -
  note d = example_server_def listen_default_def listen_def do_accepts_def accept_enter_def accept_leave_def do_accept_one_def
    make_connection_def on_new_connection_def on_conn_open_def gate_enter_def gate_leave_def set_loop_def set_handler_def
    new_socket_server_def
  let ?a = "set_handler True new_socket_server"
  let ?b = "listen_default ''0.0.0.0'' ?a"
  have "server_run new_socket_server ?a" by (intro server_next [OF server_refl] s_handler)
  then have "server_run new_socket_server ?b" by (rule server_next) (simp add: listen_default_def s_listen)
  then have "server_run new_socket_server (accept_enter 0 ?b)" by (rule server_next) (rule s_enter, simp_all add: d)
  then show "server_run new_socket_server example_server"
    unfolding example_server_def by (rule server_next) (rule s_leave, simp_all add: d)
  show "\<not> ss_gate_closed example_server" "ss_connections example_server = [0]" by (simp_all add: d)
qed

theorem server_accounting_witness:
  "server_run new_socket_server example_server \<and> ss_current_connections example_server = 1 \<and> ss_gate_count example_server = 2"
proof -
  have "loops_hold (ss_loops example_server) = 1"
    by (simp add: loops_hold_def example_server_def listen_default_def listen_def do_accepts_def accept_enter_def accept_leave_def
        gate_enter_def gate_leave_def set_loop_def set_handler_def new_socket_server_def)
  then show ?thesis using server_accounting [OF example_server_run(1)] example_server_run(1,3) by simp
qed


end
