(* ===== verification/Config_Loader.thy ===== *)
theory Config_Loader
  imports Db_Config Text
begin

text \<open>
  Reading the configuration file: \<open>include/config_loader.hh\<close> and \<open>src/config_loader.cc\<close>. The
  file system is a function from paths to the contents of the files that can be opened; what the
  loader prints to the terminal is left out. A parser that writes through a reference and
  returns whether it succeeded is a function to an option.
\<close>

subsection \<open>Numbers with a fraction\<close>

text \<open>
  \<open>std::stod\<close>: the value of the longest number at the start of the text and how many characters
  it has, or nothing when the function throws. The result of a decimal number is its exact value, rounded by
  \<open>rnd\<close>. The texts that denote no rational in decimal (hexadecimal numbers, infinities and NaN) are left to the
  argument \<open>other\<close>.
\<close>

definition is_space :: "char \<Rightarrow> bool" where
  "is_space c \<longleftrightarrow> c = CHR '' '' \<or> 9 \<le> (of_char c :: nat) \<and> (of_char c :: nat) \<le> 13"

definition signed_text :: "string \<Rightarrow> bool" where
  "signed_text s \<longleftrightarrow> s \<noteq> [] \<and> (hd s = CHR ''-'' \<or> hd s = CHR ''+'')"

definition special_number :: "string \<Rightarrow> bool" where
  "special_number s \<longleftrightarrow> ieq (take 2 s) ''0X'' \<or> ieq (take 3 s) ''INF'' \<or> ieq (take 3 s) ''NAN''"

definition exponent :: "string \<Rightarrow> int \<times> nat" where
  "exponent s =
     (if s \<noteq> [] \<and> (hd s = CHR ''e'' \<or> hd s = CHR ''E'') then
        (let sg = (if signed_text (tl s) then 1 else 0);
             ds = takeWhile is_digit (drop sg (tl s));
             v = int (digits_value 0 ds)
         in if ds = [] then (0, 0) else (if sg = 1 \<and> hd (tl s) = CHR ''-'' then - v else v, 1 + sg + length ds))
      else (0, 0))"

definition power_of_ten :: "int \<Rightarrow> double" where
  "power_of_ten i = (if 0 \<le> i then 10 ^ nat i else 1 / 10 ^ nat (- i))"

definition stod :: "(double \<Rightarrow> double) \<Rightarrow> (string \<Rightarrow> (double \<times> nat) option) \<Rightarrow> string \<Rightarrow> (double \<times> nat) option" where
  "stod rnd other s =
     (let ws = length (takeWhile is_space s); s1 = drop ws s;
          sg = (if signed_text s1 then 1 else 0); s2 = drop sg s1
      in if special_number s2 then other s
         else
           (let ip = takeWhile is_digit s2; r = drop (length ip) s2;
                dot = (r \<noteq> [] \<and> hd r = CHR ''.'');
                fp = (if dot then takeWhile is_digit (tl r) else []);
                m = length ip + (if dot then 1 + length fp else 0);
                (e, el) = exponent (drop m s2);
                v = of_nat (digits_value 0 (ip @ fp)) / 10 ^ length fp * power_of_ten e
            in if ip = [] \<and> fp = [] then None
               else if v \<noteq> 0 \<and> (v < 1 / 2 ^ 1022 \<and> rnd v \<noteq> v \<or> 2 ^ 1024 \<le> rnd v) then None
               else Some (if sg = 1 \<and> hd s1 = CHR ''-'' then - rnd v else rnd v, ws + sg + m + el)))"

subsection \<open>The helpers\<close>

definition is_cfg_blank :: "char \<Rightarrow> bool" where
  "is_cfg_blank c \<longleftrightarrow> c = CHR '' '' \<or> c = CHR 0x09 \<or> c = CHR 0x0D"

definition find_last_of :: "(char \<Rightarrow> bool) \<Rightarrow> string \<Rightarrow> nat option" where
  "find_last_of P s = map_option (\<lambda>i. length s - 1 - i) (find_first_of P (rev s))"

definition cfg_trim :: "string \<Rightarrow> string" where
  "cfg_trim s =
     (case find_first_of (\<lambda>c. \<not> is_cfg_blank c) s of
        None \<Rightarrow> []
      | Some b \<Rightarrow>
          (case find_last_of (\<lambda>c. \<not> is_cfg_blank c) s of
             None \<Rightarrow> []
           | Some e \<Rightarrow> take (e - b + 1) (drop b s)))"

definition parse_bool :: "string \<Rightarrow> bool option" where
  "parse_bool v =
     (if v \<in> {''1'', ''true'', ''TRUE'', ''on'', ''ON'', ''yes'', ''YES''} then Some True
      else if v \<in> {''0'', ''false'', ''FALSE'', ''off'', ''OFF'', ''no'', ''NO''} then Some False
      else None)"

definition maybe_unquote :: "string \<Rightarrow> string" where
  "maybe_unquote v =
     (if 2 \<le> length v \<and> hd v = CHR 0x22 \<and> last v = CHR 0x22 then take (length v - 2) (drop 1 v) else v)"

definition parse_u64 :: "string \<Rightarrow> u64 option" where
  "parse_u64 v =
     (case from_chars_unsigned (2 ^ 64 - 1) v of
        Inl e \<Rightarrow> None
      | Inr (parsed, rest) \<Rightarrow> if rest = [] then Some (of_nat parsed) else None)"

definition parse_double :: "(double \<Rightarrow> double) \<Rightarrow> (string \<Rightarrow> (double \<times> nat) option) \<Rightarrow> string \<Rightarrow> double option" where
  "parse_double rnd other v =
     (case stod rnd other v of
        None \<Rightarrow> None
      | Some (parsed, idx) \<Rightarrow> if idx = length v then Some parsed else None)"

definition parse_policy :: "string \<Rightarrow> EvictionPolicy option" where
  "parse_policy v = (if v \<in> {''sieve'', ''SIEVE'', ''Sieve''} then Some SievePolicyKind else None)"

definition policy_name :: "EvictionPolicy \<Rightarrow> string" where
  "policy_name p = (case p of SievePolicyKind \<Rightarrow> ''Sieve'')"

text \<open>The port, parsed as \<open>unsigned\<close> and checked against 65535.\<close>

definition parse_port :: "string \<Rightarrow> u16 option" where
  "parse_port v =
     (case from_chars_unsigned (2 ^ 32 - 1) v of
        Inl e \<Rightarrow> None
      | Inr (parsed, rest) \<Rightarrow> if rest = [] \<and> parsed \<le> 65535 then Some (of_nat parsed) else None)"

subsection \<open>The settings\<close>

definition set_soft :: "(EvictConfig \<Rightarrow> EvictConfig) \<Rightarrow> db_config \<Rightarrow> db_config" where
  "set_soft f cfg = cfg\<lparr>dc_ev_config := (dc_ev_config cfg)\<lparr>evc_soft := f (evc_soft (dc_ev_config cfg))\<rparr>\<rparr>"

definition set_prob_evict :: "(EvictConfig \<Rightarrow> EvictConfig) \<Rightarrow> db_config \<Rightarrow> db_config" where
  "set_prob_evict f cfg = cfg\<lparr>dc_ev_config := (dc_ev_config cfg)\<lparr>evc_prob_evict := f (evc_prob_evict (dc_ev_config cfg))\<rparr>\<rparr>"

definition set_pool :: "(PoolConfig \<Rightarrow> PoolConfig) \<Rightarrow> db_config \<Rightarrow> db_config" where
  "set_pool f cfg = cfg\<lparr>dc_pool := f (dc_pool cfg)\<rparr>"

definition if_parsed :: "'v option \<Rightarrow> ('v \<Rightarrow> db_config \<Rightarrow> db_config) \<Rightarrow> db_config \<Rightarrow> db_config" where
  "if_parsed p f cfg = (case p of None \<Rightarrow> cfg | Some v \<Rightarrow> f v cfg)"

definition apply_setting ::
  "(double \<Rightarrow> double) \<Rightarrow> (string \<Rightarrow> (double \<times> nat) option) \<Rightarrow> string \<Rightarrow> string \<Rightarrow> db_config \<Rightarrow> db_config" where
  "apply_setting rnd other key value cfg =
     (if key = ''db_port'' \<or> key = ''base_port'' \<or> key = ''port''
        then if_parsed (parse_port value) (\<lambda>v c. c\<lparr>dc_db_port := v\<rparr>) cfg
      else if key = ''hash'' then cfg\<lparr>dc_hash := value\<rparr>
      else if key = ''policy''
        then if_parsed (parse_policy value) (\<lambda>v c. c\<lparr>dc_ev_config := (dc_ev_config c)\<lparr>evc_policy := v\<rparr>\<rparr>) cfg
      else if key = ''soft_trigger''
        then if_parsed (parse_double rnd other value) (\<lambda>v. set_soft (\<lambda>e. e\<lparr>ec_trigger := v\<rparr>)) cfg
      else if key = ''soft_stop''
        then if_parsed (parse_double rnd other value) (\<lambda>v. set_soft (\<lambda>e. e\<lparr>ec_stop := v\<rparr>)) cfg
      else if key = ''soft_budget''
        then if_parsed (parse_u64 value) (\<lambda>v. set_soft (\<lambda>e. e\<lparr>ec_budget := v\<rparr>)) cfg
      else if key = ''soft_throttle''
        then if_parsed (parse_bool value) (\<lambda>v. set_soft (\<lambda>e. e\<lparr>ec_throttle := False\<rparr>)) cfg
      else if key = ''send_shard_details_on_connect''
        then if_parsed (parse_bool value) (\<lambda>v c. c\<lparr>dc_send_shard_details_on_connect := v\<rparr>) cfg
      else if key = ''memory_reserve_percentage''
        then if_parsed (parse_double rnd other value) (\<lambda>v. set_pool (\<lambda>p. p\<lparr>pc_memory_reserve_percentage := v\<rparr>)) cfg
      else if key = ''pool_max_memory_percent''
        then if_parsed (parse_double rnd other value) (\<lambda>v. set_pool (\<lambda>p. p\<lparr>pc_pool_max_memory_percent := v\<rparr>)) cfg
      else if key = ''page_size_goal''
        then if_parsed (parse_u64 value) (\<lambda>v. set_pool (\<lambda>p. p\<lparr>pc_page_size_goal := unat v\<rparr>)) cfg
      else if key = ''key_reserve''
        then if_parsed (parse_u64 value) (\<lambda>v. set_pool (\<lambda>p. p\<lparr>pc_key_reserve := unat v\<rparr>)) cfg
      else if key = ''probationary_pool_size''
        then if_parsed (parse_double rnd other value) (\<lambda>v. set_pool (\<lambda>p. p\<lparr>pc_prob_pool_size_percent := v\<rparr>)) cfg
      else if key = ''hard_trigger''
        then if_parsed (parse_double rnd other value) (\<lambda>v. set_prob_evict (\<lambda>e. e\<lparr>ec_trigger := v\<rparr>)) cfg
      else if key = ''hard_budget''
        then if_parsed (parse_u64 value) (\<lambda>v. set_prob_evict (\<lambda>e. e\<lparr>ec_prob_budget := v\<rparr>)) cfg
      else cfg)"

subsection \<open>The file\<close>

text \<open>The key and the value of a line, if it has both.\<close>

definition config_setting :: "string \<Rightarrow> (string \<times> string) option" where
  "config_setting line =
     (let sv = cfg_trim line
      in if sv = [] \<or> hd sv = CHR ''#'' then None
         else
           (case find_char (CHR ''='') sv of
              None \<Rightarrow> None
            | Some eq \<Rightarrow>
                (let key = cfg_trim (take eq sv);
                     value = cfg_trim (drop (eq + 1) sv);
                     value1 = (case find_char (CHR ''#'') value of None \<Rightarrow> value | Some comment \<Rightarrow> cfg_trim (take comment value))
                 in if value1 = [] then None else Some (key, maybe_unquote value1))))"

definition config_line ::
  "(double \<Rightarrow> double) \<Rightarrow> (string \<Rightarrow> (double \<times> nat) option) \<Rightarrow> string \<Rightarrow> db_config \<Rightarrow> db_config" where
  "config_line rnd other line cfg =
     (case config_setting line of None \<Rightarrow> cfg | Some (key, value) \<Rightarrow> apply_setting rnd other key value cfg)"

text \<open>The lines that \<open>std::getline\<close> yields.\<close>

function getlines :: "string \<Rightarrow> string list" where
  "getlines s =
     (if s = [] then []
      else case find_char (CHR 0x0A) s of None \<Rightarrow> [s] | Some i \<Rightarrow> take i s # getlines (drop (i + 1) s))"
  by pat_completeness auto
termination by (relation "measure length") (auto dest: find_char_Some)

declare getlines.simps [simp del]

definition open_config :: "(string \<Rightarrow> string option) \<Rightarrow> string \<Rightarrow> string option" where
  "open_config files path =
     (case files path of
        Some text \<Rightarrow> Some text
      | None \<Rightarrow>
          if \<not> (path \<noteq> [] \<and> hd path = CHR ''/'') \<and> path = ''config.conf''
          then (case files ''../config.conf'' of Some text \<Rightarrow> Some text | None \<Rightarrow> files ''../../config.conf'')
          else None)"

definition load_config_file ::
  "(double \<Rightarrow> double) \<Rightarrow> (string \<Rightarrow> (double \<times> nat) option) \<Rightarrow> (string \<Rightarrow> string option) \<Rightarrow> string \<Rightarrow> db_config \<Rightarrow> db_config" where
  "load_config_file rnd other files path cfg =
     (case open_config files path of
        None \<Rightarrow> cfg
      | Some text \<Rightarrow> fold (config_line rnd other) (getlines text) cfg)"


subsection \<open>Trimming\<close>

lemma find_first_of_prefix:
  "\<forall>c \<in> set ws. \<not> P c \<Longrightarrow> find_first_of P (ws @ t) = map_option ((+) (length ws)) (find_first_of P t)"
  by (induction ws; cases "find_first_of P t") auto

lemma find_first_of_hd: "t \<noteq> [] \<Longrightarrow> P (hd t) \<Longrightarrow> find_first_of P t = Some 0"
  by (cases t) auto

definition blanks :: "string \<Rightarrow> bool" where
  "blanks ws \<longleftrightarrow> (\<forall>c \<in> set ws. is_cfg_blank c)"

definition trimmed :: "string \<Rightarrow> bool" where
  "trimmed t \<longleftrightarrow> t \<noteq> [] \<and> \<not> is_cfg_blank (hd t) \<and> \<not> is_cfg_blank (last t)"

lemma cfg_trim_eq:
  assumes "blanks w1" "blanks w2" "trimmed t"
  shows "cfg_trim (w1 @ t @ w2) = t"
proof -
  let ?P = "\<lambda>c. \<not> is_cfg_blank c"
  have "find_first_of ?P (w1 @ t @ w2) = Some (length w1)"
    using assms find_first_of_prefix [of w1 ?P "t @ w2"] find_first_of_hd [of "t @ w2" ?P]
    by (simp add: blanks_def trimmed_def)
  moreover have "find_first_of ?P (rev (w1 @ t @ w2)) = Some (length w2)"
    using assms find_first_of_prefix [of "rev w2" ?P "rev t @ rev w1"] find_first_of_hd [of "rev t @ rev w1" ?P]
    by (simp add: blanks_def trimmed_def hd_rev)
  moreover have "0 < length t" using assms(3) by (simp add: trimmed_def)
  ultimately show ?thesis by (simp add: cfg_trim_def find_last_of_def)
qed

lemma trailing_blanks:
  "\<exists>t w. s = t @ w \<and> blanks w \<and> (t = [] \<or> \<not> is_cfg_blank (last t))"
proof (induction s rule: rev_induct)
  case (snoc c s)
  show ?case
  proof (cases "is_cfg_blank c")
    case True
    from snoc obtain t w where "s = t @ w" "blanks w" "t = [] \<or> \<not> is_cfg_blank (last t)" by blast
    then show ?thesis using True by (intro exI [of _ t] exI [of _ "w @ [c]"]) (auto simp: blanks_def)
  next
    case False
    then show ?thesis by (intro exI [of _ "s @ [c]"] exI [of _ "[]"]) (simp add: blanks_def)
  qed
qed (simp add: blanks_def)

subsection \<open>Writing a configuration file\<close>

text \<open>
  A line that sets a key, as a person writes it: blanks may stand around the key and the value,
  and a comment may follow.
\<close>

record setting_text =
  st_indent :: string
  st_key :: string
  st_gap1 :: string
  st_gap2 :: string
  st_value :: string
  st_gap3 :: string
  st_comment :: string

definition setting_line :: "setting_text \<Rightarrow> string" where
  "setting_line t = st_indent t @ st_key t @ st_gap1 t @ CHR ''='' # st_gap2 t @ st_value t @ st_gap3 t @ st_comment t"

definition setting_ok :: "setting_text \<Rightarrow> bool" where
  "setting_ok t \<longleftrightarrow> blanks (st_indent t) \<and> blanks (st_gap1 t) \<and> blanks (st_gap2 t) \<and> blanks (st_gap3 t)
     \<and> trimmed (st_key t) \<and> hd (st_key t) \<noteq> CHR ''#'' \<and> CHR ''='' \<notin> set (st_key t)
     \<and> trimmed (st_value t) \<and> CHR ''#'' \<notin> set (st_value t)
     \<and> (st_comment t = [] \<or> hd (st_comment t) = CHR ''#'')
     \<and> CHR 0x0A \<notin> set (setting_line t)"

lemma blank_chars: "\<not> is_cfg_blank (CHR ''#'')" "\<not> is_cfg_blank (CHR ''='')"
  by (simp_all add: is_cfg_blank_def)

text \<open>The value of a line with what follows it, without the blanks at the end.\<close>

lemma value_with_comment:
  assumes "setting_ok t"
  obtains body w where "st_value t @ st_gap3 t @ st_comment t = body @ w" "blanks w" "trimmed body"
    "body = st_value t \<or> (\<exists>c. body = (st_value t @ st_gap3 t) @ CHR ''#'' # c)"
proof (cases "st_comment t = []")
  case True
  then show ?thesis using that [of "st_value t" "st_gap3 t"] assms by (simp add: setting_ok_def)
next
  case False
  then obtain c where c: "st_comment t = CHR ''#'' # c"
    using assms by (cases "st_comment t") (auto simp: setting_ok_def)
  obtain c1 w1 where "c = c1 @ w1" "blanks w1" "c1 = [] \<or> \<not> is_cfg_blank (last c1)" using trailing_blanks [of c] by blast
  moreover have "trimmed (st_value t)" using assms by (simp add: setting_ok_def)
  ultimately show ?thesis
    using that [of "st_value t @ st_gap3 t @ CHR ''#'' # c1" w1] c blank_chars(1) by (auto simp: trimmed_def)
qed

lemma config_setting_line:
  assumes "setting_ok t"
  shows "config_setting (setting_line t) = Some (st_key t, maybe_unquote (st_value t))"
proof -
  let ?k = "st_key t" and ?v = "st_value t" and ?g = "st_gap1 t"
  have b: "blanks (st_indent t)" "blanks ?g" "blanks (st_gap2 t)" "blanks (st_gap3 t)" "trimmed ?k" "trimmed ?v"
    and k: "hd ?k \<noteq> CHR ''#''" "CHR ''='' \<notin> set ?k" and v: "CHR ''#'' \<notin> set ?v"
    using assms by (simp_all add: setting_ok_def)
  have n: "blanks []" by (simp add: blanks_def)
  have m: "CHR ''#'' \<notin> set w" "CHR ''='' \<notin> set w" if "blanks w" for w
    using that blank_chars unfolding blanks_def by metis+
  obtain body w where w: "?v @ st_gap3 t @ st_comment t = body @ w" "blanks w" "trimmed body"
    and body: "body = ?v \<or> (\<exists>c. body = (?v @ st_gap3 t) @ CHR ''#'' # c)"
    using value_with_comment [OF assms] by blast
  note tb = w(3)
  let ?sv = "?k @ ?g @ CHR ''='' # st_gap2 t @ body"
  have "trimmed ?sv" using tb b(5) by (simp add: trimmed_def)
  then have sv: "cfg_trim (setting_line t) = ?sv"
    using cfg_trim_eq [OF b(1) w(2), of ?sv] w(1) by (simp add: setting_line_def)
  have f: "find_char (CHR ''='') ?sv = Some (length (?k @ ?g))"
    using find_char_append [of "CHR ''=''" "?k @ ?g"] k(2) m(2) [OF b(2)] by simp
  have key: "cfg_trim (?k @ ?g) = ?k" using cfg_trim_eq [OF n b(2,5)] b(2) by simp
  have val: "cfg_trim (st_gap2 t @ body) = body" using cfg_trim_eq [OF b(3) n tb] b(3) by simp
  have "(case find_char (CHR ''#'') body of None \<Rightarrow> body | Some comment \<Rightarrow> cfg_trim (take comment body)) = ?v"
  proof (cases "body = ?v")
    case True
    then show ?thesis using v find_char_None [of "CHR ''#''" ?v] by simp
  next
    case False
    then obtain c where c: "body = (?v @ st_gap3 t) @ CHR ''#'' # c" using body by blast
    have "find_char (CHR ''#'') body = Some (length (?v @ st_gap3 t))"
      unfolding c using v m(1) [OF b(4)] by (intro find_char_append) simp
    then show ?thesis using c cfg_trim_eq [OF n b(4,6)] b(4) by simp
  qed
  moreover have "?sv \<noteq> []" "hd ?sv \<noteq> CHR ''#''" "?v \<noteq> []" using b(5,6) k(1) by (simp_all add: trimmed_def)
  ultimately show ?thesis
    unfolding config_setting_def sv using f key val by (simp add: Let_def)
qed

lemma getlines_lines: "\<forall>l \<in> set ls. CHR 0x0A \<notin> set l \<Longrightarrow> getlines (concat (map (\<lambda>l. l @ [CHR 0x0A]) ls)) = ls"
proof (induction ls)
  case Nil
  then show ?case by (simp add: getlines.simps)
next
  case (Cons l ls)
  let ?rest = "concat (map (\<lambda>l. l @ [CHR 0x0A]) ls)"
  have "find_char (CHR 0x0A) (l @ CHR 0x0A # ?rest) = Some (length l)" using Cons.prems by (intro find_char_append) simp
  then show ?case using Cons by (simp add: getlines.simps [of "l @ CHR 0x0A # ?rest"])
qed

definition unthrottled :: "db_config \<Rightarrow> bool" where
  "unthrottled cfg \<longleftrightarrow> \<not> ec_throttle (evc_soft (dc_ev_config cfg))"

lemma unthrottled_updates:
  assumes "unthrottled cfg"
  shows "unthrottled (cfg\<lparr>dc_db_port := v1\<rparr>)" "unthrottled (cfg\<lparr>dc_hash := v2\<rparr>)"
    "unthrottled (cfg\<lparr>dc_ev_config := (dc_ev_config cfg)\<lparr>evc_policy := v3\<rparr>\<rparr>)"
    "unthrottled (cfg\<lparr>dc_send_shard_details_on_connect := v4\<rparr>)" "unthrottled (set_pool f cfg)" "unthrottled (set_prob_evict g cfg)"
    "unthrottled (set_soft (\<lambda>e. e\<lparr>ec_trigger := v5\<rparr>) cfg)" "unthrottled (set_soft (\<lambda>e. e\<lparr>ec_stop := v5\<rparr>) cfg)"
    "unthrottled (set_soft (\<lambda>e. e\<lparr>ec_budget := v6\<rparr>) cfg)" "unthrottled (set_soft (\<lambda>e. e\<lparr>ec_throttle := False\<rparr>) cfg)"
  using assms by (simp_all add: unthrottled_def set_pool_def set_prob_evict_def set_soft_def)

lemma if_parsed_throttle:
  "unthrottled cfg \<Longrightarrow> (\<And>v. unthrottled (f v cfg)) \<Longrightarrow> unthrottled (if_parsed q f cfg)"
  by (simp add: if_parsed_def split: option.split)

lemma apply_setting_throttle: "unthrottled cfg \<Longrightarrow> unthrottled (apply_setting rnd other key value cfg)"
  by (simp add: apply_setting_def if_parsed_throttle unthrottled_updates)

lemma config_line_throttle: "unthrottled cfg \<Longrightarrow> unthrottled (config_line rnd other line cfg)"
  by (simp add: config_line_def apply_setting_throttle split: option.split prod.split)

lemma config_lines_throttle: "unthrottled cfg \<Longrightarrow> unthrottled (fold (config_line rnd other) ls cfg)"
  by (induction ls arbitrary: cfg) (simp_all add: config_line_throttle)


lemma parse_port_exact: "parse_port (to_string n) = (if n \<le> 65535 then Some (of_nat n) else None)"
proof (cases "n \<le> 2 ^ 32 - 1")
  case True
  then show ?thesis using from_chars_to_string [of n "2 ^ 32 - 1" "[]"] by (simp add: parse_port_def)
next
  case False
  have t: "takeWhile is_digit (to_string n) = to_string n" using to_string_digits [of n] by simp
  have "from_chars_unsigned (2 ^ 32 - 1) (to_string n) = Inl result_out_of_range"
    unfolding from_chars_unsigned_def Let_def t digits_value_to_string using False by simp
  then show ?thesis using False by (simp add: parse_port_def)
qed

subsection \<open>Properties\<close>

text \<open>
  C40. A configuration file that is written line by line as "key = value # comment", with any
  blanks and any comments, is read as these settings, applied in this order to the defaults;
  a value may stand in double quotes.
\<close>

theorem config_file_settings:
  assumes "\<forall>t \<in> set ts. setting_ok t" "open_config files path = Some (concat (map (\<lambda>t. setting_line t @ [CHR 0x0A]) ts))"
  shows "load_config_file rnd other files path cfg =
    fold (\<lambda>t. apply_setting rnd other (st_key t) (maybe_unquote (st_value t))) ts cfg"
proof -
  have "\<forall>l \<in> set (map setting_line ts). CHR 0x0A \<notin> set l" using assms(1) by (auto simp: setting_ok_def)
  from getlines_lines [OF this] have l: "getlines (concat (map (\<lambda>t. setting_line t @ [CHR 0x0A]) ts)) = map setting_line ts"
    by (simp add: comp_def)
  have "fold (config_line rnd other) (map setting_line ts) cfg =
      fold (\<lambda>t. apply_setting rnd other (st_key t) (maybe_unquote (st_value t))) ts cfg"
    using assms(1) by (induction ts arbitrary: cfg) (simp_all add: config_line_def config_setting_line)
  then show ?thesis by (simp only: load_config_file_def assms(2) l option.case)
qed

theorem config_file_settings_witness:
  "load_config_file id (\<lambda>s. None) [''config.conf'' \<mapsto> '' db_port = 7000 # main'' @ [CHR 0x0A] @ ''soft_budget=16'' @ [CHR 0x0A]] ''config.conf''
     default_db_config = set_soft (\<lambda>e. e\<lparr>ec_budget := 16\<rparr>) (default_db_config\<lparr>dc_db_port := 7000\<rparr>)"
proof -
  let ?t = "\<lparr>st_indent = '' '', st_key = ''db_port'', st_gap1 = '' '', st_gap2 = '' '', st_value = ''7000'', st_gap3 = '' '', st_comment = ''# main''\<rparr>"
  let ?u = "\<lparr>st_indent = [], st_key = ''soft_budget'', st_gap1 = [], st_gap2 = [], st_value = ''16'', st_gap3 = [], st_comment = []\<rparr>"
  let ?files = "[''config.conf'' \<mapsto> '' db_port = 7000 # main'' @ [CHR 0x0A] @ ''soft_budget=16'' @ [CHR 0x0A]]"
  have ok: "setting_ok ?t" "setting_ok ?u"
    by code_simp+
  have "open_config ?files ''config.conf'' = Some (concat (map (\<lambda>t. setting_line t @ [CHR 0x0A]) [?t, ?u]))"
    by (simp add: open_config_def setting_line_def)
  from config_file_settings [OF _ this, of id "\<lambda>s. None" default_db_config] ok
  have "load_config_file id (\<lambda>s. None) ?files ''config.conf'' default_db_config =
      apply_setting id (\<lambda>s. None) ''soft_budget'' (maybe_unquote ''16'') (apply_setting id (\<lambda>s. None) ''db_port'' (maybe_unquote ''7000'') default_db_config)"
    by simp
  moreover have "maybe_unquote ''16'' = ''16''" "maybe_unquote ''7000'' = ''7000''" "parse_port ''7000'' = Some 7000" "parse_u64 ''16'' = Some 16"
    by (simp_all add: maybe_unquote_def parse_port_def parse_u64_def from_chars_unsigned_def Let_def is_digit_def digit_val_def)
  ultimately show ?thesis by (simp add: apply_setting_def if_parsed_def)
qed

text \<open>
  Whatever the configuration file says, throttling stays off: the key \<open>soft_throttle\<close> is
  parsed, but its value is thrown away.
\<close>

theorem config_never_throttles:
  "\<not> ec_throttle (evc_soft (dc_ev_config (load_config_file rnd other files path default_db_config)))"
proof -
  have "unthrottled default_db_config" by (simp add: unthrottled_def default_db_config_def)
  then have "unthrottled (load_config_file rnd other files path default_db_config)"
    by (simp add: load_config_file_def config_lines_throttle split: option.split)
  then show ?thesis unfolding unthrottled_def .
qed

end
