(* ===== verification/Server_Main.thy ===== *)
theory Server_Main
  imports Conn Socket_Server Config_Loader
begin

text \<open>
  The program: \<open>src/main.cc\<close>. \<open>main\<close> reads the configuration and the option \<open>--port\<close>, \<open>init\<close> sets the node's
  configuration, starts the service of every shard and the socket servers, waits for a signal
  and stops, and \<open>log_request_counters_on_shutdown\<close> adds up what the shards counted. Its report is compiled only
  with the hot-path instrumentation (\<open>include/hotpath_metrics.hh\<close>); it is modelled as in that build,
  as the numbers that it prints.
\<close>

subsection \<open>Starting\<close>

definition main_config ::
  "(double \<Rightarrow> double) \<Rightarrow> (string \<Rightarrow> (double \<times> nat) option) \<Rightarrow> (string \<Rightarrow> string option) \<Rightarrow> u16 option \<Rightarrow> db_config" where
  "main_config rnd other files port_option =
     (let config = load_config_file rnd other files ''config.conf'' default_db_config
      in config\<lparr>dc_db_port := (case port_option of None \<Rightarrow> dc_db_port config | Some port \<Rightarrow> port)\<rparr>)"

definition init_node_cfg :: "db_config \<Rightarrow> u32 \<Rightarrow> node_cfg" where
  "init_node_cfg config smp_count =
     default_node_cfg\<lparr>nc_base_port := dc_db_port config, nc_smp := smp_count, nc_port_offset := 0, nc_hash := dc_hash config\<rparr>"

definition init_servers :: "db_config \<Rightarrow> u32 \<Rightarrow> orchestrator" where
  "init_servers config smp_count =
     orchestrator_listen_options (''0.0.0.0:'' @ to_string (unat (dc_db_port config)))
       (orchestrator_set_handler True (orchestrator_start smp_count))"

text \<open>The environment of the process with the configuration of the node, and the services of all shards.\<close>

definition init_runtime :: "runtime \<Rightarrow> db_config \<Rightarrow> runtime" where
  "init_runtime rt config = rt\<lparr>rt_node := init_node_cfg config (rt_smp rt)\<rparr>"

definition init :: "runtime \<Rightarrow> EvictionConfig \<Rightarrow> db_config \<Rightarrow> runtime \<times> bool \<times> cluster \<times> orchestrator" where
  "init rt ev config =
     (let rt1 = init_runtime rt config
      in (rt1, dc_send_shard_details_on_connect config, start_services rt1 config ev, init_servers config (rt_smp rt)))"

subsection \<open>Stopping\<close>

record shard_shutdown_stats =
  sd_req :: request_counters
  sd_latency :: request_latency_counters

definition shutdown_stats :: "runtime \<Rightarrow> cluster \<Rightarrow> shard_shutdown_stats list" where
  "shutdown_stats rt cl =
     map (\<lambda>sid. \<lparr>sd_req = snapshot_request_counters (cl sid), sd_latency = snapshot_request_latency_counters (cl sid)\<rparr>)
       (shard_ids rt)"

record shutdown_totals =
  tot_get :: u64
  tot_set :: u64
  tot_get_forwarded :: u64
  tot_set_forwarded :: u64
  tot_latency :: request_latency_counters

definition no_shutdown_totals :: shutdown_totals where
  "no_shutdown_totals = \<lparr>tot_get = 0, tot_set = 0, tot_get_forwarded = 0, tot_set_forwarded = 0, tot_latency = new_latency_counters\<rparr>"

definition add_shutdown_stats :: "shard_shutdown_stats \<Rightarrow> shutdown_totals \<Rightarrow> shutdown_totals" where
  "add_shutdown_stats p t =
     (let c = sd_req p
      in t\<lparr>tot_get := tot_get t + rq_get_total c, tot_set := tot_set t + rq_set_total c,
           tot_get_forwarded := tot_get_forwarded t + rq_get_forwarded c,
           tot_set_forwarded := tot_set_forwarded t + rq_set_forwarded c,
           tot_latency := merge_latency (tot_latency t) (sd_latency p)\<rparr>)"

definition cluster_totals :: "runtime \<Rightarrow> cluster \<Rightarrow> shutdown_totals" where
  "cluster_totals rt cl = fold add_shutdown_stats (shutdown_stats rt cl) no_shutdown_totals"

definition ops_per_sec :: "(double \<Rightarrow> double) \<Rightarrow> u64 \<Rightarrow> double \<Rightarrow> double" where
  "ops_per_sec rnd ops elapsed_s =
     (let safe_elapsed_s = (if 0 < elapsed_s then elapsed_s else 1) in rnd (rnd (of_nat (unat ops)) / safe_elapsed_s))"

definition us_to_ms :: "(double \<Rightarrow> double) \<Rightarrow> u64 \<Rightarrow> double" where
  "us_to_ms rnd us = rnd (rnd (of_nat (unat us)) / 1000)"

text \<open>\<open>log_pct\<close>: the number of latencies and the quantiles 0.5, 0.9, 0.99 and 0.999 in milliseconds.\<close>

definition log_pct :: "(double \<Rightarrow> double) \<Rightarrow> (double \<Rightarrow> double) \<Rightarrow> latency_histogram \<Rightarrow> u64 \<times> double list" where
  "log_pct rnd rndl h = (lh_count h, map (\<lambda>q. us_to_ms rnd (quantile_us rndl (rnd q) h)) [1 / 2, 9 / 10, 99 / 100, 999 / 1000])"

record shutdown_report =
  rep_totals :: shutdown_totals
  rep_qps :: "double \<times> double \<times> double"
  rep_latency_ops :: "u64 \<times> double"
  rep_percentiles :: "u64 \<times> double list"

text \<open>The clock is read for the throughput of the counters and again for that of the latencies.\<close>

definition log_request_counters_on_shutdown ::
  "(double \<Rightarrow> double) \<Rightarrow> runtime \<Rightarrow> double \<Rightarrow> double \<Rightarrow> cluster \<Rightarrow> shutdown_report" where
  "log_request_counters_on_shutdown rndl rt elapsed_s elapsed_s2 cl =
     (let t = cluster_totals rt cl; rnd = rt_rnd rt; total_ops2 = lh_count (rl_total (tot_latency t))
      in \<lparr>rep_totals = t,
          rep_qps = (ops_per_sec rnd (tot_get t + tot_set t) elapsed_s, ops_per_sec rnd (tot_get t) elapsed_s,
                     ops_per_sec rnd (tot_set t) elapsed_s),
          rep_latency_ops = (total_ops2, ops_per_sec rnd total_ops2 elapsed_s2),
          rep_percentiles = log_pct rnd rndl (rl_total (tot_latency t))\<rparr>)"

subsection \<open>The latencies of the cluster\<close>

text \<open>The histogram of a shard is what its recorded latencies amount to.\<close>

definition shard_latencies :: "(u32 \<Rightarrow> u64 list) \<Rightarrow> cluster \<Rightarrow> bool" where
  "shard_latencies xs cl \<longleftrightarrow> (\<forall>sid. rl_total (sv_latency (cl sid)) = recorded (xs sid))"

lemma shard_latencies_start: "shard_latencies (\<lambda>sid. []) (start_services rt cfg ev)"
  by (simp add: shard_latencies_def start_services_def service_start_def new_service_def new_latency_counters_def recorded_def)

lemma shard_latencies_record:
  assumes "shard_latencies xs cl"
  shows "shard_latencies (xs(sid := xs sid @ [us])) (on_shard sid (record_get_latency us) cl)"
    "shard_latencies (xs(sid := xs sid @ [us])) (on_shard sid (record_set_latency us) cl)"
  using assms by (simp_all add: shard_latencies_def on_shard_def record_get_latency_def record_set_latency_def recorded_snoc)

lemma fold_merge_latency:
  "rl_total (tot_latency (fold add_shutdown_stats ps t)) =
     fold (\<lambda>p h. merge_from h (rl_total (sd_latency p))) ps (rl_total (tot_latency t))"
  by (induction ps arbitrary: t) (simp_all add: add_shutdown_stats_def merge_latency_def Let_def)

lemma fold_merge_recorded:
  assumes "shard_latencies xs cl"
  shows "fold (\<lambda>sid h. merge_from h (rl_total (sv_latency (cl sid)))) sids (recorded ys) = recorded (ys @ concat (map xs sids))"
proof (induction sids arbitrary: ys)
  case (Cons sid sids)
  have "merge_from (recorded ys) (rl_total (sv_latency (cl sid))) = recorded (ys @ xs sid)"
    using assms merge_from_recorded by (simp add: shard_latencies_def)
  then show ?case using Cons [of "ys @ xs sid"] by simp
qed simp

lemma merged_latency:
  assumes "shard_latencies xs cl"
  shows "rl_total (tot_latency (cluster_totals rt cl)) = recorded (concat (map xs (shard_ids rt)))"
proof -
  have "recorded [] = rl_total (tot_latency no_shutdown_totals)"
    by (simp add: recorded_def no_shutdown_totals_def new_latency_counters_def)
  then show ?thesis
    unfolding cluster_totals_def fold_merge_latency shutdown_stats_def
    using fold_merge_recorded [OF assms, of "shard_ids rt" "[]"]
    by (simp add: fold_map comp_def snapshot_request_latency_counters_def)
qed

subsection \<open>Properties\<close>



definition example_latencies :: "u32 \<Rightarrow> u64 list" where
  "example_latencies = (\<lambda>sid. [])(1 := [900], 0 := [5])"

definition example_busy_cluster :: cluster where
  "example_busy_cluster = on_shard 0 (record_get_latency 5) (on_shard 1 (record_set_latency 900) example_cluster)"


end
