(* ===== verification/System.thy ===== *)
theory System
  imports Server_Main
begin

text \<open>
  The whole server: the services of all shards, the socket servers of all shards, and every open
  connection, running together. A step is a step of one accept loop, of one loop of one
  connection, or one request that takes effect on the services. A connection is named by its
  shard and its number there; \<open>sy_input\<close> is what its client sends, cut into chunks. The trace records the requests with their replies in the order in which they took
  effect.
\<close>

type_synonym conn_id = "u32 \<times> nat"

record trace_entry =
  te_conn :: conn_id
  te_moment :: moment
  te_request :: parsed_request
  te_reply :: string

record system =
  sy_cluster :: cluster
  sy_servers :: orchestrator
  sy_conns :: "conn_id \<Rightarrow> (resp_proc, cluster) conn_state"
  sy_input :: "conn_id \<Rightarrow> string list"
  sy_trace :: "trace_entry list"

definition system_start :: "runtime \<Rightarrow> EvictionConfig \<Rightarrow> db_config \<Rightarrow> system" where
  "system_start rt ev config =
     (case init rt ev config of
        (rt1, greet, cl, servers) \<Rightarrow>
          \<lparr>sy_cluster = cl, sy_servers = servers, sy_conns = (\<lambda>_. new_conn new_resp_proc cl []), sy_input = (\<lambda>_. []), sy_trace = []\<rparr>)"

definition open_conn :: "system \<Rightarrow> conn_id \<Rightarrow> bool" where
  "open_conn y k \<longleftrightarrow> (\<exists>s. sy_servers y (fst k) = Some s \<and> snd k \<in> set (ss_connections s))"

text \<open>
  The steps. \<open>rt\<close> and \<open>greet\<close> are what \<open>init\<close> set; \<open>chunks\<close> is what the client is going to send.
\<close>

inductive sys_step :: "runtime \<Rightarrow> bool \<Rightarrow> system \<Rightarrow> system \<Rightarrow> bool" for rt greet where
  y_enter: "sy_servers y sid = Some s \<Longrightarrow> i < length (ss_loops s) \<Longrightarrow> al_pc (ss_loops s ! i) = A_enter \<Longrightarrow>
     sys_step rt greet y (y\<lparr>sy_servers := (sy_servers y)(sid := Some (accept_enter i s))\<rparr>)"
| y_accept: "sy_servers y sid = Some s \<Longrightarrow> i < length (ss_loops s) \<Longrightarrow> al_pc (ss_loops s ! i) = A_accept \<Longrightarrow>
     sys_step rt greet y (y\<lparr>sy_servers := (sy_servers y)(sid := Some (accept_leave i r s)),
       sy_conns := (sy_conns y)((sid, ss_next s) := process_start greet ok rt sid (sy_cluster y) chunks),
       sy_input := (sy_input y)((sid, ss_next s) := chunks)\<rparr>)"
| y_silent: "open_conn y k \<Longrightarrow> conn_step resp_extract (resp_handle rt (fst k)) (sy_conns y k) d \<Longrightarrow>
     cn_log d = cn_log (sy_conns y k) \<Longrightarrow>
     sys_step rt greet y (y\<lparr>sy_conns := (sy_conns y)(k := d)\<rparr>)"
| y_request: "open_conn y k \<Longrightarrow> c = sy_conns y k \<Longrightarrow> cn_reader c = R_wait q \<Longrightarrow> 0 < cn_slots c \<Longrightarrow>
     resp_handle rt (fst k) mo q (sy_cluster y) = (r, cl) \<Longrightarrow>
     sys_step rt greet y (y\<lparr>sy_cluster := cl,
       sy_conns := (sy_conns y)(k := c\<lparr>cn_slots := cn_slots c - 1, cn_respq := cn_respq c @ [r], cn_world := cl,
         cn_log := cn_log c @ [(q, r)], cn_reader := R_extract\<rparr>),
       sy_trace := sy_trace y @ [\<lparr>te_conn = k, te_moment = mo, te_request = q, te_reply = r\<rparr>]\<rparr>)"
| y_done: "sy_servers y sid = Some s \<Longrightarrow> c \<in> set (ss_connections s) \<Longrightarrow> cn_closed (sy_conns y (sid, c)) \<Longrightarrow>
     sys_step rt greet y (y\<lparr>sy_servers := (sy_servers y)(sid := Some (connection_done c s))\<rparr>)"
| y_stop: "sy_servers y sid = Some s \<Longrightarrow> \<not> ss_gate_closed s \<Longrightarrow>
     sys_step rt greet y (y\<lparr>sy_servers := (sy_servers y)(sid := Some (socket_server_stop s))\<rparr>)"

inductive sys_run :: "runtime \<Rightarrow> bool \<Rightarrow> system \<Rightarrow> system \<Rightarrow> bool" for rt greet where
  sys_refl: "sys_run rt greet y y"
| sys_next: "sys_run rt greet y z \<Longrightarrow> sys_step rt greet z u \<Longrightarrow> sys_run rt greet y u"

definition trace_requests :: "trace_entry list \<Rightarrow> request list" where
  "trace_requests tr = map (\<lambda>e. (fst (te_conn e), te_moment e, te_request e)) tr"

definition conn_trace :: "conn_id \<Rightarrow> trace_entry list \<Rightarrow> (parsed_request \<times> string) list" where
  "conn_trace k tr = map (\<lambda>e. (te_request e, te_reply e)) (filter (\<lambda>e. te_conn e = k) tr)"


subsection \<open>The invariant\<close>

definition sys_inv :: "runtime \<Rightarrow> bool \<Rightarrow> cluster \<Rightarrow> system \<Rightarrow> bool" where
  "sys_inv rt greet cl y \<longleftrightarrow>
     (\<forall>sid s. sy_servers y sid = Some s \<longrightarrow> server_inv s)
     \<and> serve rt (trace_requests (sy_trace y)) cl = (map te_reply (sy_trace y), sy_cluster y)
     \<and> (\<forall>k. cn_log (sy_conns y k) = conn_trace k (sy_trace y))
     \<and> (\<forall>sid s c. sy_servers y sid = Some s \<longrightarrow>
          (if c < ss_next s
           then conn_inv (greeting greet rt sid) (sy_conns y (sid, c))
             \<and> requests_inv (read_requests new_resp_proc [] (sy_input y (sid, c))) (sy_conns y (sid, c))
           else conn_trace (sid, c) (sy_trace y) = []))"

lemma sys_invD:
  assumes "sys_inv rt greet cl y"
  shows "sy_servers y sid = Some s \<Longrightarrow> server_inv s"
    "serve rt (trace_requests (sy_trace y)) cl = (map te_reply (sy_trace y), sy_cluster y)"
    "cn_log (sy_conns y k) = conn_trace k (sy_trace y)"
    "sy_servers y sid = Some s \<Longrightarrow> c < ss_next s \<Longrightarrow> conn_inv (greeting greet rt sid) (sy_conns y (sid, c))"
    "sy_servers y sid = Some s \<Longrightarrow> c < ss_next s \<Longrightarrow> requests_inv (read_requests new_resp_proc [] (sy_input y (sid, c))) (sy_conns y (sid, c))"
    "sy_servers y sid = Some s \<Longrightarrow> \<not> c < ss_next s \<Longrightarrow> conn_trace (sid, c) (sy_trace y) = []"
  using assms by (auto simp: sys_inv_def simp del: split_paired_All split: if_splits)

lemma sys_inv_open:
  assumes "sys_inv rt greet cl y" "open_conn y k"
  shows "conn_inv (greeting greet rt (fst k)) (sy_conns y k)"
    "requests_inv (read_requests new_resp_proc [] (sy_input y k)) (sy_conns y k)"
    "\<And>s. sy_servers y (fst k) = Some s \<Longrightarrow> snd k < ss_next s"
proof -
  obtain s where s: "sy_servers y (fst k) = Some s" "snd k \<in> set (ss_connections s)" using assms(2) by (auto simp: open_conn_def)
  then have "snd k < ss_next s" using sys_invD(1) [OF assms(1) s(1)] by (auto simp: server_inv_def)
  then show "conn_inv (greeting greet rt (fst k)) (sy_conns y k)" "\<And>s. sy_servers y (fst k) = Some s \<Longrightarrow> snd k < ss_next s"
    "requests_inv (read_requests new_resp_proc [] (sy_input y k)) (sy_conns y k)"
    using sys_invD(4,5) [OF assms(1) s(1), of "snd k"] s(1) by simp_all
qed

text \<open>Steps of a server that add no connection.\<close>

lemma sys_inv_server:
  assumes "sys_inv rt greet cl y" "sy_servers y sid = Some s" "server_inv t" "ss_next t = ss_next s"
  shows "sys_inv rt greet cl (y\<lparr>sy_servers := (sy_servers y)(sid := Some t)\<rparr>)"
  using assms sys_invD [OF assms(1)] unfolding sys_inv_def by (auto split: if_splits)

lemma server_next_same [simp]: "ss_next (accept_enter i s) = ss_next s" "ss_next (connection_done c s) = ss_next s"
  "ss_next (socket_server_stop s) = ss_next s"
  by (simp_all add: accept_enter_def connection_done_def destroy_connection_def socket_server_stop_def fold_shutdown
      gate_leave_def gate_enter_def set_loop_def)

lemma accept_leave_next: "ss_next (accept_leave i r s) = ss_next s \<or> ss_next (accept_leave i r s) = Suc (ss_next s)"
  by (cases r) (simp_all add: accept_leave_def do_accept_one_def make_connection_def on_new_connection_def on_conn_open_def
      destroy_connection_def gate_leave_def gate_enter_def set_loop_def Let_def)

lemma sys_inv_accept:
  assumes "sys_inv rt greet cl y" "sy_servers y sid = Some s" "i < length (ss_loops s)" "al_pc (ss_loops s ! i) = A_accept"
  shows "sys_inv rt greet cl (y\<lparr>sy_servers := (sy_servers y)(sid := Some (accept_leave i r s)),
       sy_conns := (sy_conns y)((sid, ss_next s) := process_start greet ok rt sid (sy_cluster y) chunks),
       sy_input := (sy_input y)((sid, ss_next s) := chunks)\<rparr>)"
proof -
  note i = sys_invD [OF assms(1)]
  have "server_inv (accept_leave i r s)" using accept_leave_inv [OF i(1) [OF assms(2)] assms(3,4)] .
  moreover have "conn_inv (greeting greet rt sid) (process_start greet ok rt sid (sy_cluster y) chunks)" by (rule process_start_inv)
  moreover have "requests_inv (read_requests new_resp_proc [] chunks) (process_start greet ok rt sid (sy_cluster y) chunks)"
    by (rule process_start_requests(1))
  moreover have "cn_log (process_start greet ok rt sid (sy_cluster y) chunks) = conn_trace (sid, ss_next s) (sy_trace y)"
    using i(6) [OF assms(2), of "ss_next s"] by (simp add: process_start_def new_conn_def Let_def)
  ultimately show ?thesis
    using i assms(2) accept_leave_next [of i r s] unfolding sys_inv_def by (auto simp: less_Suc_eq)
qed

lemma sys_inv_conn:
  assumes "sys_inv rt greet cl y" "open_conn y k" "conn_inv (greeting greet rt (fst k)) d"
    "requests_inv (read_requests new_resp_proc [] (sy_input y k)) d" "cn_log d = cn_log (sy_conns y k)"
  shows "sys_inv rt greet cl (y\<lparr>sy_conns := (sy_conns y)(k := d)\<rparr>)"
  using assms(3-5) sys_invD [OF assms(1)] unfolding sys_inv_def by auto

lemma conn_trace_snoc: "conn_trace k (tr @ [e]) = (if te_conn e = k then conn_trace k tr @ [(te_request e, te_reply e)] else conn_trace k tr)"
  by (simp add: conn_trace_def)

lemma sys_inv_request:
  assumes "sys_inv rt greet cl y" "open_conn y k" "conn_inv (greeting greet rt (fst k)) d"
    "requests_inv (read_requests new_resp_proc [] (sy_input y k)) d"
    "cn_log d = cn_log (sy_conns y k) @ [(q, r)]" "handle_request rt (fst k) mo q (sy_cluster y) = (r, cl')"
  shows "sys_inv rt greet cl (y\<lparr>sy_cluster := cl', sy_conns := (sy_conns y)(k := d),
    sy_trace := sy_trace y @ [\<lparr>te_conn = k, te_moment = mo, te_request = q, te_reply = r\<rparr>]\<rparr>)"
proof -
  note i = sys_invD [OF assms(1)]
  have "serve rt (trace_requests (sy_trace y @ [\<lparr>te_conn = k, te_moment = mo, te_request = q, te_reply = r\<rparr>])) cl
      = (map te_reply (sy_trace y) @ [r], cl')"
    using i(2) assms(6) by (simp add: trace_requests_def serve_append)
  moreover have "snd k < ss_next s" if "sy_servers y (fst k) = Some s" for s using sys_inv_open(3) [OF assms(1,2) that] .
  ultimately show ?thesis
    using assms(3-5) i(1,3-6) unfolding sys_inv_def by (auto simp: conn_trace_snoc)
qed

lemma inv_world [simp]:
  "conn_inv g (c\<lparr>cn_world := w\<rparr>) = conn_inv g c" "requests_inv qs (c\<lparr>cn_world := w\<rparr>) = requests_inv qs c"
  by (simp_all add: conn_inv_def slots_inv_def order_inv_def flags_inv_def requests_inv_def to_come_def split: reader_pc.split)

lemma request_conn_inv:
  fixes c :: "(resp_proc, 'w) conn_state" and w :: 'w
  assumes "conn_inv g c" "requests_inv qs c" "cn_reader c = R_wait q" "0 < cn_slots c" "hdl mo q w = (r, w')"
  shows "conn_inv g (c\<lparr>cn_slots := cn_slots c - 1, cn_respq := cn_respq c @ [r], cn_world := w',
         cn_log := cn_log c @ [(q, r)], cn_reader := R_extract\<rparr>)"
    "requests_inv qs (c\<lparr>cn_slots := cn_slots c - 1, cn_respq := cn_respq c @ [r], cn_world := w',
         cn_log := cn_log c @ [(q, r)], cn_reader := R_extract\<rparr>)"
proof -
  let ?c = "c\<lparr>cn_world := w\<rparr>"
  have s: "conn_step resp_extract hdl ?c
     (?c\<lparr>cn_slots := cn_slots ?c - 1, cn_respq := cn_respq ?c @ [r], cn_world := w', cn_log := cn_log ?c @ [(q, r)], cn_reader := R_extract\<rparr>)"
    by (rule r_slot) (use assms in simp_all)
  from conn_inv_step [OF _ s, of g] assms(1)
  show "conn_inv g (c\<lparr>cn_slots := cn_slots c - 1, cn_respq := cn_respq c @ [r], cn_world := w',
         cn_log := cn_log c @ [(q, r)], cn_reader := R_extract\<rparr>)" by simp
  from requests_inv_step [OF s, of qs] assms(2)
  show "requests_inv qs (c\<lparr>cn_slots := cn_slots c - 1, cn_respq := cn_respq c @ [r], cn_world := w',
         cn_log := cn_log c @ [(q, r)], cn_reader := R_extract\<rparr>)" by simp
qed

lemma sys_step_inv:
  assumes "sys_step rt greet y z" "sys_inv rt greet cl y"
  shows "sys_inv rt greet cl z"
  using assms(1)
proof cases
  case (y_enter sid s i)
  show ?thesis
    unfolding y_enter(1)
    by (rule sys_inv_server [OF assms(2) y_enter(2) accept_enter_inv [OF sys_invD(1) [OF assms(2) y_enter(2)] y_enter(3,4)]]) simp
next
  case (y_accept sid s i r ok chunks)
  show ?thesis unfolding y_accept(1) by (rule sys_inv_accept [OF assms(2) y_accept(2-4)])
next
  case (y_silent k d)
  show ?thesis
    unfolding y_silent(1)
    by (rule sys_inv_conn [OF assms(2) y_silent(2) conn_inv_step [OF sys_inv_open(1) [OF assms(2) y_silent(2)] y_silent(3)]
          requests_inv_step [OF y_silent(3) sys_inv_open(2) [OF assms(2) y_silent(2)]] y_silent(4)])
next
  case (y_request k c q mo r cl')
  have "conn_inv (greeting greet rt (fst k)) c" "requests_inv (read_requests new_resp_proc [] (sy_input y k)) c"
    using sys_inv_open(1,2) [OF assms(2) y_request(2)] y_request(3) by simp_all
  note d = request_conn_inv [where hdl = "resp_handle rt (fst k)", OF this y_request(4-6)]
  show ?thesis
    unfolding y_request(1)
    by (rule sys_inv_request [OF assms(2) y_request(2) d]) (simp add: y_request(3), rule y_request(6) [unfolded resp_handle_def])
next
  case (y_done sid s c)
  show ?thesis
    unfolding y_done(1)
    by (rule sys_inv_server [OF assms(2) y_done(2) connection_done_inv [OF sys_invD(1) [OF assms(2) y_done(2)] y_done(3)]]) simp
next
  case (y_stop sid s)
  show ?thesis
    unfolding y_stop(1)
    by (rule sys_inv_server [OF assms(2) y_stop(2) stop_inv [OF sys_invD(1) [OF assms(2) y_stop(2)]]]) simp
qed

lemma sys_run_inv: "sys_run rt greet y z \<Longrightarrow> sys_inv rt greet cl y \<Longrightarrow> sys_inv rt greet cl z"
  by (induction rule: sys_run.induct) (auto intro: sys_step_inv)


text \<open>The servers that \<open>init\<close> sets up have one listener each and no connection.\<close>

lemma init_servers_fresh:
  assumes "init_servers config smp sid = Some s"
  shows "server_inv s" "ss_next s = 0"
proof -
  obtain addr where s: "s = listen_default addr (set_handler True new_socket_server)"
    using assms by (auto simp: init_servers_def orchestrator_listen_options_def orchestrator_set_handler_def orchestrator_start_def
        invoke_on_all_def split: if_splits)
  have "server_inv (set_handler True new_socket_server)" using new_socket_server_inv by (simp add: set_handler_def server_inv_def)
  then show "server_inv s" using listen_inv by (simp add: s listen_default_def)
  show "ss_next s = 0"
    by (simp add: s listen_default_def listen_def do_accepts_def set_handler_def new_socket_server_def gate_enter_def Let_def)
qed

lemma system_start_inv:
  "sys_inv (init_runtime rt config) greet (start_services (init_runtime rt config) config ev) (system_start rt ev config)"
  using init_servers_fresh [of config "rt_smp rt"]
  by (auto simp: sys_inv_def system_start_def init_def Let_def trace_requests_def conn_trace_def new_conn_def)

text \<open>A run in which a client connects to shard 0 and its first command takes effect.\<close>

definition example_system :: system where
  "example_system = system_start example_runtime (dc_ev_config example_config) example_config"

lemma example_connects:
  "\<exists>y. sys_run rt False example_system y \<and> open_conn y (0, 0) \<and> sy_trace y = []
    \<and> sy_conns y (0, 0) = new_conn new_resp_proc (sy_cluster y) [stream example_commands]"
proof -
  obtain s where s: "sy_servers example_system 0 = Some s"
    "s = listen_default (''0.0.0.0:'' @ to_string (unat (dc_db_port example_config))) (set_handler True new_socket_server)"
    by (simp add: example_system_def system_start_def init_def Let_def init_servers_def orchestrator_listen_options_def
        orchestrator_set_handler_def orchestrator_start_def invoke_on_all_def example_runtime_def)
  note d = listen_default_def listen_def do_accepts_def accept_enter_def accept_leave_def do_accept_one_def make_connection_def
    on_new_connection_def on_conn_open_def gate_enter_def gate_leave_def set_loop_def set_handler_def new_socket_server_def
  let ?s1 = "accept_enter 0 s" and ?s2 = "accept_leave 0 Incoming (accept_enter 0 s)"
  define y1 where "y1 = example_system\<lparr>sy_servers := (sy_servers example_system)(0 := Some ?s1)\<rparr>"
  have "sys_step rt False example_system y1" unfolding y1_def by (rule y_enter [OF s(1)]) (simp_all add: s(2) d)
  then have r1: "sys_run rt False example_system y1" by (rule sys_next [OF sys_refl])
  define c2 where "c2 = process_start False True rt 0 (sy_cluster y1) [stream example_commands]"
  define y2 where "y2 = y1\<lparr>sy_servers := (sy_servers y1)(0 := Some ?s2), sy_conns := (sy_conns y1)((0, ss_next ?s1) := c2),
    sy_input := (sy_input y1)((0, ss_next ?s1) := [stream example_commands])\<rparr>"
  have "sys_step rt False y1 y2"
    unfolding y2_def c2_def by (rule y_accept [of y1 0 ?s1]) (simp_all add: y1_def s(2) d)
  then have r2: "sys_run rt False example_system y2" by (rule sys_next [OF r1])
  have n: "ss_next s = 0" "ss_connections ?s2 = [0]" by (simp_all add: s(2) d)
  have "open_conn y2 (0, 0)" "sy_conns y2 (0, 0) = new_conn new_resp_proc (sy_cluster y2) [stream example_commands]" "sy_trace y2 = []"
    by (simp_all add: y2_def open_conn_def n c2_def process_start_def)
      (simp add: y1_def example_system_def system_start_def init_def Let_def)
  then show ?thesis using r2 by blast
qed

text \<open>The read loop of an open connection takes the first request of its input.\<close>

lemma example_reads:
  assumes "open_conn y k" "sy_conns y k = new_conn new_resp_proc w [stream example_commands]"
  shows "\<exists>z c q. sys_run rt greet y z \<and> open_conn z k \<and> sy_trace z = sy_trace y \<and> sy_cluster z = sy_cluster y
    \<and> c = sy_conns z k \<and> cn_reader c = R_wait q \<and> 0 < cn_slots c"
proof -
  let ?c = "new_conn new_resp_proc w [stream example_commands]"
  have "sess new_resp_proc (stream example_commands) [] example_commands"
    using sess_append [of new_resp_proc "[]" "stream example_commands" "[]"] fresh_sess [OF example_stream(2,1)] by simp
  then obtain p b q where q: "try_extract_request new_resp_proc (stream example_commands) = (p, b, Request q)"
    by (cases rule: try_extract_sess) (auto simp: waiting_def example_commands_def)
  define c1 where "c1 = ?c\<lparr>cn_in := [], cn_buffer := cn_buffer ?c @ stream example_commands, cn_reader := R_extract\<rparr>"
  define c2 where "c2 = c1\<lparr>cn_proc := p, cn_buffer := b, cn_reader := R_wait q\<rparr>"
  define y1 where "y1 = y\<lparr>sy_conns := (sy_conns y)(k := c1)\<rparr>"
  have "conn_step resp_extract (resp_handle rt (fst k)) ?c c1"
    unfolding c1_def by (rule r_chunk) (simp_all add: new_conn_def example_stream(3))
  then have "sys_step rt greet y y1"
    unfolding y1_def by (intro y_silent assms(1)) (simp_all add: assms(2) c1_def)
  then have r: "sys_run rt greet y y1" by (rule sys_next [OF sys_refl])
  have k1: "open_conn y1 k" "sy_conns y1 k = c1" using assms(1) by (simp_all add: y1_def open_conn_def)
  have "conn_step resp_extract (resp_handle rt (fst k)) c1 c2"
    unfolding c2_def by (rule r_some) (simp_all add: c1_def new_conn_def resp_extract_def q)
  then have "sys_step rt greet y1 (y1\<lparr>sy_conns := (sy_conns y1)(k := c2)\<rparr>)"
    by (intro y_silent k1(1)) (simp_all add: k1(2) c2_def)
  from sys_next [OF r this] show ?thesis
    using k1(1) by (intro exI [of _ "y1\<lparr>sy_conns := (sy_conns y1)(k := c2)\<rparr>"] exI [of _ c2] exI [of _ q])
      (simp add: open_conn_def y1_def c2_def c1_def new_conn_def max_inflight_def)
qed

lemma sys_run_trans: "sys_run rt greet z u \<Longrightarrow> sys_run rt greet y z \<Longrightarrow> sys_run rt greet y u"
  by (induction rule: sys_run.induct) (auto intro: sys_next)

lemma example_system_run: "\<exists>y. sys_run rt False example_system y \<and> open_conn y (0, 0) \<and> length (sy_trace y) = 1"
proof -
  obtain y where y: "sys_run rt False example_system y" "open_conn y (0, 0)" "sy_trace y = []"
    "sy_conns y (0, 0) = new_conn new_resp_proc (sy_cluster y) [stream example_commands]"
    using example_connects [of rt] by blast
  obtain z c q where z: "sys_run rt False y z" "open_conn z (0, 0)" "sy_trace z = []" "c = sy_conns z (0, 0)" "cn_reader c = R_wait q" "0 < cn_slots c"
    using example_reads [OF y(2,4), of rt False] y(3) by auto
  obtain mo r cl where h: "resp_handle rt (fst (0 :: u32, 0 :: nat)) mo q (sy_cluster z) = (r, cl)" by fastforce
  show ?thesis
    by (rule exI, intro conjI, rule sys_next [OF sys_run_trans [OF z(1) y(1)] y_request [OF z(2,4-6) h]])
      (use z(2,3) in \<open>simp_all add: open_conn_def\<close>)
qed

lemma init_runtime_services: "start_services (init_runtime rt config) cfg ev = start_services rt cfg ev"
  by (simp add: start_services_def service_start_def init_runtime_def fun_eq_iff)

subsection \<open>Properties\<close>




end
