(* ===== verification/Coroutines.thy ===== *)
theory Coroutines
  imports Cache
begin

text \<open>
  The store of a shard with its suspension points. The operations of \<open>src/kv_store.cc\<close> are coroutines: at every
  \<open>co_await\<close> the event loop may run other operations of the same shard before this one goes on, even when the
  awaited future is ready. A call is a request and the frame in which its coroutine is suspended; \<open>resume\<close> runs it
  to the next \<open>co_await\<close>. Theory \<open>Store\<close> is the case in which nothing comes in between, as theory \<open>Calls\<close> shows.

  The lemmas show that the segments between two suspension points keep the invariant of the store, for the entries that the map
  and the suspended calls own; theories \<open>Interleaving\<close>, \<open>Calls\<close> and \<open>Schedules\<close> build on them.
\<close>

subsection \<open>Calls\<close>

datatype shard_request = SetReq sstring sstring | SetExReq sstring sstring u64 | GetReq sstring

text \<open>
  Where a call is suspended. \<open>Begin\<close>: in \<open>ensure_started\<close>. \<open>Reaping\<close>: at the yield in the loop of the reaper, with the
  number of evictions and the keys so far; \<open>Reap_releasing\<close>: at the yield of the callback that releases the keys, with its
  counter and the keys left; \<open>Reaped\<close>: after the reaper. These three carry the entry that the fallback path of
  \<open>do_prob_acquire\<close> has allocated already, and None on its threshold path. \<open>Acquired\<close>: SET has its entry. \<open>Evicting\<close>: at the
  yield of \<open>SievePolicy::evict\<close>; \<open>Evicted\<close>: after it, \<open>Releasing\<close>: at the yield of the loop that releases its victims.
  \<open>Finished\<close>: only the return is left.
\<close>

datatype frame =
    Begin
  | Reaping "addr option" nat "sstring list"
  | Reap_releasing "addr option" u32 "sstring list"
  | Reaped "addr option"
  | Acquired addr
  | Evicting u64 nat "sstring list"
  | Evicted "sstring list"
  | Releasing u32 "sstring list"
  | Finished store_ret

subsection \<open>From one suspension point to the next\<close>

definition release_victim :: "sstring \<Rightarrow> 'z store_state_scheme \<Rightarrow> 'z store_state_scheme" where
  "release_victim key s =
     (case map_extract key s of
        (None, s1) \<Rightarrow> s1
      | (Some a, s1) \<Rightarrow> record_eviction (release (Some a) s1))"

text \<open>The loop over victim keys up to its yield, which is every 1000 keys; None when the loop is over.\<close>

fun release_segment ::
  "u32 \<Rightarrow> sstring list \<Rightarrow> 'z store_state_scheme \<Rightarrow> (u32 \<times> sstring list) option \<times> 'z store_state_scheme" where
  "release_segment count [] s = (None, s)"
| "release_segment count (key # keys) s =
     (let s1 = release_victim key s; count1 = count + 1
      in if count1 mod 1000 = 0 then (Some (count1, keys), s1) else release_segment count1 keys s1)"

text \<open>One turn of the reaper's loop, with the hand at \<open>a\<close>.\<close>

definition reap_one :: "addr \<Rightarrow> 'z pool_state_scheme \<Rightarrow> 'z pool_state_scheme" where
  "reap_one a s =
     (let xs = probation_list s;
          next_it = (case next_in xs a of None \<Rightarrow> begin_it xs | Some b \<Rightarrow> Some b);
          s1 = raise_if (a \<notin> set xs) (check_live a s);
          ys = remove1 a xs
      in s1\<lparr>probation_list := ys, prob_count := prob_count s1 - 1,
            probation_hand := (if ys = [] then None else next_it)\<rparr>)"

text \<open>The reaper's loop up to its yield; the first component says whether it stopped there.\<close>

function reaper_segment ::
  "nat \<Rightarrow> nat \<Rightarrow> 'z pool_state_scheme \<Rightarrow> sstring list \<Rightarrow> bool \<times> nat \<times> 'z pool_state_scheme \<times> sstring list" where
  "reaper_segment budget evicted s victims =
     (if evicted < budget \<and> probation_list s \<noteq> [] then
        (case probation_hand s of
           None \<Rightarrow> (False, evicted, raise_if True s, victims)
         | Some a \<Rightarrow>
             (let victims1 = victims @ [e_key (heap s a)]; s1 = reap_one a s; evicted1 = Suc evicted
              in if evicted1 mod 1000 = 0 then (True, evicted1, s1, victims1)
                 else reaper_segment budget evicted1 s1 victims1))
      else (False, evicted, s, victims))"
  by pat_completeness auto
termination
  by (relation "measure (\<lambda>(budget, evicted, s, victims). budget - evicted)") auto

declare reaper_segment.simps [simp del]

definition reap_release ::
  "addr option \<Rightarrow> u32 \<Rightarrow> sstring list \<Rightarrow> 'z store_state_scheme \<Rightarrow> frame \<times> 'z store_state_scheme" where
  "reap_release got count keys s =
     (case release_segment count keys s of
        (None, s1) \<Rightarrow> (Reaped got, s1)
      | (Some (count1, keys1), s1) \<Rightarrow> (Reap_releasing got count1 keys1, s1))"

text \<open>\<open>run_sequential_reaper\<close> from its loop on, and from its start.\<close>

definition reap_run ::
  "addr option \<Rightarrow> nat \<Rightarrow> sstring list \<Rightarrow> 'z store_state_scheme \<Rightarrow> frame \<times> 'z store_state_scheme" where
  "reap_run got evicted victims s =
     (case reaper_segment (unat (reaper_budget s)) evicted s victims of
        (yielded, evicted1, s1, victims1) \<Rightarrow>
          if yielded then (Reaping got evicted1 victims1, s1)
          else
            let s2 = s1\<lparr>prob_eviction_count := prob_eviction_count s1 + of_nat evicted1\<rparr>
            in if victims1 \<noteq> [] then reap_release got 0 victims1 s2 else (Reaped got, s2))"

definition reap_start :: "addr option \<Rightarrow> 'z store_state_scheme \<Rightarrow> frame \<times> 'z store_state_scheme" where
  "reap_start got s =
     (if probation_list s = [] then (Reaped got, s)
      else reap_run got 0 [] (s\<lparr>probation_hand := begin_it (probation_list s)\<rparr>))"

text \<open>The end of \<open>do_prob_acquire\<close>: \<open>pool_.front()\<close> of an empty pool is undefined.\<close>

definition take_front :: "'z store_state_scheme \<Rightarrow> frame \<times> 'z store_state_scheme" where
  "take_front s =
     (case pool_free s of
        [] \<Rightarrow> (Finished (RSet False), raise_if True s)
      | a # rest \<Rightarrow>
          (let s1 = upd_entry a (\<lambda>e. e\<lparr>e_in_use := True, e_pool_type := Probation\<rparr>) (s\<lparr>pool_free := rest\<rparr>);
               s2 = s1\<lparr>prob_count := prob_count s1 + 1\<rparr>;
               s3 = raise_if (a \<in> set (probation_list s2)) s2
           in (Acquired a, s3\<lparr>probation_list := probation_list s3 @ [a]\<rparr>)))"

definition acquire_start :: "'z store_state_scheme \<Rightarrow> frame \<times> 'z store_state_scheme" where
  "acquire_start s =
     (if prob_pool_max_size s \<le> 0 then
        (case do_acquire s of (None, s1) \<Rightarrow> (Finished (RSet False), s1) | (Some a, s1) \<Rightarrow> (Acquired a, s1))
      else if pool_free s = [] then
        (let (a, s1) = make_entry s;
             s2 = upd_entry a (\<lambda>e. e\<lparr>e_in_use := True, e_pool_type := Probation\<rparr>) s1
         in reap_start (Some a) (s2\<lparr>prob_count := prob_count s2 + 1\<rparr>))
      else if prob_threshold s \<le> prob_count s then reap_start None s
      else take_front s)"

text \<open>
  The loop of \<open>SievePolicy::evict\<close> up to its yield, which is every 1000 victims, with the list split at the hand as in
  theory \<open>Sieve\<close>. The first component says whether it stopped there.
\<close>

fun evict_segment ::
  "u64 \<Rightarrow> nat \<Rightarrow> nat \<Rightarrow> 'z memory_scheme \<Rightarrow> addr list \<Rightarrow> addr list \<Rightarrow> sstring list
   \<Rightarrow> bool \<times> nat \<times> 'z memory_scheme \<times> addr list \<times> addr list \<times> sstring list" where
  "evict_segment now budget evicted s pre [] victims = (False, evicted, s, pre, [], victims)"
| "evict_segment now budget evicted s pre (cur # rest) victims =
     (if \<not> evicted < budget then (False, evicted, s, pre, cur # rest, victims)
      else
        let s = check_live cur s in
        if is_expired now (e_expires_at (heap s cur)) \<or> \<not> e_visited (heap s cur)
        then
          let victims = victims @ [e_key (heap s cur)]
          in if pre @ rest = [] then (False, evicted, s, pre, rest, victims)
             else if Suc evicted mod 1000 = 0 then (True, Suc evicted, s, pre, rest, victims)
             else evict_segment now budget (Suc evicted) s pre rest victims
        else evict_segment now budget evicted
               (upd_entry cur (\<lambda>e. e\<lparr>e_visited := False\<rparr>) s) (pre @ [cur]) rest victims)"

text \<open>\<open>evict\<close> from its loop on, and from its start.\<close>

definition evict_run ::
  "u64 \<Rightarrow> nat \<Rightarrow> sstring list \<Rightarrow> 'z store_state_scheme \<Rightarrow> frame \<times> 'z store_state_scheme" where
  "evict_run now evicted victims s =
     (let before = (\<lambda>x. Some x \<noteq> sieve_hand s);
          (yielded, evicted1, s1, pre, rest, victims1) =
            evict_segment now (unat (ec_budget (evictParams s))) evicted s
              (takeWhile before (sieveList s)) (dropWhile before (sieveList s)) victims;
          xs = pre @ rest
      in if yielded then
           (Evicting now evicted1 victims1, s1\<lparr>sieveList := xs, sieve_hand := begin_it rest\<rparr>)
         else
           (Evicted victims1,
            s1\<lparr>sieveList := xs,
               sieve_hand := (if xs = [] then None else if rest = [] then begin_it xs else begin_it rest)\<rparr>))"

definition evict_start :: "u64 \<Rightarrow> 'z store_state_scheme \<Rightarrow> frame \<times> 'z store_state_scheme" where
  "evict_start now s =
     (if sieveList s = [] then (Evicted [], s)
      else evict_run now 0 []
             (if sieve_hand s = None then s\<lparr>sieve_hand := begin_it (sieveList s)\<rparr> else s))"

definition check_start ::
  "(double \<Rightarrow> double) \<Rightarrow> u64 \<Rightarrow> 'z store_state_scheme \<Rightarrow> frame \<times> 'z store_state_scheme" where
  "check_start rnd now s =
     (if get_total_slots s = 0 then (Finished (RSet True), s)
      else if ec_trigger (evc_soft (ev_cfg s)) \<le> pool_usage_fraction rnd s then
        (let s1 = set_eviction_type soft (raise_if (\<not> sieve_policy s) s)
         in if \<not> sieve_policy s1 then (Finished (RSet True), s1) else evict_start now s1)
      else (Finished (RSet True), s))"

definition release_run ::
  "u32 \<Rightarrow> sstring list \<Rightarrow> 'z store_state_scheme \<Rightarrow> frame \<times> 'z store_state_scheme" where
  "release_run count keys s =
     (case release_segment count keys s of
        (None, s1) \<Rightarrow> (Finished (RSet True), s1)
      | (Some (count1, keys1), s1) \<Rightarrow> (Releasing count1 keys1, s1))"

text \<open>What SET does with its entry before it checks the memory; \<open>now\<close> is when \<open>set_with_ttl\<close> reads the clock for the deadline.\<close>

fun store_entry :: "shard_request \<Rightarrow> u64 \<Rightarrow> addr \<Rightarrow> 'z store_state_scheme \<Rightarrow> 'z store_state_scheme" where
  "store_entry (SetReq key v) now a s =
     emplace_or_update key a False (upd_entry a (\<lambda>e. e\<lparr>e_key := key, e_value := v\<rparr>) s)"
| "store_entry (SetExReq key v ttl) now a s =
     emplace_or_update key a True (upd_entry a (\<lambda>e. e\<lparr>e_key := key, e_value := v, e_expires_at := now + ttl\<rparr>) s)"
| "store_entry (GetReq key) now a s = s"

fun shard_op :: "shard_request \<Rightarrow> u64 \<Rightarrow> u64 \<Rightarrow> store_op" where
  "shard_op (SetReq key v) now now' = OpSet now' key v"
| "shard_op (SetExReq key v ttl) now now' = OpSetEx now now' key v ttl"
| "shard_op (GetReq key) now now' = OpGet now key"

text \<open>
  A call goes on; \<open>now\<close> and \<open>now'\<close> are what the calls of \<open>now_s()\<close> return. The second component is the operation and its
  result when this is the moment at which the call takes effect.
\<close>

fun resume ::
  "(double \<Rightarrow> double) \<Rightarrow> u64 \<Rightarrow> u64 \<Rightarrow> shard_request \<Rightarrow> frame \<Rightarrow> 'z store_state_scheme
   \<Rightarrow> frame \<times> store_ret option \<times> 'z store_state_scheme" where
  "resume rnd now now' q Begin s =
     (case q of
        GetReq key \<Rightarrow> (case store_get now key s of (r, s1) \<Rightarrow> (Finished (RGet r), Some (RGet r), s1))
      | _ \<Rightarrow> (case acquire_start (note_fallback s) of (f, s1) \<Rightarrow> (f, None, s1)))"
| "resume rnd now now' q (Reaping got evicted victims) s =
     (case reap_run got evicted victims s of (f, s1) \<Rightarrow> (f, None, s1))"
| "resume rnd now now' q (Reap_releasing got count keys) s =
     (case reap_release got count keys s of (f, s1) \<Rightarrow> (f, None, s1))"
| "resume rnd now now' q (Reaped got) s =
     (case got of
        Some a \<Rightarrow> (Acquired a, None, s)
      | None \<Rightarrow> (case take_front s of (f, s1) \<Rightarrow> (f, None, s1)))"
| "resume rnd now now' q (Acquired a) s =
     (case check_start rnd now' (store_entry q now a s) of (f, s1) \<Rightarrow> (f, Some (RSet True), s1))"
| "resume rnd now now' q (Evicting t evicted victims) s =
     (case evict_run t evicted victims s of (f, s1) \<Rightarrow> (f, None, s1))"
| "resume rnd now now' q (Evicted keys) s = (case release_run 0 keys s of (f, s1) \<Rightarrow> (f, None, s1))"
| "resume rnd now now' q (Releasing count keys) s = (case release_run count keys s of (f, s1) \<Rightarrow> (f, None, s1))"
| "resume rnd now now' q (Finished r) s = (Finished r, None, s)"

subsection \<open>A shard and its calls\<close>

text \<open>
  What happened, in order: a call starts, takes effect, returns. A run is driven by a schedule: start a call, let a suspended
  call go on, let a finished call return. A step that is not possible does nothing, and a fault, which is undefined
  behaviour, ends the run.
\<close>

datatype event = Called nat shard_request | Took nat store_op store_ret | Returned nat store_ret

record shard_calls =
  sh_store :: store_state
  sh_calls :: "nat \<rightharpoonup> shard_request \<times> frame"
  sh_next :: nat
  sh_events :: "event list"

datatype turn = Call shard_request | Resume nat u64 u64 | Return nat

fun take_turn :: "(double \<Rightarrow> double) \<Rightarrow> turn \<Rightarrow> shard_calls \<Rightarrow> shard_calls" where
  "take_turn rnd (Call q) x =
     (if fault (sh_store x) then x
      else x\<lparr>sh_calls := (sh_calls x)(sh_next x \<mapsto> (q, Begin)), sh_next := Suc (sh_next x),
             sh_events := sh_events x @ [Called (sh_next x) q]\<rparr>)"
| "take_turn rnd (Resume i now now') x =
     (if fault (sh_store x) then x
      else case sh_calls x i of
             None \<Rightarrow> x
           | Some (q, f) \<Rightarrow>
               (case resume rnd now now' q f (sh_store x) of
                  (f1, taken, s1) \<Rightarrow>
                    x\<lparr>sh_store := s1, sh_calls := (sh_calls x)(i \<mapsto> (q, f1)),
                      sh_events := sh_events x @
                        (case taken of None \<Rightarrow> [] | Some r \<Rightarrow> [Took i (shard_op q now now') r])\<rparr>))"
| "take_turn rnd (Return i) x =
     (if fault (sh_store x) then x
      else case sh_calls x i of
             Some (q, Finished r) \<Rightarrow>
               x\<lparr>sh_calls := (sh_calls x)(i := None), sh_events := sh_events x @ [Returned i r]\<rparr>
           | _ \<Rightarrow> x)"

definition run_turns :: "(double \<Rightarrow> double) \<Rightarrow> turn list \<Rightarrow> shard_calls \<Rightarrow> shard_calls" where
  "run_turns rnd ts x = fold (take_turn rnd) ts x"

definition idle_shard :: "store_state \<Rightarrow> shard_calls" where
  "idle_shard s = \<lparr>sh_store = s, sh_calls = Map.empty, sh_next = 0, sh_events = []\<rparr>"

subsection \<open>Segments of the loops\<close>

lemma release_victims_Cons: "release_victims (key # keys) s = release_victims keys (release_victim key s)"
  by (simp add: release_victim_def)

lemma release_segment_victims:
  "\<exists>n r. n \<le> length keys \<and> release_segment c keys s = (r, release_victims (take n keys) s)
     \<and> (case r of None \<Rightarrow> n = length keys | Some (c1, ks) \<Rightarrow> 0 < n \<and> ks = drop n keys)"
proof (induction keys arbitrary: c s)
  case (Cons key keys)
  show ?case
  proof (cases "(c + 1) mod 1000 = 0")
    case True
    then have "release_segment c (key # keys) s = (Some (c + 1, keys), release_victims (take 1 (key # keys)) s)"
      by (simp add: Let_def release_victim_def)
    then show ?thesis by (intro exI [of _ 1] exI [of _ "Some (c + 1, keys)"]) simp
  next
    case False
    from Cons.IH [of "c + 1" "release_victim key s"] obtain n r where
      n: "n \<le> length keys" "release_segment (c + 1) keys (release_victim key s) =
        (r, release_victims (take n keys) (release_victim key s))"
        "case r of None \<Rightarrow> n = length keys | Some (c1, ks) \<Rightarrow> 0 < n \<and> ks = drop n keys" by blast
    then have "release_segment c (key # keys) s = (r, release_victims (take (Suc n) (key # keys)) s)"
      using False by (simp only: release_segment.simps Let_def if_False release_victims_Cons take_Suc_Cons)
    then show ?thesis using n(1,3) by (intro exI [of _ "Suc n"] exI [of _ r]) (auto split: option.splits)
  qed
qed simp

text \<open>At the hand, a turn of the reaper's loop is the removal of an entry from the probation list.\<close>

lemma reap_one_remove:
  assumes "pool_inv own pend l s" "probation_hand s = Some a"
  shows "reap_one a s = remove_from_probation a s"
proof -
  have a: "a \<in> set (probation_list s)" using assms by (auto simp: pool_inv_def lists_inv_def hand_in_def)
  then have "a \<in> live s" using assms(1) pool_inv_own_live [OF assms(1), of a] by (auto simp: pool_inv_def lists_inv_def)
  moreover have "prob_count s = of_nat (length (probation_list s) + l)"
    using remove_from_probation_count(1) [OF assms(1) a] assms(1) by (simp add: pool_inv_def count_inv_def)
  then have "prob_count s \<noteq> 0"
    using of_nat_u64_zero [of "length (probation_list s) + l"] pool_inv_prob_bound [OF assms(1)] a
    by (cases "probation_list s") auto
  ultimately show ?thesis
    using a assms(2) by (simp add: reap_one_def remove_from_probation_def Let_def check_live_id word_neq_0_conv [symmetric])
qed

lemma reaper_segment_inv:
  assumes "pool_inv own pend l s" "reaper_segment b n s vs = (y, n1, t, vs1)"
  shows "fault t \<or> pool_inv own pend l t
    \<and> (\<exists>xs c h. t = s\<lparr>probation_list := xs, prob_count := c, probation_hand := h\<rparr>)"
  using assms
proof (induction b n s vs rule: reaper_segment.induct)
  case (1 b n s vs)
  show ?case
  proof (cases "n < b \<and> probation_list s \<noteq> []")
    case False
    then have "t = s" using "1.prems"(2) by (subst (asm) reaper_segment.simps) (auto split: if_splits)
    moreover have "s = s\<lparr>probation_list := probation_list s, prob_count := prob_count s, probation_hand := probation_hand s\<rparr>"
      by simp
    ultimately show ?thesis using "1.prems"(1) by blast
  next
    case True
    show ?thesis
    proof (cases "probation_hand s")
      case None
      then show ?thesis using True "1.prems"(2) by (subst (asm) reaper_segment.simps) auto
    next
      case (Some a)
      note r = reap_one_remove [OF "1.prems"(1) Some]
      have inv: "pool_inv own pend l (reap_one a s)" unfolding r by (rule remove_from_probation_inv [OF "1.prems"(1)])
      obtain xs c h where eq: "reap_one a s = s\<lparr>probation_list := xs, prob_count := c, probation_hand := h\<rparr>"
        using remove_from_probation_eq r by metis
      show ?thesis
      proof (cases "Suc n mod 1000 = 0")
        case yield: True
        then have "t = reap_one a s" using True Some "1.prems"(2) by (subst (asm) reaper_segment.simps) (auto simp: Let_def)
        then show ?thesis using inv eq by blast
      next
        case False
        then have "reaper_segment b (Suc n) (reap_one a s) (vs @ [e_key (heap s a)]) = (y, n1, t, vs1)"
          using True Some "1.prems"(2) by (subst (asm) reaper_segment.simps) (auto simp: Let_def)
        from "1.IH" [OF True Some refl refl refl False inv this] show ?thesis using eq by auto
      qed
    qed
  qed
qed

text \<open>A segment of \<open>evict\<close> unlinks some entries and clears the marks of others.\<close>

lemma evict_segment_unlinks:
  assumes "distinct (pre @ rest)" "set rest \<subseteq> live s"
    and "evict_segment now b n s pre rest vs = (y, n1, t, pre1, rest1, vs1)"
  shows "\<exists>V P. distinct V \<and> set V \<subseteq> set rest \<and> P \<subseteq> set rest \<and> t = s\<lparr>heap := clear_visited P (heap s)\<rparr>
    \<and> pre1 @ rest1 = filter (\<lambda>a. a \<notin> set V) (pre @ rest)"
  using assms
proof (induction rest arbitrary: n s pre vs)
  case Nil
  then show ?case by (intro exI [of _ "[]"] exI [of _ "{}"]) (simp add: clear_visited_def)
next
  case (Cons c rest)
  have lv: "check_live c s = s" using Cons.prems(2) by (simp add: check_live_id)
  have c: "c \<notin> set pre" "c \<notin> set rest" "filter (\<lambda>a. a \<noteq> c) pre = pre" "filter (\<lambda>a. a \<noteq> c) rest = rest"
    using Cons.prems(1) by (auto simp: filter_id_conv)
  consider (stop) "\<not> n < b" | (out) "n < b" "is_expired now (e_expires_at (heap s c)) \<or> \<not> e_visited (heap s c)"
    "pre @ rest = [] \<or> Suc n mod 1000 = 0"
    | (evict) "n < b" "is_expired now (e_expires_at (heap s c)) \<or> \<not> e_visited (heap s c)" "pre @ rest \<noteq> []" "Suc n mod 1000 \<noteq> 0"
    | (keep) "n < b" "\<not> (is_expired now (e_expires_at (heap s c)) \<or> \<not> e_visited (heap s c))" by blast
  then show ?case
  proof cases
    case stop
    then show ?thesis using Cons.prems(3) by (intro exI [of _ "[]"] exI [of _ "{}"]) (simp add: clear_visited_def)
  next
    case out
    then have "t = s" "pre1 = pre" "rest1 = rest"
      using Cons.prems(3) lv by (auto simp: Let_def split: if_splits)
    then show ?thesis using c by (intro exI [of _ "[c]"] exI [of _ "{}"]) (simp add: clear_visited_def)
  next
    case evict
    then have "evict_segment now b (Suc n) s pre rest (vs @ [e_key (heap s c)]) = (y, n1, t, pre1, rest1, vs1)"
      using Cons.prems(3) lv by (auto simp: Let_def split: if_splits)
    from Cons.IH [OF _ _ this] Cons.prems(1,2) obtain V P where
      V: "distinct V" "set V \<subseteq> set rest" "P \<subseteq> set rest" "t = s\<lparr>heap := clear_visited P (heap s)\<rparr>"
        "pre1 @ rest1 = filter (\<lambda>a. a \<notin> set V) (pre @ rest)" by auto
    have "filter (\<lambda>a. a \<notin> set (c # V)) (pre @ c # rest) = filter (\<lambda>a. a \<notin> set V) (pre @ rest)"
      using c by (auto intro!: arg_cong2 [where f = append] filter_cong)
    then show ?thesis using V c by (intro exI [of _ "c # V"] exI [of _ P]) auto
  next
    case keep
    let ?s = "upd_entry c (\<lambda>e. e\<lparr>e_visited := False\<rparr>) s"
    have s: "?s = s\<lparr>heap := (heap s)(c := (heap s c)\<lparr>e_visited := False\<rparr>)\<rparr>" using Cons.prems(2) by (simp add: upd_entry_live)
    from keep have "evict_segment now b n ?s (pre @ [c]) rest vs = (y, n1, t, pre1, rest1, vs1)"
      using Cons.prems(3) lv by (auto simp: Let_def split: if_splits)
    moreover have "distinct ((pre @ [c]) @ rest)" "set rest \<subseteq> live ?s" using Cons.prems(1,2) by (auto simp: s)
    ultimately obtain V P where
      V: "distinct V" "set V \<subseteq> set rest" "P \<subseteq> set rest" "t = ?s\<lparr>heap := clear_visited P (heap ?s)\<rparr>"
        "pre1 @ rest1 = filter (\<lambda>a. a \<notin> set V) ((pre @ [c]) @ rest)"
      using Cons.IH [of "pre @ [c]" ?s n vs] by blast
    have "clear_visited P (heap ?s) = clear_visited (insert c P) (heap s)" by (auto simp: clear_visited_def s)
    then have "t = s\<lparr>heap := clear_visited (insert c P) (heap s)\<rparr>" using V(4) by (simp add: s)
    then show ?thesis using V by (intro exI [of _ V] exI [of _ "insert c P"]) auto
  qed
qed

subsection \<open>Segments keep the store sound\<close>

text \<open>
  \<open>E\<close> are the entries that suspended calls hold: acquired, not yet in the map, without a deadline. Entries that the
  policy has unlinked may still be in the map, or even be held by a call, hence some \<open>pend\<close>.
\<close>

definition sound :: "addr set \<Rightarrow> 'z store_state_scheme \<Rightarrow> bool" where
  "sound E s \<longleftrightarrow> (\<exists>pend. kv_inv E pend s) \<and> (\<forall>a \<in> E. e_expires_at (heap s a) = 0)"

definition shrinks :: "'z store_state_scheme \<Rightarrow> 'z store_state_scheme \<Rightarrow> bool" where
  "shrinks s t \<longleftrightarrow> contents t \<subseteq>\<^sub>m contents s \<and> prob_pool_max_size t = prob_pool_max_size s \<and> next_addr t = next_addr s"

lemma shrinks_refl: "shrinks s s"
  by (simp add: shrinks_def)

lemma shrinks_trans: "shrinks s t \<Longrightarrow> shrinks t u \<Longrightarrow> shrinks s u"
  by (auto simp: shrinks_def intro: map_le_trans)

lemma soundI: "kv_inv E pend s \<Longrightarrow> (\<And>a. a \<in> E \<Longrightarrow> e_expires_at (heap s a) = 0) \<Longrightarrow> sound E s"
  by (auto simp: sound_def)

lemma soundE:
  assumes "sound E s"
  obtains pend where "kv_inv E pend s" "\<forall>a \<in> E. e_expires_at (heap s a) = 0"
  using assms by (auto simp: sound_def)

lemma held_not_in_map: "kv_inv E pend s \<Longrightarrow> a \<in> E \<Longrightarrow> a \<notin> ran (kvmap s)"
  by (auto simp: kv_inv_def)

lemma sound_release_victims:
  assumes "sound E s"
  shows "sound E (release_victims ks s)" "shrinks s (release_victims ks s)"
proof -
  obtain pend where k: "kv_inv E pend s" "\<forall>a \<in> E. e_expires_at (heap s a) = 0"
    using assms by (rule soundE)
  then have kd: "keyed s" by (simp add: kv_inv_def)
  show "sound E (release_victims ks s)"
    by (rule soundI [OF release_victims_inv [OF k(1)]])
      (simp add: release_victims_heap [OF held_not_in_map [OF k(1)]] k(2))
  show "shrinks s (release_victims ks s)"
    by (simp add: shrinks_def release_victims_contents [OF kd] restrict_le)
qed

text \<open>Steps that leave the map and the entries alone.\<close>

lemma sound_same:
  assumes "sound E s" "\<And>pend. pool_inv (E \<union> ran (kvmap s)) pend (leaks s) s \<Longrightarrow> pool_inv (E \<union> ran (kvmap s)) pend (leaks s) t"
    and "heap t = heap s" "kvmap t = kvmap s" "stats t = stats s" "sieve_policy t = sieve_policy s"
    and "prob_pool_max_size t = prob_pool_max_size s" "next_addr t = next_addr s"
  shows "sound E t" "shrinks s t"
proof -
  obtain pend where k: "kv_inv E pend s" "\<forall>a \<in> E. e_expires_at (heap s a) = 0"
    using assms(1) by (rule soundE)
  have "pool_inv (E \<union> ran (kvmap s)) pend (leaks s) t" using assms(2) k(1) by (simp add: kv_inv_def)
  from kv_inv_frame [OF k(1) this assms(4-7)] show "sound E t"
    using k(2) by (intro soundI) (simp_all add: assms(3))
  have "contents t = contents s" by (rule contents_cong) (simp_all add: assms(3,4))
  then show "shrinks s t" using assms by (simp add: shrinks_def)
qed

lemma sound_eviction_count:
  assumes "sound E s"
  shows "sound E (s\<lparr>prob_eviction_count := n\<rparr>)" "shrinks s (s\<lparr>prob_eviction_count := n\<rparr>)"
  by (rule sound_same [OF assms]; simp add: pool_inv_defs sieve_inv_def)+

lemma sound_reset_hand:
  assumes "sound E s"
  shows "sound E (s\<lparr>probation_hand := begin_it (probation_list s)\<rparr>)"
    "shrinks s (s\<lparr>probation_hand := begin_it (probation_list s)\<rparr>)"
  by (rule sound_same [OF assms]; auto simp: pool_inv_defs sieve_inv_def hand_in_def dest: begin_it_in)+

lemma sound_reaper_segment:
  assumes "sound E s" "reaper_segment b n s vs = (y, n1, t, vs1)" "\<not> fault t"
  shows "sound E t" "shrinks s t"
proof -
  obtain pend where k: "kv_inv E pend s" using assms(1) by (rule soundE)
  then have "pool_inv (E \<union> ran (kvmap s)) pend (leaks s) s" by (simp add: kv_inv_def)
  from reaper_segment_inv [OF this assms(2)] assms(3) obtain xs c h where
    eq: "t = s\<lparr>probation_list := xs, prob_count := c, probation_hand := h\<rparr>" by blast
  have "pool_inv (E \<union> ran (kvmap s)) pend (leaks s) t"
    if "pool_inv (E \<union> ran (kvmap s)) pend (leaks s) s" for pend
    using reaper_segment_inv [OF that assms(2)] assms(3) by blast
  from sound_same [OF assms(1) this] show "sound E t" "shrinks s t" by (simp_all add: eq)
qed

text \<open>The entry that a suspended call holds.\<close>

fun held :: "frame \<Rightarrow> addr set" where
  "held (Reaping got evicted victims) = set_option got"
| "held (Reap_releasing got count keys) = set_option got"
| "held (Reaped got) = set_option got"
| "held (Acquired a) = {a}"
| "held f = {}"

lemma sound_release_segment:
  assumes "sound E s" "release_segment c keys s = (r, t)"
  shows "sound E t" "shrinks s t"
  using release_segment_victims [of keys c s] sound_release_victims [OF assms(1)] assms(2) by auto

lemma sound_reap_release:
  assumes "sound E s" "reap_release got c keys s = (f, t)"
  shows "sound E t" "shrinks s t" "held f = set_option got"
  using assms(2) sound_release_segment [OF assms(1), of c keys]
  by (auto simp: reap_release_def split: prod.splits option.splits)

text \<open>A fault is never taken got.\<close>

lemma fault_release: "fault s \<Longrightarrow> fault (release p s)"
  by (simp add: release_def do_release_def do_prob_release_def Let_def return_or_destroy_def
      unlink_sanctuary_def on_erase_def destroy_entry_def upd_entry_def check_live_def raise_if_def
      remove_from_probation_def split: option.split)

lemma fault_release_victims: "fault s \<Longrightarrow> fault (release_victims ks s)"
  by (induction ks s rule: release_victims.induct)
    (simp_all add: map_extract_def record_eviction_def fault_release split: option.split)

lemma fault_reap_release: "fault s \<Longrightarrow> reap_release got c ks s = (f, t) \<Longrightarrow> fault t"
  using release_segment_victims [of ks c s] fault_release_victims [of s]
  by (auto simp: reap_release_def split: prod.splits option.splits)

lemma sound_reap_run:
  assumes "sound E s" "reap_run got n vs s = (f, t)" "\<not> fault t"
  shows "sound E t" "shrinks s t" "held f = set_option got"
proof -
  obtain y n1 s1 vs1 where seg: "reaper_segment (unat (reaper_budget s)) n s vs = (y, n1, s1, vs1)" by (metis prod_cases4)
  let ?s2 = "s1\<lparr>prob_eviction_count := prob_eviction_count s1 + of_nat n1\<rparr>"
  have f: "(if y then (Reaping got n1 vs1, s1) else if vs1 \<noteq> [] then reap_release got 0 vs1 ?s2 else (Reaped got, ?s2)) = (f, t)"
    using assms(2) seg by (cases y) (simp_all add: reap_run_def Let_def)
  then have nf: "\<not> fault s1" using assms(3) fault_reap_release [of ?s2 got 0 vs1 f t] by (auto split: if_splits)
  note s1 = sound_reaper_segment [OF assms(1) seg nf]
  note s2 = sound_eviction_count [OF s1(1), of "prob_eviction_count s1 + of_nat n1"]
  show "sound E t" "shrinks s t" "held f = set_option got"
    using f s1 s2 sound_reap_release [OF s2(1), of got 0 vs1 f t]
    by (auto split: if_splits intro: shrinks_trans)
qed

lemma sound_reap_start:
  assumes "sound E s" "reap_start got s = (f, t)" "\<not> fault t"
  shows "sound E t" "shrinks s t" "held f = set_option got"
proof -
  note h = sound_reset_hand [OF assms(1)]
  show "sound E t" "shrinks s t" "held f = set_option got"
    using assms(2) sound_reap_run [OF h(1) _ assms(3), of got 0 "[]" f] h(2) assms(1) shrinks_refl
    by (auto simp: reap_start_def split: if_splits intro: shrinks_trans)
qed

lemma fresh_expires [simp]: "e_expires_at fresh_probation = 0" "e_expires_at fresh_sanctuary = 0"
  by (simp_all add: fresh_probation_def fresh_sanctuary_def new_entry_def)

lemma sound_take_front:
  assumes "sound E s" "take_front s = (f, t)" "\<not> fault t" "prob_pool_max_size s \<noteq> 0"
  obtains a where "f = Acquired a" "a \<notin> E" "sound (insert a E) t" "shrinks s t"
proof (cases "pool_free s")
  case Nil
  then show ?thesis using assms(2,3) by (auto simp: take_front_def)
next
  case (Cons a rest)
  obtain pend where k: "kv_inv E pend s" "\<forall>a \<in> E. e_expires_at (heap s a) = 0"
    using assms(1) by (rule soundE)
  note m = prob_take_kv_inv [OF k(1) Cons assms(4)]
  let ?s1 = "upd_entry a (\<lambda>e. e\<lparr>e_in_use := True, e_pool_type := Probation\<rparr>) (s\<lparr>pool_free := rest\<rparr>)"
  have t: "f = Acquired a" "t = ?s1\<lparr>prob_count := prob_count ?s1 + 1, probation_list := probation_list ?s1 @ [a]\<rparr>"
    using assms(2) Cons m(4) by (simp_all add: take_front_def Let_def)
  have "heap t = (heap s)(a := fresh_probation)" unfolding t(2) by (rule m(3))
  then have "sound (insert a E) t" by (intro soundI [OF m(1) [folded t(2)]]) (use k(2) in auto)
  moreover have "shrinks s t" using m(2) [folded t(2)] by (simp add: shrinks_def) (simp add: t(2))
  ultimately show ?thesis using that t(1) m(5) by blast
qed

lemma acquire_start_fallback:
  assumes "sound E s" "Suc (next_addr s) < 2 ^ 63" "prob_pool_max_size s \<noteq> 0" "pool_free s = []"
    and "acquire_start (note_fallback s) = (f, t)" "\<not> fault t"
  shows "held f = {next_addr s}" "next_addr s \<notin> E" "sound (insert (next_addr s) E) t"
    "contents t \<subseteq>\<^sub>m contents s" "prob_pool_max_size t = prob_pool_max_size s" "next_addr t = Suc (next_addr s)"
proof -
  let ?s1 = "upd_entry (next_addr s) (\<lambda>e. e\<lparr>e_in_use := True, e_pool_type := Probation\<rparr>) (snd (make_entry (note_fallback s)))"
  define s2 where "s2 = ?s1\<lparr>prob_count := prob_count ?s1 + 1\<rparr>"
  obtain pend where k: "kv_inv E pend s" "\<forall>a \<in> E. e_expires_at (heap s a) = 0"
    using assms(1) by (rule soundE)
  note m = alloc_kv_inv [OF k(1) assms(2-4), folded s2_def]
  have "sound (insert (next_addr s) E) s2" by (intro soundI [OF m(1)]) (use k(2) m(3,4) in auto)
  moreover have "reap_start (Some (next_addr s)) s2 = (f, t)"
    using assms(3-5) by (simp add: acquire_start_def make_entry_def Let_def s2_def)
  moreover have "prob_pool_max_size s2 = prob_pool_max_size s" "next_addr s2 = Suc (next_addr s)"
    by (simp_all add: s2_def)
  ultimately show "held f = {next_addr s}" "next_addr s \<notin> E" "sound (insert (next_addr s) E) t"
    "contents t \<subseteq>\<^sub>m contents s" "prob_pool_max_size t = prob_pool_max_size s" "next_addr t = Suc (next_addr s)"
    using sound_reap_start [of "insert (next_addr s) E" s2 "Some (next_addr s)" f t] assms(6) m(2,4)
    by (simp_all add: shrinks_def)
qed

text \<open>
  A call takes entries from the pool: \<open>f\<close> holds what is new, and without a probation pool there is no fault.
\<close>

lemma sound_acquire_start:
  assumes "sound E s" "Suc (next_addr s) < 2 ^ 63" "acquire_start (note_fallback s) = (f, t)"
    and "\<not> fault t \<or> prob_pool_max_size s = 0"
  shows "sound (E \<union> held f) t" "held f \<inter> E = {}" "contents t \<subseteq>\<^sub>m contents s"
    "prob_pool_max_size t = prob_pool_max_size s" "next_addr t \<le> Suc (next_addr s)"
    "prob_pool_max_size s = 0 \<Longrightarrow> \<exists>a. f = Acquired a"
proof -
  obtain pend where k: "kv_inv E pend s" "\<forall>a \<in> E. e_expires_at (heap s a) = 0"
    using assms(1) by (rule soundE)
  consider (direct) "prob_pool_max_size s = 0" | (alloc) "prob_pool_max_size s \<noteq> 0" "pool_free s = []"
    | (pooled) "prob_pool_max_size s \<noteq> 0" "pool_free s \<noteq> []" by blast
  then have "sound (E \<union> held f) t \<and> held f \<inter> E = {} \<and> contents t \<subseteq>\<^sub>m contents s
    \<and> prob_pool_max_size t = prob_pool_max_size s \<and> next_addr t \<le> Suc (next_addr s)
    \<and> (prob_pool_max_size s = 0 \<longrightarrow> (\<exists>a. f = Acquired a))"
  proof cases
    case direct
    obtain a t' where a: "do_acquire (note_fallback s) = (Some a, t')" "a \<notin> E \<union> ran (kvmap s)"
        "kv_inv (insert a E) pend t'" "contents t' = contents s" "heap t' = (heap s)(a := fresh_sanctuary)"
      using do_acquire_kv_inv [OF k(1) assms(2) direct] by metis
    have ft: "f = Acquired a" "t = t'" using assms(3) direct a(1) by (simp_all add: acquire_start_def)
    have "sound (insert a E) t'" by (intro soundI [OF a(3)]) (use a(2,5) k(2) in auto)
    then show ?thesis using a ft do_acquire_frame(7,8) [OF a(1)] by simp
  next
    case alloc
    then show ?thesis using acquire_start_fallback [OF assms(1,2) alloc assms(3)] assms(4) by simp
  next
    case pooled
    then have n: "note_fallback s = s" by (simp add: note_fallback_def get_available_slots_def)
    show ?thesis
    proof (cases "prob_threshold s \<le> prob_count s")
      case True
      then have "reap_start None s = (f, t)" using assms(3) pooled n by (simp add: acquire_start_def)
      from sound_reap_start [OF assms(1) this] show ?thesis using assms(4) pooled by (simp add: shrinks_def)
    next
      case False
      then have "take_front s = (f, t)" using assms(3) pooled n by (simp add: acquire_start_def)
      moreover have "\<not> fault t" using assms(4) pooled by simp
      ultimately obtain a where "f = Acquired a" "a \<notin> E" "sound (insert a E) t" "shrinks s t"
        using sound_take_front [OF assms(1) _ _ pooled(1)] by metis
      then show ?thesis using pooled by (simp add: shrinks_def)
    qed
  qed
  then show "sound (E \<union> held f) t" "held f \<inter> E = {}" "contents t \<subseteq>\<^sub>m contents s"
    "prob_pool_max_size t = prob_pool_max_size s" "next_addr t \<le> Suc (next_addr s)"
    "prob_pool_max_size s = 0 \<Longrightarrow> \<exists>a. f = Acquired a" by blast+
qed

lemma sound_clear_visited:
  assumes "sound E s" "distinct V" "set V \<subseteq> set (sieveList s)" "A \<subseteq> set (sieveList s)"
    and "hand_in (filter (\<lambda>a. a \<notin> set V) (sieveList s)) h"
  defines "t \<equiv> s\<lparr>heap := clear_visited A (heap s), sieveList := filter (\<lambda>a. a \<notin> set V) (sieveList s), sieve_hand := h\<rparr>"
  shows "sound E t" "shrinks s t" "contents t = contents s"
proof -
  obtain pend where k: "kv_inv E pend s" "\<forall>a \<in> E. e_expires_at (heap s a) = 0"
    using assms(1) by (rule soundE)
  then have "pool_inv (E \<union> ran (kvmap s)) (V @ pend) (leaks s) t"
    unfolding t_def by (intro unlink_pend_inv assms) (simp add: kv_inv_def)
  from kv_inv_frame [OF k(1) this] have "kv_inv E (V @ pend) t" by (simp add: t_def clear_visited_def)
  then show "sound E t" by (rule soundI) (use k(2) in \<open>simp add: t_def clear_visited_def\<close>)
  show "contents t = contents s"
    by (simp add: t_def contents_def fun_eq_iff clear_visited_def if_distrib cong: if_cong)
  then show "shrinks s t" by (simp add: shrinks_def) (simp add: t_def)
qed

lemma sound_evict_run:
  assumes "sound E s" "evict_run now n vs s = (f, t)"
  shows "sound E t" "shrinks s t" "contents t = contents s" "held f = {}"
proof -
  let ?before = "\<lambda>x. Some x \<noteq> sieve_hand s"
  let ?pre = "takeWhile ?before (sieveList s)" and ?rest = "dropWhile ?before (sieveList s)"
  obtain y n1 s1 pre1 rest1 vs1 where
    seg: "evict_segment now (unat (ec_budget (evictParams s))) n s ?pre ?rest vs = (y, n1, s1, pre1, rest1, vs1)"
    by (metis prod_cases6)
  obtain pend where "kv_inv E pend s" using assms(1) by (rule soundE)
  then have "pool_inv (E \<union> ran (kvmap s)) pend (leaks s) s" by (simp add: kv_inv_def)
  note p = pool_inv_sieve [OF this]
  have d: "distinct (?pre @ ?rest)" "set ?rest \<subseteq> live s"
    using p by (auto simp: sieve_inv_def hand_in_def dest: set_dropWhileD)
  from evict_segment_unlinks [OF d seg] obtain V P where
    V: "distinct V" "set V \<subseteq> set (sieveList s)" "P \<subseteq> set (sieveList s)" "s1 = s\<lparr>heap := clear_visited P (heap s)\<rparr>"
      "pre1 @ rest1 = filter (\<lambda>a. a \<notin> set V) (sieveList s)"
    by (metis takeWhile_dropWhile_id set_dropWhileD subsetI subset_trans)
  define h where "h = (if y then begin_it rest1 else if pre1 @ rest1 = [] then None
    else if rest1 = [] then begin_it (pre1 @ rest1) else begin_it rest1)"
  have "distinct (pre1 @ rest1)" using d(1) V(5) by simp
  then have "hand_in (pre1 @ rest1) h"
    by (auto simp: hand_in_def h_def dest!: begin_it_in split: if_splits)
  then have h: "hand_in (filter (\<lambda>a. a \<notin> set V) (sieveList s)) h" by (simp add: V(5))
  have run: "evict_run now n vs s = (if y then Evicting now n1 vs1 else Evicted vs1,
      s1\<lparr>sieveList := pre1 @ rest1, sieve_hand := h\<rparr>)"
    unfolding evict_run_def Let_def seg prod.case h_def by (cases y) simp_all
  then have t: "f = (if y then Evicting now n1 vs1 else Evicted vs1)" "t = s\<lparr>heap := clear_visited P (heap s),
      sieveList := filter (\<lambda>a. a \<notin> set V) (sieveList s), sieve_hand := h\<rparr>"
    using assms(2) unfolding V(4,5) by simp_all
  show "sound E t" "shrinks s t" "contents t = contents s" "held f = {}"
    unfolding t using sound_clear_visited [OF assms(1) V(1-3) h] by simp_all
qed

lemma sound_start_hand:
  assumes "sound E s" "sieveList s \<noteq> []"
  shows "sound E (s\<lparr>sieve_hand := begin_it (sieveList s)\<rparr>)" "shrinks s (s\<lparr>sieve_hand := begin_it (sieveList s)\<rparr>)"
    "contents (s\<lparr>sieve_hand := begin_it (sieveList s)\<rparr>) = contents s"
  by (rule sound_same [OF assms(1)]; auto simp: pool_inv_defs sieve_inv_def hand_in_def dest: begin_it_in)+
    (simp add: contents_def fun_eq_iff)

lemma sound_evict_start:
  assumes "sound E s" "evict_start now s = (f, t)"
  shows "sound E t" "shrinks s t" "contents t = contents s" "held f = {}"
proof -
  have "sound E t \<and> shrinks s t \<and> contents t = contents s \<and> held f = {}"
  proof (cases "sieveList s = []")
    case True
    then show ?thesis using assms by (auto simp: evict_start_def shrinks_refl)
  next
    case False
    note h = sound_start_hand [OF assms(1) False]
    show ?thesis
    proof (cases "sieve_hand s")
      case None
      then have "evict_run now 0 [] (s\<lparr>sieve_hand := begin_it (sieveList s)\<rparr>) = (f, t)"
        using assms(2) False by (simp add: evict_start_def)
      from sound_evict_run [OF h(1) this] h(2,3) show ?thesis by (auto intro: shrinks_trans)
    next
      case (Some a)
      then have "evict_run now 0 [] s = (f, t)" using assms(2) False by (simp add: evict_start_def)
      from sound_evict_run [OF assms(1) this] show ?thesis by blast
    qed
  qed
  then show "sound E t" "shrinks s t" "contents t = contents s" "held f = {}" by blast+
qed

lemma sound_check_start:
  assumes "sound E s" "check_start rnd now s = (f, t)"
  shows "sound E t" "shrinks s t" "contents t = contents s" "held f = {}"
proof -
  have "sieve_policy s" using assms(1) by (auto simp: sound_def kv_inv_def)
  then have c: "check_start rnd now s = (if get_total_slots s = 0 \<or> \<not> ec_trigger (evc_soft (ev_cfg s)) \<le> pool_usage_fraction rnd s
      then (Finished (RSet True), s) else evict_start now (set_eviction_type soft s))"
    by (simp add: check_start_def)
  consider (fine) "f = Finished (RSet True)" "t = s" | (evict) "evict_start now (set_eviction_type soft s) = (f, t)"
    using assms(2) unfolding c by (metis prod.inject)
  then have "sound E t \<and> shrinks s t \<and> contents t = contents s \<and> held f = {}"
  proof cases
    case fine
    then show ?thesis using assms(1) shrinks_refl by simp
  next
    case evict
    have "sound E (set_eviction_type soft s)" using assms(1) by (simp add: sound_def)
    note e = sound_evict_start [OF this evict]
    have "contents (set_eviction_type soft s) = contents s" by (simp add: contents_def fun_eq_iff)
    then show ?thesis using e by (simp add: shrinks_def)
  qed
  then show "sound E t" "shrinks s t" "contents t = contents s" "held f = {}" by blast+
qed

lemma sound_release_run:
  assumes "sound E s" "release_run c keys s = (f, t)"
  shows "sound E t" "shrinks s t" "held f = {}"
  using assms(2) sound_release_segment [OF assms(1), of c keys]
  by (auto simp: release_run_def split: prod.splits option.splits)

end
