(* ===== verification/Interleaving.thy ===== *)
theory Interleaving
  imports Coroutines
begin

text \<open>
  What any interleaving of the calls of theory \<open>Coroutines\<close> does to a shard: every resumption keeps the invariant of the store for
  the entries that suspended calls hold, a call takes effect at one of its resumptions, and the events of a run are a history of a
  cache.
\<close>

subsection \<open>Taking effect\<close>

lemma heap_promote_other: "b \<noteq> a \<Longrightarrow> heap (promote_to_sanctuary a s) b = heap s b"
  by (simp add: promote_to_sanctuary_def Let_def on_insert_def)

lemma heap_emplace_other:
  "b \<noteq> a \<Longrightarrow> b \<notin> ran (kvmap s) \<Longrightarrow> heap (emplace_or_update key a u s) b = heap s b"
proof (cases "kvmap s key")
  case (Some c)
  moreover assume "b \<noteq> a" "b \<notin> ran (kvmap s)"
  moreover have "b \<noteq> c" using ranI [of "kvmap s", OF Some] \<open>b \<notin> ran (kvmap s)\<close> by blast
  ultimately show ?thesis by (simp add: emplace_or_update_def try_emplace_def Let_def heap_promote_other)
qed (simp add: emplace_or_update_def try_emplace_def)

text \<open>SET with a filled-in entry, in either form.\<close>

lemma sound_emplace:
  fixes u :: bool
  assumes "sound E s" "a \<in> E" "fills key v f"
  defines "t \<equiv> emplace_or_update key a u (upd_entry a f s)"
  shows "sound (E - {a}) t" "contents t = (contents s)(key \<mapsto> set_value u v (contents s key))"
    "prob_pool_max_size t = prob_pool_max_size s" "next_addr t = next_addr s"
proof -
  obtain pend where k: "kv_inv E pend s" "\<forall>a \<in> E. e_expires_at (heap s a) = 0"
    using assms(1) by (rule soundE)
  note na = held_not_in_map [OF k(1)]
  note f = assms(3) [unfolded fills_def]
  have i: "kv_inv E pend (upd_entry a f s)"
    using assms(2) f na [OF assms(2)] by (intro kv_inv_upd_entry [OF k(1)]) simp_all
  have e: "e_key (heap (upd_entry a f s) a) = key" using f by simp
  have v: "(e_value (heap (upd_entry a f s) a), e_expires_at (heap (upd_entry a f s) a)) = v"
    using f k(2) assms(2) by (simp add: prod_eq_iff)
  have c: "contents (upd_entry a f s) = contents s" using na [OF assms(2)] by (intro contents_cong) auto
  note m = emplace_kv_inv [OF i assms(2) e, of u, folded t_def, unfolded v c]
  have h: "heap t b = heap s b" if "b \<in> E - {a}" for b
    using that na [of b] by (simp add: t_def heap_emplace_other)
  show "sound (E - {a}) t" by (rule soundI [OF m(1)]) (use h k(2) in simp)
  show "contents t = (contents s)(key \<mapsto> set_value u v (contents s key))" by (rule m(2))
  show "prob_pool_max_size t = prob_pool_max_size s" "next_addr t = next_addr s" by (simp_all add: t_def)
qed

lemma sound_store_entry:
  fixes now :: u64
  assumes "sound E s" "a \<in> E" "\<And>key. q \<noteq> GetReq key"
  defines "t \<equiv> store_entry q now a s"
  shows "sound (E - {a}) t" "cache_step (shard_op q now now') (RSet True) (contents s) (contents t)"
    "prob_pool_max_size t = prob_pool_max_size s" "next_addr t = next_addr s"
proof -
  have "sound (E - {a}) t \<and> cache_step (shard_op q now now') (RSet True) (contents s) (contents t)
    \<and> prob_pool_max_size t = prob_pool_max_size s \<and> next_addr t = next_addr s"
  proof (cases q)
    case (SetReq key v)
    note m = sound_emplace [OF assms(1,2) fills_set [of key v], of False]
    show ?thesis using m step_set [OF map_le_refl map_le_refl] by (simp add: t_def SetReq)
  next
    case (SetExReq key v ttl)
    note m = sound_emplace [OF assms(1,2) fills_set_with_ttl [of key v now ttl], of True]
    show ?thesis using m step_set_ex [OF map_le_refl map_le_refl] by (simp add: t_def SetExReq)
  qed (use assms(3) in simp)
  then show "sound (E - {a}) t" "cache_step (shard_op q now now') (RSet True) (contents s) (contents t)"
    "prob_pool_max_size t = prob_pool_max_size s" "next_addr t = next_addr s" by blast+
qed

text \<open>The frames that a call can have; without a probation pool the reaper does not run.\<close>

fun fits :: "nat \<Rightarrow> shard_request \<Rightarrow> frame \<Rightarrow> bool" where
  "fits p q Begin \<longleftrightarrow> True"
| "fits p q (Finished r) \<longleftrightarrow> True"
| "fits p (GetReq key) f \<longleftrightarrow> False"
| "fits p q (Reaping got evicted victims) \<longleftrightarrow> p \<noteq> 0"
| "fits p q (Reap_releasing got count keys) \<longleftrightarrow> p \<noteq> 0"
| "fits p q (Reaped got) \<longleftrightarrow> p \<noteq> 0"
| "fits p q f \<longleftrightarrow> True"

lemma sound_get:
  assumes "sound E s" "store_get now key s = (r, t)"
  shows "sound E t" "cache_step (OpGet now key) (RGet r) (contents s) (contents t)"
    "prob_pool_max_size t = prob_pool_max_size s" "next_addr t = next_addr s"
proof -
  obtain pend where k: "kv_inv E pend s" "\<forall>a \<in> E. e_expires_at (heap s a) = 0"
    using assms(1) by (rule soundE)
  obtain pend' where g: "kv_inv E pend' t" "r = cache_lookup now key (contents s)"
      "contents t = cache_expire now key (contents s)" "next_addr t = next_addr s"
    using store_get_kv_inv [OF k(1), of now key] assms(2) by auto
  have f: "prob_pool_max_size t = prob_pool_max_size s \<and> (\<forall>b \<in> E. heap t b = heap s b)"
  proof (cases "kvmap s key")
    case None
    then show ?thesis using assms(2) by (simp add: store_get_miss)
  next
    case (Some a)
    have "a \<notin> E" using held_not_in_map [OF k(1)] ranI [of "kvmap s", OF Some] by blast
    then show ?thesis using assms(2) unfolding store_get_live [OF k(1) Some]
      by (auto simp: heap_promote_other on_hit_def on_erase_def Let_def split: if_splits)
  qed
  show "sound E t" by (rule soundI [OF g(1)]) (use f k(2) in simp)
  show "cache_step (OpGet now key) (RGet r) (contents s) (contents t)" unfolding g(2,3) by (rule step_get)
  show "prob_pool_max_size t = prob_pool_max_size s" "next_addr t = next_addr s" using f g(4) by simp_all
qed

text \<open>Where the parts of a SET leave it.\<close>

lemma fits_set:
  assumes "\<And>key. q \<noteq> GetReq key"
  shows "fits p q (Reaping got n vs) \<longleftrightarrow> p \<noteq> 0" "fits p q (Reap_releasing got c ks) \<longleftrightarrow> p \<noteq> 0"
    "fits p q (Reaped got) \<longleftrightarrow> p \<noteq> 0" "fits p q (Acquired a)" "fits p q (Evicting now n vs)"
    "fits p q (Evicted vs)" "fits p q (Releasing c ks)"
  using assms by (cases q; simp)+

lemma fits_reap_release:
  "(\<And>key. q \<noteq> GetReq key) \<Longrightarrow> p \<noteq> 0 \<Longrightarrow> fits p q (fst (reap_release got c keys s))"
  by (simp add: reap_release_def fits_set split: prod.split option.split)

lemma fits_reap_run:
  "(\<And>key. q \<noteq> GetReq key) \<Longrightarrow> p \<noteq> 0 \<Longrightarrow> fits p q (fst (reap_run got n vs s))"
  by (simp add: reap_run_def Let_def fits_set fits_reap_release split: prod.split)

lemma fits_reap_start:
  "(\<And>key. q \<noteq> GetReq key) \<Longrightarrow> p \<noteq> 0 \<Longrightarrow> fits p q (fst (reap_start got s))"
  by (simp add: reap_start_def fits_set fits_reap_run)

lemma fits_take_front: "(\<And>key. q \<noteq> GetReq key) \<Longrightarrow> fits p q (fst (take_front s))"
  by (simp add: take_front_def Let_def fits_set split: list.split)

lemma fits_acquire_start:
  "(\<And>key. q \<noteq> GetReq key) \<Longrightarrow> fits (prob_pool_max_size s) q (fst (acquire_start s))"
  by (simp add: acquire_start_def Let_def fits_set fits_reap_start fits_take_front split: prod.split option.split)

lemma fits_evict_run: "(\<And>key. q \<noteq> GetReq key) \<Longrightarrow> fits p q (fst (evict_run now n vs s))"
  by (simp add: evict_run_def Let_def fits_set split: prod.split)

lemma fits_check_start: "(\<And>key. q \<noteq> GetReq key) \<Longrightarrow> fits p q (fst (check_start rnd now s))"
  by (simp add: check_start_def evict_start_def Let_def fits_set fits_evict_run)

lemma fits_release_run: "(\<And>key. q \<noteq> GetReq key) \<Longrightarrow> fits p q (fst (release_run c keys s))"
  by (simp add: release_run_def fits_set split: prod.split option.split)

subsection \<open>One resumption\<close>

text \<open>\<open>moves\<close>: from frame \<open>f\<close> to frame \<open>f1\<close>, when the calls together hold \<open>E\<close> before.\<close>

definition moves :: "addr set \<Rightarrow> frame \<Rightarrow> 'z store_state_scheme \<Rightarrow> frame \<Rightarrow> 'z store_state_scheme \<Rightarrow> bool" where
  "moves E f s f1 t \<longleftrightarrow> sound (E - held f \<union> held f1) t \<and> held f1 \<inter> (E - held f) = {}
     \<and> prob_pool_max_size t = prob_pool_max_size s \<and> next_addr t \<le> Suc (next_addr s)"

lemma moves_keep:
  assumes "sound E t" "shrinks s t" "held f1 = held f" "held f \<subseteq> E"
  shows "moves E f s f1 t" "contents t \<subseteq>\<^sub>m contents s"
proof -
  have "E - held f \<union> held f1 = E" using assms(3,4) by auto
  then show "moves E f s f1 t" "contents t \<subseteq>\<^sub>m contents s"
    using assms by (auto simp: moves_def shrinks_def)
qed

lemma resume_begin_set:
  assumes "sound E s" "Suc (next_addr s) < 2 ^ 63" "\<And>key. q \<noteq> GetReq key"
    and "resume rnd now now' q Begin s = (f1, taken, t)" "\<not> fault t \<or> prob_pool_max_size s = 0"
  shows "moves E Begin s f1 t" "fits (prob_pool_max_size s) q f1" "taken = None" "contents t \<subseteq>\<^sub>m contents s"
proof -
  have r: "acquire_start (note_fallback s) = (f1, t)" "taken = None"
    using assms(3,4) by (cases q; auto split: prod.splits)+
  show "moves E Begin s f1 t" "contents t \<subseteq>\<^sub>m contents s"
    using sound_acquire_start [OF assms(1,2) r(1) assms(5)] by (simp_all add: moves_def)
  show "fits (prob_pool_max_size s) q f1"
    using fits_acquire_start [of q "note_fallback s"] assms(3) r(1) by simp
  show "taken = None" by (rule r(2))
qed

lemma resume_acquired:
  assumes "sound E s" "a \<in> E" "\<And>key. q \<noteq> GetReq key"
    and "resume rnd now now' q (Acquired a) s = (f1, taken, t)"
  shows "moves E (Acquired a) s f1 t" "fits p q f1" "taken = Some (RSet True)"
    "cache_step (shard_op q now now') (RSet True) (contents s) (contents t)"
proof -
  have r: "check_start rnd now' (store_entry q now a s) = (f1, t)" "taken = Some (RSet True)"
    using assms(4) by (auto split: prod.splits)
  note e = sound_store_entry [OF assms(1-3), of now]
  note c = sound_check_start [OF e(1) r(1)]
  show "moves E (Acquired a) s f1 t" using c e(3,4) by (simp add: moves_def shrinks_def)
  show "fits p q f1" using fits_check_start [of q p rnd now' "store_entry q now a s"] assms(3) r(1) by simp
  show "taken = Some (RSet True)" by (rule r(2))
  show "cache_step (shard_op q now now') (RSet True) (contents s) (contents t)"
    unfolding c(3) by (rule e(2))
qed

lemma resume_quiet:
  assumes "sound E s" "held f \<subseteq> E" "\<And>key. q \<noteq> GetReq key" "fits (prob_pool_max_size s) q f"
    and "\<not> fault t \<or> prob_pool_max_size s = 0"
    and "(\<exists>got n vs. f = Reaping got n vs \<and> reap_run got n vs s = (f1, t))
      \<or> (\<exists>got c ks. f = Reap_releasing got c ks \<and> reap_release got c ks s = (f1, t))
      \<or> (\<exists>now n vs. f = Evicting now n vs \<and> evict_run now n vs s = (f1, t))
      \<or> (\<exists>c ks. (f = Evicted ks \<or> f = Releasing c ks) \<and> release_run c ks s = (f1, t))"
  shows "moves E f s f1 t \<and> fits (prob_pool_max_size s) q f1 \<and> contents t \<subseteq>\<^sub>m contents s"
proof -
  let ?p = "prob_pool_max_size s"
  consider (reap) got n vs where "f = Reaping got n vs" "reap_run got n vs s = (f1, t)"
    | (rel) got c ks where "f = Reap_releasing got c ks" "reap_release got c ks s = (f1, t)"
    | (ev) now n vs where "f = Evicting now n vs" "evict_run now n vs s = (f1, t)"
    | (out) c ks where "f = Evicted ks \<or> f = Releasing c ks" "release_run c ks s = (f1, t)"
    using assms(6) by blast
  then show ?thesis
  proof cases
    case reap
    have p: "?p \<noteq> 0" using assms(3,4) reap(1) fits_set(1) by metis
    then have "\<not> fault t" using assms(5) by simp
    note r = sound_reap_run [OF assms(1) reap(2) this]
    have "held f1 = held f" using r(3) reap(1) by simp
    from moves_keep [OF r(1,2) this assms(2)] show ?thesis
      using fits_reap_run [of q ?p got n vs s] assms(3) p reap(2) by simp
  next
    case rel
    have p: "?p \<noteq> 0" using assms(3,4) rel(1) fits_set(2) by metis
    note r = sound_reap_release [OF assms(1) rel(2)]
    have "held f1 = held f" using r(3) rel(1) by simp
    from moves_keep [OF r(1,2) this assms(2)] show ?thesis
      using fits_reap_release [of q ?p got c ks s] assms(3) p rel(2) by simp
  next
    case ev
    note r = sound_evict_run [OF assms(1) ev(2)]
    have "held f1 = held f" using r(4) ev(1) by simp
    from moves_keep [OF r(1,2) this assms(2)] show ?thesis
      using fits_evict_run [of q ?p now n vs s] assms(3) ev(2) by simp
  next
    case out
    note r = sound_release_run [OF assms(1) out(2)]
    have "held f1 = held f" using r(3) out(1) by auto
    from moves_keep [OF r(1,2) this assms(2)] show ?thesis
      using fits_release_run [of q ?p c ks s] assms(3) out(2) by simp
  qed
qed

lemma resume_reaped:
  assumes "sound E s" "held (Reaped got) \<subseteq> E" "\<And>key. q \<noteq> GetReq key" "fits (prob_pool_max_size s) q (Reaped got)"
    and "resume rnd now now' q (Reaped got) s = (f1, taken, t)" "\<not> fault t \<or> prob_pool_max_size s = 0"
  shows "moves E (Reaped got) s f1 t \<and> fits (prob_pool_max_size s) q f1 \<and> taken = None \<and> contents t \<subseteq>\<^sub>m contents s"
proof (cases got)
  case None
  have p: "prob_pool_max_size s \<noteq> 0" using assms(3,4) fits_set(3) by metis
  have r: "take_front s = (f1, t)" "taken = None" using assms(5) None by (auto split: prod.splits)
  obtain a where "f1 = Acquired a" "a \<notin> E" "sound (insert a E) t" "shrinks s t"
    using sound_take_front [OF assms(1) r(1) _ p] assms(6) p by blast
  then show ?thesis using None r(2) fits_set(4) [OF assms(3)] by (simp add: moves_def shrinks_def)
next
  case (Some a)
  then have "f1 = Acquired a" "taken = None" "t = s" using assms(5) by simp_all
  then show ?thesis using Some assms(1,2) moves_keep [OF assms(1) shrinks_refl, of f1 "Reaped got"] fits_set(4) [OF assms(3)]
    by simp
qed

lemma resume_sound:
  assumes "sound E s" "held f \<subseteq> E" "Suc (next_addr s) < 2 ^ 63" "fits (prob_pool_max_size s) q f"
    and "resume rnd now now' q f s = (f1, taken, t)" "\<not> fault t \<or> prob_pool_max_size s = 0"
  shows "moves E f s f1 t \<and> fits (prob_pool_max_size s) q f1
    \<and> (case taken of None \<Rightarrow> contents t \<subseteq>\<^sub>m contents s
        | Some r \<Rightarrow> cache_step (shard_op q now now') r (contents s) (contents t))"
proof (cases "\<exists>key. q = GetReq key")
  case True
  then obtain key where q: "q = GetReq key" ..
  then consider "f = Begin" | r where "f = Finished r" using assms(4) by (cases f) auto
  then show ?thesis
  proof cases
    case 1
    then obtain r where r: "store_get now key s = (r, t)" "f1 = Finished (RGet r)" "taken = Some (RGet r)"
      using assms(5) q by (auto split: prod.splits)
    from sound_get [OF assms(1) r(1)] show ?thesis by (simp add: moves_def 1 r q)
  next
    case 2
    then show ?thesis using assms(1,5) by (auto simp: moves_def)
  qed
next
  case False
  then have q: "q \<noteq> GetReq key" for key by blast
  show ?thesis
  proof (cases f)
    case Begin
    note b = resume_begin_set [OF assms(1,3) q assms(5) [unfolded Begin] assms(6)]
    show ?thesis using b unfolding Begin by simp
  next
    case (Reaped got)
    note b = resume_reaped [OF assms(1) assms(2) [unfolded Reaped] q assms(4) [unfolded Reaped] assms(5) [unfolded Reaped] assms(6)]
    show ?thesis using b unfolding Reaped by simp
  next
    case (Acquired a)
    then show ?thesis using resume_acquired [OF assms(1) _ q, of a rnd now now' f1 taken t] assms(2,5) by auto
  next
    case (Finished r)
    then show ?thesis using assms(1,5) by (auto simp: moves_def)
  qed (use resume_quiet [OF assms(1,2) q assms(4,6), of f1] assms(5) in \<open>auto split: prod.splits\<close>)
qed

text \<open>The frames of a SET that has taken effect, and the answer that a call in such a frame will give.\<close>

fun effective :: "frame \<Rightarrow> bool" where
  "effective (Evicting t evicted victims) \<longleftrightarrow> True"
| "effective (Evicted keys) \<longleftrightarrow> True"
| "effective (Releasing count keys) \<longleftrightarrow> True"
| "effective (Finished r) \<longleftrightarrow> True"
| "effective f \<longleftrightarrow> False"

fun answer :: "frame \<Rightarrow> store_ret" where
  "answer (Finished r) = r"
| "answer f = RSet True"

lemma effective_reap: "\<not> effective (fst (reap_release got c keys s))" "\<not> effective (fst (reap_run got n vs s))"
  "\<not> effective (fst (reap_start got s))"
proof -
  show r: "\<not> effective (fst (reap_release got c keys s))" for c keys and s :: "'a store_state_scheme"
    by (simp add: reap_release_def split: prod.split option.split)
  show u: "\<not> effective (fst (reap_run got n vs s))" for n vs and s :: "'a store_state_scheme"
    by (simp add: reap_run_def Let_def r split: prod.split)
  show "\<not> effective (fst (reap_start got s))" by (simp add: reap_start_def u)
qed

lemma effective_evict: "effective (fst (evict_run now n vs s)) \<and> answer (fst (evict_run now n vs s)) = RSet True"
  by (simp add: evict_run_def Let_def split: prod.split)

lemma effective_check: "effective (fst (check_start rnd now s)) \<and> answer (fst (check_start rnd now s)) = RSet True"
  by (simp add: check_start_def evict_start_def Let_def effective_evict)

lemma effective_release: "effective (fst (release_run c keys s)) \<and> answer (fst (release_run c keys s)) = RSet True"
  by (simp add: release_run_def split: prod.split option.split)

lemma effective_take_front: "take_front s = (f, t) \<Longrightarrow> \<not> fault t \<Longrightarrow> \<not> effective f"
  by (auto simp: take_front_def Let_def split: list.splits)

lemma effective_acquire:
  assumes "acquire_start s = (f, t)" "\<not> fault t" "prob_pool_max_size s = 0 \<Longrightarrow> \<exists>a. f = Acquired a"
  shows "\<not> effective f"
proof (cases "prob_pool_max_size s = 0")
  case True
  then show ?thesis using assms(3) by auto
next
  case False
  then consider (reap) got u where "reap_start got u = (f, t)" | (front) "take_front s = (f, t)"
    using assms(1) by (auto simp: acquire_start_def Let_def split: if_splits prod.splits)
  then show ?thesis
  proof cases
    case reap
    then show ?thesis using effective_reap(3) [of got u] by simp
  next
    case front
    then show ?thesis using effective_take_front assms(2) by blast
  qed
qed

lemma resume_effect:
  assumes "sound E s" "Suc (next_addr s) < 2 ^ 63" "fits (prob_pool_max_size s) q f"
    and "resume rnd now now' q f s = (f1, taken, t)" "\<not> fault t"
  shows "case taken of None \<Rightarrow> effective f1 = effective f \<and> (effective f \<longrightarrow> answer f1 = answer f)
    | Some r \<Rightarrow> \<not> effective f \<and> effective f1 \<and> answer f1 = r"
proof (cases f)
  case Begin
  show ?thesis
  proof (cases q)
    case (GetReq key)
    then show ?thesis using assms(4) Begin by (auto split: prod.splits)
  next
    case (SetReq key v)
    then have r: "acquire_start (note_fallback s) = (f1, t)" "taken = None" using assms(4) Begin by (auto split: prod.splits)
    have "\<not> effective f1" using effective_acquire [OF r(1) assms(5)] sound_acquire_start(6) [OF assms(1,2) r(1)] assms(5) by simp
    then show ?thesis using r Begin by simp
  next
    case (SetExReq key v ttl)
    then have r: "acquire_start (note_fallback s) = (f1, t)" "taken = None" using assms(4) Begin by (auto split: prod.splits)
    have "\<not> effective f1" using effective_acquire [OF r(1) assms(5)] sound_acquire_start(6) [OF assms(1,2) r(1)] assms(5) by simp
    then show ?thesis using r Begin by simp
  qed
next
  case (Reaping got n vs)
  then show ?thesis using assms(4) effective_reap(2) [of got n vs s] by (auto split: prod.splits)
next
  case (Reap_releasing got c ks)
  then show ?thesis using assms(4) effective_reap(1) [of got c ks s] by (auto split: prod.splits)
next
  case (Reaped got)
  then show ?thesis using assms(4,5) effective_take_front [of s f1 t] by (auto split: prod.splits option.splits)
next
  case (Acquired a)
  then show ?thesis using assms(4) effective_check [of rnd now' "store_entry q now a s"] by (auto split: prod.splits)
next
  case (Evicting u n vs)
  then show ?thesis using assms(4) effective_evict [of u n vs s] by (auto split: prod.splits)
next
  case (Evicted ks)
  then show ?thesis using assms(4) effective_release [of 0 ks s] by (auto split: prod.splits)
next
  case (Releasing c ks)
  then show ?thesis using assms(4) effective_release [of c ks s] by (auto split: prod.splits)
next
  case (Finished r)
  then show ?thesis using assms(4) by auto
qed

subsection \<open>Histories of a cache\<close>

text \<open>
  The specification: the events of a run explain the contents of the cache when every call takes effect by a step of the
  cache at its \<open>Took\<close> event, and keys may be evicted at any time.
\<close>

inductive cache_history :: "event list \<Rightarrow> cache \<Rightarrow> bool" where
  hist_nil: "cache_history [] Map.empty"
| hist_took: "cache_history es m \<Longrightarrow> cache_step op r m m' \<Longrightarrow> cache_history (es @ [Took i op r]) m'"
| hist_called: "cache_history es m \<Longrightarrow> cache_history (es @ [Called i q]) m"
| hist_returned: "cache_history es m \<Longrightarrow> cache_history (es @ [Returned i r]) m"
| hist_evict: "cache_history es m \<Longrightarrow> m' \<subseteq>\<^sub>m m \<Longrightarrow> cache_history es m'"

fun took_ops :: "event list \<Rightarrow> store_op list" where
  "took_ops [] = []"
| "took_ops (Took i op r # es) = op # took_ops es"
| "took_ops (e # es) = took_ops es"

lemma took_ops_append [simp]: "took_ops (es @ es') = took_ops es @ took_ops es'"
  by (induction es rule: took_ops.induct) simp_all

lemma last_write_append: "last_write key w (ops @ ops') = last_write key (last_write key w ops) ops'"
  by (induction ops arbitrary: w) simp_all

text \<open>A value in the cache is the value of the last SET of its key that took effect.\<close>

lemma history_last_write: "cache_history es m \<Longrightarrow> m key = Some (v, e) \<Longrightarrow> last_write key None (took_ops es) = Some v"
proof (induction arbitrary: v e rule: cache_history.induct)
  case (hist_took es m op r m' i)
  show ?case
    using cache_step_last_write [OF hist_took.hyps(2) hist_took.IH hist_took.prems]
    by (simp add: last_write_append)
next
  case (hist_evict es m m')
  have "m key = Some (v, e)" using hist_evict.hyps(2) hist_evict.prems by (metis map_le_def domI)
  then show ?case by (rule hist_evict.IH)
qed simp_all

lemma history_get:
  assumes "cache_history es m" "es = es1 @ Took i (OpGet now key) (RGet (Some v)) # es2"
  shows "last_write key None (took_ops es1) = Some v"
  using assms
proof (induction arbitrary: es2 rule: cache_history.induct)
  case (hist_took es m op r m' j)
  show ?case
  proof (cases es2 rule: rev_cases)
    case Nil
    then have e: "es = es1" "op = OpGet now key" "r = RGet (Some v)" using hist_took.prems by simp_all
    have "cache_lookup now key m = Some v" using hist_took.hyps(2) unfolding e by (auto elim: cache_step_getE)
    then obtain d where "m key = Some (v, d)" by (auto simp: cache_lookup_def split: option.splits if_splits)
    with hist_took.hyps(1) show ?thesis unfolding e(1) by (rule history_last_write)
  next
    case (snoc es3 e)
    then show ?thesis using hist_took.prems hist_took.IH [of es3] by simp
  qed
next
  case (hist_called es m j q)
  then show ?case by (cases es2 rule: rev_cases) auto
next
  case (hist_returned es m j r)
  then show ?case by (cases es2 rule: rev_cases) auto
qed simp_all

subsection \<open>Every interleaving\<close>

fun event_call :: "event \<Rightarrow> nat" where
  "event_call (Called i q) = i"
| "event_call (Took i op r) = i"
| "event_call (Returned i r) = i"

definition call_events :: "nat \<Rightarrow> event list \<Rightarrow> event list" where
  "call_events i es = filter (\<lambda>e. event_call e = i) es"

text \<open>
  The events of one call: it is called, takes effect once with an operation of its request, and returns with the
  result of that operation.
\<close>

definition one_call :: "nat \<Rightarrow> event list \<Rightarrow> bool" where
  "one_call i es \<longleftrightarrow> (\<exists>q now now' r n. es = take n [Called i q, Took i (shard_op q now now') r, Returned i r])"

definition call_ok :: "nat \<Rightarrow> event list \<Rightarrow> shard_request \<times> frame \<Rightarrow> bool" where
  "call_ok i es c \<longleftrightarrow> (case c of (q, f) \<Rightarrow>
     if effective f then \<exists>now now'. es = [Called i q, Took i (shard_op q now now') (answer f)] else es = [Called i q])"

fun held_by :: "(shard_request \<times> frame) option \<Rightarrow> addr set" where
  "held_by None = {}"
| "held_by (Some (q, f)) = held f"

definition in_flight :: "(nat \<rightharpoonup> shard_request \<times> frame) \<Rightarrow> addr set" where
  "in_flight calls = (\<Union>i. held_by (calls i))"

definition apart :: "(nat \<rightharpoonup> shard_request \<times> frame) \<Rightarrow> bool" where
  "apart calls \<longleftrightarrow> (\<forall>i j. i \<noteq> j \<longrightarrow> held_by (calls i) \<inter> held_by (calls j) = {})"

definition run_ok :: "shard_calls \<Rightarrow> bool" where
  "run_ok x \<longleftrightarrow> sound (in_flight (sh_calls x)) (sh_store x) \<and> apart (sh_calls x)
     \<and> cache_history (sh_events x) (contents (sh_store x))
     \<and> (\<forall>i q f. sh_calls x i = Some (q, f) \<longrightarrow> fits (prob_pool_max_size (sh_store x)) q f)
     \<and> (\<forall>i. sh_next x \<le> i \<longrightarrow> sh_calls x i = None \<and> call_events i (sh_events x) = [])
     \<and> (\<forall>i c. sh_calls x i = Some c \<longrightarrow> call_ok i (call_events i (sh_events x)) c)
     \<and> (\<forall>i. one_call i (call_events i (sh_events x)))"

lemma in_flight_upd:
  assumes "apart calls"
  shows "in_flight (calls(i := c)) = in_flight calls - held_by (calls i) \<union> held_by c"
proof (rule set_eqI)
  fix a
  have "j = i" if "a \<in> held_by (calls j)" "a \<in> held_by (calls i)" for j
    using assms that unfolding apart_def by blast
  then show "a \<in> in_flight (calls(i := c)) \<longleftrightarrow> a \<in> in_flight calls - held_by (calls i) \<union> held_by c"
    unfolding in_flight_def by (simp split: if_splits) metis
qed

lemma apart_upd:
  assumes "apart calls" "held_by c \<inter> (in_flight calls - held_by (calls i)) = {}"
  shows "apart (calls(i := c))"
proof -
  have "held_by c \<inter> held_by (calls j) = {}" if "j \<noteq> i" for j
  proof -
    have "held_by (calls j) \<inter> held_by (calls i) = {}" using assms(1) that unfolding apart_def by blast
    then have "held_by (calls j) \<subseteq> in_flight calls - held_by (calls i)" by (auto simp: in_flight_def)
    then show ?thesis using assms(2) by blast
  qed
  then show ?thesis using assms(1) by (simp add: apart_def Int_commute)
qed

lemma call_events_snoc: "call_events i (es @ [e]) = call_events i es @ (if event_call e = i then [e] else [])"
  by (simp add: call_events_def)

lemma one_callI:
  "one_call i []" "one_call i [Called i q]" "one_call i [Called i q, Took i (shard_op q now now') r]"
  "one_call i [Called i q, Took i (shard_op q now now') r, Returned i r]"
  unfolding one_call_def
  by (intro exI [of _ q] exI [of _ now] exI [of _ now'] exI [of _ r], rule exI [of _ 0] exI [of _ 1] exI [of _ 2] exI [of _ 3], simp)+

lemma turn_call_ok:
  assumes "run_ok x" "\<not> fault (sh_store x)"
  shows "run_ok (take_turn rnd (Call q) x)"
proof -
  have n: "sh_calls x (sh_next x) = None" "call_events (sh_next x) (sh_events x) = []" "apart (sh_calls x)"
    using assms(1) by (simp_all add: run_ok_def)
  have f: "in_flight ((sh_calls x)(sh_next x \<mapsto> (q, Begin))) = in_flight (sh_calls x)"
    "apart ((sh_calls x)(sh_next x \<mapsto> (q, Begin)))"
    using in_flight_upd [OF n(3), of "sh_next x" "Some (q, Begin)"] apart_upd [OF n(3), of "Some (q, Begin)" "sh_next x"] n(1)
    by simp_all
  show ?thesis
    using assms n f one_callI(2) unfolding run_ok_def
    by (auto simp: hist_called call_events_snoc call_ok_def)
qed

lemma sound_no_fault: "sound E s \<Longrightarrow> \<not> fault s"
  by (auto simp: sound_def kv_inv_def pool_inv_def mem_inv_def)

text \<open>The events of a call that goes on.\<close>

lemma resumed_call_ok:
  assumes "call_ok i es (q, f)"
    and "case taken of None \<Rightarrow> effective f1 = effective f \<and> (effective f \<longrightarrow> answer f1 = answer f)
      | Some r \<Rightarrow> \<not> effective f \<and> effective f1 \<and> answer f1 = r"
  shows "call_ok i (es @ (case taken of None \<Rightarrow> [] | Some r \<Rightarrow> [Took i (shard_op q now now') r])) (q, f1)"
  using assms by (auto simp: call_ok_def split: option.splits if_splits)

lemma call_ok_one_call: "call_ok i es c \<Longrightarrow> one_call i es"
  using one_callI(2,3) by (auto simp: call_ok_def split: prod.splits if_splits)

lemma turn_resume_ok:
  assumes "run_ok x" "sh_calls x i = Some (q, f)" "Suc (next_addr (sh_store x)) < 2 ^ 63"
    and "resume rnd now now' q f (sh_store x) = (f1, taken, t)" "\<not> fault t \<or> prob_pool_max_size (sh_store x) = 0"
  shows "run_ok (take_turn rnd (Resume i now now') x)" "prob_pool_max_size t = prob_pool_max_size (sh_store x)"
    "next_addr t \<le> Suc (next_addr (sh_store x))"
proof -
  let ?s = "sh_store x" and ?calls = "(sh_calls x)(i \<mapsto> (q, f1))"
  let ?new = "case taken of None \<Rightarrow> [] | Some r \<Rightarrow> [Took i (shard_op q now now') r]"
  note r = assms(1) [unfolded run_ok_def]
  have so: "sound (in_flight (sh_calls x)) ?s" and ap: "apart (sh_calls x)" and h: "cache_history (sh_events x) (contents ?s)"
    and fi: "fits (prob_pool_max_size ?s) q f" and ca: "call_ok i (call_events i (sh_events x)) (q, f)"
    using r assms(2) by blast+
  have "held f = held_by (sh_calls x i)" using assms(2) by simp
  then have he: "held f \<subseteq> in_flight (sh_calls x)" by (auto simp: in_flight_def)
  note m = resume_sound [OF so he assms(3) fi assms(4,5)]
  then have mv: "moves (in_flight (sh_calls x)) f ?s f1 t" by blast
  have fl: "in_flight ?calls = in_flight (sh_calls x) - held f \<union> held f1" "apart ?calls"
    using in_flight_upd [OF ap, of i "Some (q, f1)"] apart_upd [OF ap, of "Some (q, f1)" i] mv assms(2) by (simp_all add: moves_def)
  have st: "sound (in_flight ?calls) t" using mv by (simp add: moves_def fl)
  note ef = resume_effect [OF so assms(3) fi assms(4) sound_no_fault [OF st]]
  have "cache_history (sh_events x @ ?new) (contents t)"
    using m h by (auto intro: hist_took hist_evict split: option.splits)
  moreover have e: "call_events j (sh_events x @ ?new) = call_events j (sh_events x) @ (if j = i then ?new else [])" for j
    by (auto simp: call_events_snoc split: option.split)
  moreover have new: "call_ok i (call_events i (sh_events x) @ ?new) (q, f1)" by (rule resumed_call_ok [OF ca ef])
  moreover note call_ok_one_call [OF new]
  moreover have "sh_next x \<le> j \<Longrightarrow> j \<noteq> i" for j using r assms(2) by (metis option.distinct(1))
  moreover have pm: "prob_pool_max_size t = prob_pool_max_size ?s" using mv by (simp add: moves_def)
  ultimately have "run_ok (x\<lparr>sh_store := t, sh_calls := ?calls, sh_events := sh_events x @ ?new\<rparr>)"
    using r m st fl(2) unfolding run_ok_def by auto
  then show "run_ok (take_turn rnd (Resume i now now') x)"
    using assms(2,4) sound_no_fault [OF so] by simp
  show "prob_pool_max_size t = prob_pool_max_size ?s" "next_addr t \<le> Suc (next_addr ?s)" using mv by (simp_all add: moves_def)
qed

lemma turn_return_ok:
  assumes "run_ok x"
  shows "run_ok (take_turn rnd (Return i) x)"
proof (cases "\<exists>q r. sh_calls x i = Some (q, Finished r)")
  case False
  then have "take_turn rnd (Return i) x = x" by (auto split: option.splits frame.splits)
  then show ?thesis using assms by simp
next
  case True
  then obtain q r where c: "sh_calls x i = Some (q, Finished r)" by blast
  note ok = assms [unfolded run_ok_def]
  then have ap: "apart (sh_calls x)" and nf: "\<not> fault (sh_store x)" using sound_no_fault by blast+
  have "call_ok i (call_events i (sh_events x)) (q, Finished r)" using ok c by blast
  then obtain now now' where e: "call_events i (sh_events x) = [Called i q, Took i (shard_op q now now') r]"
    by (auto simp: call_ok_def)
  have "one_call i (call_events i (sh_events x) @ [Returned i r])" unfolding e using one_callI(4) by simp
  moreover have "in_flight ((sh_calls x)(i := None)) = in_flight (sh_calls x)" "apart ((sh_calls x)(i := None))"
    using in_flight_upd [OF ap, of i None] apart_upd [OF ap, of None i] c by simp_all
  moreover have "sh_next x \<le> j \<Longrightarrow> j \<noteq> i" for j using ok c by (metis option.distinct(1))
  ultimately show ?thesis
    using ok c nf unfolding run_ok_def by (auto simp: hist_returned call_events_snoc)
qed

lemma take_turn_fault: "fault (sh_store x) \<Longrightarrow> take_turn rnd u x = x"
  by (cases u) simp_all

lemma run_turns_fault: "fault (sh_store x) \<Longrightarrow> run_turns rnd us x = x"
  by (induction us) (simp_all add: run_turns_def take_turn_fault)

lemma run_turns_Cons: "run_turns rnd (u # us) x = run_turns rnd us (take_turn rnd u x)"
  by (simp add: run_turns_def)

lemma take_turn_ok:
  fixes rnd :: "double \<Rightarrow> double" and u :: turn
  assumes "run_ok x" "Suc (next_addr (sh_store x)) < 2 ^ 63"
  defines "y \<equiv> take_turn rnd u x"
  shows "fault (sh_store y) \<and> prob_pool_max_size (sh_store x) \<noteq> 0 \<or>
    run_ok y \<and> prob_pool_max_size (sh_store y) = prob_pool_max_size (sh_store x)
    \<and> next_addr (sh_store y) \<le> Suc (next_addr (sh_store x))"
proof -
  have nf: "\<not> fault (sh_store x)" using assms(1) sound_no_fault by (auto simp: run_ok_def)
  show ?thesis
  proof (cases u)
    case (Call q)
    then show ?thesis using turn_call_ok [OF assms(1) nf, of rnd q] by (simp add: y_def)
  next
    case (Return i)
    then show ?thesis using turn_return_ok [OF assms(1), of rnd i]
      by (auto simp: y_def split: option.splits frame.splits)
  next
    case (Resume i now now')
    show ?thesis
    proof (cases "sh_calls x i")
      case None
      then show ?thesis using assms(1) by (simp add: y_def Resume)
    next
      case (Some c)
      obtain q f where c: "c = (q, f)" by (cases c)
      obtain f1 taken t where r: "resume rnd now now' q f (sh_store x) = (f1, taken, t)" by (metis prod_cases3)
      have t: "sh_store y = t" using nf Some c r by (simp add: y_def Resume)
      show ?thesis
      proof (cases "\<not> fault t \<or> prob_pool_max_size (sh_store x) = 0")
        case True
        from turn_resume_ok [OF assms(1) Some [unfolded c] assms(2) r True] t show ?thesis
          unfolding y_def Resume by simp
      qed (simp add: t)
    qed
  qed
qed

lemma run_turns_ok:
  assumes "run_ok x" "next_addr (sh_store x) + length us < 2 ^ 63"
  shows "fault (sh_store (run_turns rnd us x)) \<and> prob_pool_max_size (sh_store x) \<noteq> 0 \<or> run_ok (run_turns rnd us x)"
  using assms
proof (induction us arbitrary: x)
  case Nil
  then show ?case by (simp add: run_turns_def)
next
  case (Cons u us)
  have "Suc (next_addr (sh_store x)) < 2 ^ 63" using Cons.prems(2) by simp
  from take_turn_ok [OF Cons.prems(1) this, of rnd u] show ?case
    using Cons.IH [of "take_turn rnd u x"] Cons.prems(2) run_turns_fault [of "take_turn rnd u x" rnd us]
    by (auto simp: run_turns_Cons)
qed

lemma idle_run_ok:
  assumes "store_inv s" "contents s = Map.empty"
  shows "run_ok (idle_shard s)"
proof -
  have "in_flight Map.empty = {}" "apart Map.empty" by (simp_all add: in_flight_def apart_def)
  then show ?thesis using assms one_callI(1)
    by (auto simp: run_ok_def idle_shard_def sound_def call_events_def intro: hist_nil)
qed

lemma started_turns:
  assumes "max_size (store_start rnd sz tm fm cfg (new_store ev)) + length us < 2 ^ 63"
  defines "s \<equiv> store_start rnd sz tm fm cfg (new_store ev)"
  defines "x \<equiv> run_turns rnd us (idle_shard s)"
  shows "fault (sh_store x) \<and> prob_pool_max_size s \<noteq> 0 \<or> run_ok x"
proof -
  have "max_size s < 2 ^ 63" using assms(1) by (simp add: s_def)
  note i = store_start_inv [OF this [unfolded s_def], folded s_def]
  have "next_addr s + length us < 2 ^ 63" using assms(1) store_start_next_addr [of rnd sz tm fm cfg ev] by (simp add: s_def)
  from run_turns_ok [OF idle_run_ok [OF i], of us rnd] this show ?thesis
    by (simp add: x_def) (simp add: idle_shard_def)
qed

subsection \<open>Properties\<close>

text \<open>
  C8. Calls on a shard are linearizable: whatever SETs and GETs are in progress at the same time and wherever the event loop
  switches between them, as long as the run has not faulted, every call takes effect exactly once, between its start and its return,
  it returns what it had then, and the calls in the order in which they take effect explain the contents of the store, up to
  evictions. Without a probation pool a run never faults.
\<close>

theorem interleaved_calls:
  assumes "max_size (store_start rnd sz tm fm cfg (new_store ev)) + length us < 2 ^ 63"
  defines "s \<equiv> store_start rnd sz tm fm cfg (new_store ev)"
  defines "x \<equiv> run_turns rnd us (idle_shard s)"
  shows "(prob_pool_max_size s = 0 \<longrightarrow> \<not> fault (sh_store x))
    \<and> (\<not> fault (sh_store x) \<longrightarrow> cache_history (sh_events x) (contents (sh_store x))
          \<and> (\<forall>i. one_call i (call_events i (sh_events x))))"
proof -
  have "fault (sh_store x) \<and> prob_pool_max_size s \<noteq> 0 \<or> run_ok x"
    unfolding x_def s_def by (rule started_turns [OF assms(1)])
  then show ?thesis using sound_no_fault by (auto simp: run_ok_def)
qed

definition example_turns :: "turn list" where
  "example_turns = [Call (SetReq ''k'' ''v''), Call (GetReq ''k''), Resume 0 1 1, Resume 1 1 1, Resume 0 1 1, Call (GetReq ''k''), Resume 2 2 2]"

lemmas coroutine_eval = run_turns_def idle_shard_def acquire_start_def take_front_def check_start_def reap_start_def
  Let_def store_eval

lemma example_turns_run:
  "\<not> fault (sh_store (run_turns id example_turns (idle_shard example_store)))"
  "sh_events (run_turns id example_turns (idle_shard example_store)) =
     [Called 0 (SetReq ''k'' ''v''), Called 1 (GetReq ''k''), Took 1 (OpGet 1 ''k'') (RGet None),
      Took 0 (OpSet 1 ''k'' ''v'') (RSet True), Called 2 (GetReq ''k''), Took 2 (OpGet 2 ''k'') (RGet (Some ''v''))]"
  by (simp_all add: example_turns_def coroutine_eval new_entry_def)

theorem interleaved_calls_witness:
  "cache_history (sh_events (run_turns id example_turns (idle_shard example_store)))
     (contents (sh_store (run_turns id example_turns (idle_shard example_store))))"
  using interleaved_calls [of id 76 1600 0 example_config "dc_ev_config example_config" example_turns, folded example_store_def]
    example_turns_run(1) by (simp add: example_store_size) (simp add: example_turns_def)

text \<open>
  C9. Reads while writes are in progress: in a run that has not faulted, a GET that answers with a value answers with the value of the last
  SET of that key that took effect before it.
\<close>

theorem interleaved_reads:
  assumes "max_size (store_start rnd sz tm fm cfg (new_store ev)) + length us < 2 ^ 63"
  defines "x \<equiv> run_turns rnd us (idle_shard (store_start rnd sz tm fm cfg (new_store ev)))"
  assumes "\<not> fault (sh_store x)" "sh_events x = es1 @ Took i (OpGet now key) (RGet (Some v)) # es2"
  shows "last_write key None (took_ops es1) = Some v"
proof -
  have "run_ok x" using started_turns [OF assms(1)] assms(3) unfolding x_def by blast
  then have "cache_history (sh_events x) (contents (sh_store x))" by (simp add: run_ok_def)
  from history_get [OF this assms(4)] show ?thesis .
qed

theorem interleaved_reads_witness:
  "last_write ''k'' None (took_ops [Called 0 (SetReq ''k'' ''v''), Called 1 (GetReq ''k''), Took 1 (OpGet 1 ''k'') (RGet None),
      Took 0 (OpSet 1 ''k'' ''v'') (RSet True), Called 2 (GetReq ''k'')]) = Some ''v''"
  by (rule interleaved_reads [of id 76 1600 0 example_config "dc_ev_config example_config" example_turns _ 2 2 "''k''" "''v''" "[]",
        folded example_store_def])
    (simp_all add: example_store_size example_turns_run, simp add: example_turns_def)

end
