(* ===== verification/Calls.thy ===== *)
theory Calls
  imports Interleaving
begin

text \<open>
  What becomes of one call on a shard (theory \<open>Coroutines\<close>): when nothing interrupts it, it is the operation of theory
  \<open>Store\<close>, and it finishes whatever happens between its resumptions.
\<close>

subsection \<open>A call that is not interrupted\<close>

text \<open>One resumption of a call, and where the event loop gets to when it resumes nothing else.\<close>

definition call_step ::
  "(double \<Rightarrow> double) \<Rightarrow> u64 \<Rightarrow> u64 \<Rightarrow> shard_request \<Rightarrow> frame \<times> store_state \<Rightarrow> frame \<times> store_state \<Rightarrow> bool" where
  "call_step rnd now now' q c d \<longleftrightarrow> (\<exists>taken. resume rnd now now' q (fst c) (snd c) = (fst d, taken, snd d))"

lemma call_step_then:
  "resume rnd now now' q f s = (f1, taken, s1) \<Longrightarrow> (call_step rnd now now' q)\<^sup>*\<^sup>* (f1, s1) d
     \<Longrightarrow> (call_step rnd now now' q)\<^sup>*\<^sup>* (f, s) d"
  by (rule converse_rtranclp_into_rtranclp [where r = "call_step rnd now now' q"]) (auto simp: call_step_def)

lemma resumes_to:
  "resume rnd now now' q f s = (case c of (f1, s1) \<Rightarrow> (f1, taken, s1)) \<Longrightarrow> (call_step rnd now now' q)\<^sup>*\<^sup>* c d
     \<Longrightarrow> (call_step rnd now now' q)\<^sup>*\<^sup>* (f, s) d"
  by (cases c) (auto intro: call_step_then)

text \<open>The segments of a loop together are the loop.\<close>

lemma release_segment_loop:
  "release_segment c keys s = (r, t) \<Longrightarrow>
     (case r of None \<Rightarrow> t = release_victims keys s
      | Some (c1, ks) \<Rightarrow> release_victims keys s = release_victims ks t \<and> length ks < length keys)"
proof (induction keys arbitrary: c s)
  case (Cons key keys)
  show ?case
  proof (cases "(c + 1) mod 1000 = 0")
    case True
    then have "r = Some (c + 1, keys)" "t = release_victim key s" using Cons.prems by (simp_all add: Let_def)
    then show ?thesis by (simp add: release_victims_Cons del: release_victims.simps(2))
  next
    case False
    then have "release_segment (c + 1) keys (release_victim key s) = (r, t)" using Cons.prems by (simp add: Let_def)
    from Cons.IH [OF this] show ?thesis
      by (auto simp: release_victims_Cons simp del: release_victims.simps(2) split: option.splits)
  qed
qed simp

lemma reap_one_budget [simp]: "reaper_budget (reap_one a s) = reaper_budget s"
  by (simp add: reap_one_def Let_def raise_if_def check_live_def)

lemma reaper_loop_step:
  "n < b \<Longrightarrow> probation_list s \<noteq> [] \<Longrightarrow> probation_hand s = Some a \<Longrightarrow>
     reaper_loop b n s vs = reaper_loop b (Suc n) (reap_one a s) (vs @ [e_key (heap s a)])"
  by (subst reaper_loop.simps) (simp add: reap_one_def Let_def)

lemma reaper_segment_loop:
  "reaper_segment b n s vs = (y, n1, t, vs1) \<Longrightarrow>
     reaper_loop b n s vs = (if y then reaper_loop b n1 t vs1 else (n1, t, vs1)) \<and> (y \<longrightarrow> n < n1 \<and> n1 \<le> b)
     \<and> reaper_budget t = reaper_budget s"
proof (induction b n s vs rule: reaper_segment.induct)
  case (1 b n s vs)
  consider (stop) "\<not> (n < b \<and> probation_list s \<noteq> [])" | (fail) "n < b \<and> probation_list s \<noteq> []" "probation_hand s = None"
    | (go) a where "n < b \<and> probation_list s \<noteq> []" "probation_hand s = Some a" by (cases "probation_hand s") auto
  then show ?case
  proof cases
    case stop
    then have "reaper_segment b n s vs = (False, n, s, vs)" by (subst reaper_segment.simps) auto
    then have "(y, n1, t, vs1) = (False, n, s, vs)" using "1.prems" by simp
    moreover have "reaper_loop b n s vs = (n, s, vs)" using stop by (subst reaper_loop.simps) auto
    ultimately show ?thesis by simp
  next
    case fail
    then have "(y, n1, t, vs1) = (False, n, raise_if True s, vs)" using "1.prems" by (simp add: reaper_segment.simps [of b n s vs])
    then show ?thesis using fail by (simp add: reaper_loop.simps [of b n s vs] raise_if_def)
  next
    case go
    let ?vs = "vs @ [e_key (heap s a)]"
    have loop: "reaper_loop b n s vs = reaper_loop b (Suc n) (reap_one a s) ?vs" using go by (simp add: reaper_loop_step)
    show ?thesis
    proof (cases "Suc n mod 1000 = 0")
      case True
      then have "(y, n1, t, vs1) = (True, Suc n, reap_one a s, ?vs)"
        using go "1.prems" by (simp add: reaper_segment.simps [of b n s vs] Let_def)
      then show ?thesis using loop go by simp
    next
      case False
      then have "reaper_segment b (Suc n) (reap_one a s) ?vs = (y, n1, t, vs1)"
        using go "1.prems" by (simp add: reaper_segment.simps [of b n s vs] Let_def)
      from "1.IH" [OF go refl refl refl False this] show ?thesis using loop by auto
    qed
  qed
qed

definition touches :: "'z memory_scheme \<Rightarrow> 'z memory_scheme \<Rightarrow> bool" where
  "touches s t \<longleftrightarrow> (\<exists>h ft. t = s\<lparr>heap := h, fault := ft\<rparr>)"

lemma touches_refl: "touches s s"
  unfolding touches_def by (rule exI [of _ "heap s"], rule exI [of _ "fault s"]) simp

lemma touches_trans:
  assumes "touches s t" "touches t u"
  shows "touches s u"
proof -
  obtain h ft h' ft' where "t = s\<lparr>heap := h, fault := ft\<rparr>" "u = t\<lparr>heap := h', fault := ft'\<rparr>"
    using assms unfolding touches_def by blast
  then have "u = s\<lparr>heap := h', fault := ft'\<rparr>" by simp
  then show ?thesis unfolding touches_def by blast
qed

lemma touches_check_live: "touches s (check_live a s)"
  unfolding touches_def check_live_def raise_if_def by (rule exI [of _ "heap s"], rule exI) simp

lemma touches_upd_entry: "touches s (upd_entry a f s)"
  unfolding touches_def by (rule exI [of _ "heap (upd_entry a f s)"], rule exI [of _ "fault (upd_entry a f s)"])
    (simp add: upd_entry_def check_live_def raise_if_def)

lemma evict_segment_loop:
  "evict_segment now b n s pre rest vs = (y, n1, t, pre1, rest1, vs1) \<Longrightarrow>
     evict_loop now b n s pre rest vs = (if y then evict_loop now b n1 t pre1 rest1 vs1 else (t, pre1, rest1, vs1))
     \<and> (y \<longrightarrow> n < n1 \<and> n1 \<le> b) \<and> (distinct (pre @ rest) \<longrightarrow> distinct (pre1 @ rest1))
     \<and> touches s t"
proof (induction rest arbitrary: n s pre vs)
  case Nil
  then show ?case using touches_refl [of s] by auto
next
  case (Cons c rest)
  let ?s = "check_live c s" and ?ev = "is_expired now (e_expires_at (heap s c)) \<or> \<not> e_visited (heap s c)"
  note sh = touches_check_live [of s c]
  consider (stop) "\<not> n < b" | (final) "n < b" ?ev "pre @ rest = []" | (yield) "n < b" ?ev "pre @ rest \<noteq> []" "Suc n mod 1000 = 0"
    | (evict) "n < b" ?ev "pre @ rest \<noteq> []" "Suc n mod 1000 \<noteq> 0" | (keep) "n < b" "\<not> ?ev" by blast
  then show ?case
  proof cases
    case stop
    then show ?thesis using Cons.prems touches_refl [of s] by auto
  next
    case final
    then show ?thesis using Cons.prems sh by (auto simp: Let_def)
  next
    case yield
    then have "(y, n1, t, pre1, rest1, vs1) = (True, Suc n, ?s, pre, rest, vs @ [e_key (heap s c)])"
      using Cons.prems by (auto simp: Let_def)
    then show ?thesis using yield sh by (auto simp: Let_def)
  next
    case evict
    then have r: "evict_segment now b (Suc n) ?s pre rest (vs @ [e_key (heap s c)]) = (y, n1, t, pre1, rest1, vs1)"
      using Cons.prems by (auto simp: Let_def)
    have l: "evict_loop now b n s pre (c # rest) vs = evict_loop now b (Suc n) ?s pre rest (vs @ [e_key (heap s c)])"
      using evict by (auto simp: Let_def)
    show ?thesis using Cons.IH [OF r] touches_trans [OF sh, of t] unfolding l by auto
  next
    case keep
    let ?t = "upd_entry c (\<lambda>e. e\<lparr>e_visited := False\<rparr>) ?s"
    from keep have r: "evict_segment now b n ?t (pre @ [c]) rest vs = (y, n1, t, pre1, rest1, vs1)"
      using Cons.prems by (auto simp: Let_def)
    have l: "evict_loop now b n s pre (c # rest) vs = evict_loop now b n ?t (pre @ [c]) rest vs"
      using keep by (auto simp: Let_def)
    have "touches s ?t" by (rule touches_trans [OF sh touches_upd_entry])
    then show ?thesis using Cons.IH [OF r] touches_trans [of s ?t t] unfolding l by auto
  qed
qed

text \<open>Left alone, each part of a call comes to its end.\<close>

lemma alone_reap_release:
  "(call_step rnd now now' q)\<^sup>*\<^sup>* (reap_release got c keys s) (Reaped got, release_victims keys s)"
proof (induction "length keys" arbitrary: c keys s rule: less_induct)
  case less
  obtain r t where r: "release_segment c keys s = (r, t)" by fastforce
  note l = release_segment_loop [OF r]
  show ?case
  proof (cases r)
    case None
    then show ?thesis using r l by (simp add: reap_release_def)
  next
    case (Some p)
    then obtain c1 ks where p: "r = Some (c1, ks)" by (cases p) auto
    have k: "length ks < length keys" "release_victims keys s = release_victims ks t" using l p by simp_all
    have "(call_step rnd now now' q)\<^sup>*\<^sup>* (Reap_releasing got c1 ks, t) (Reaped got, release_victims ks t)"
      by (rule resumes_to [OF _ less [OF k(1)]]) simp
    then show ?thesis using r p k(2) by (simp add: reap_release_def)
  qed
qed

lemma alone_reap_run:
  assumes "reaper_loop (unat (reaper_budget s)) n s vs = (n1, s1, vs1)"
  shows "(call_step rnd now now' q)\<^sup>*\<^sup>* (reap_run got n vs s)
    (Reaped got, release_victims vs1 (s1\<lparr>prob_eviction_count := prob_eviction_count s1 + of_nat n1\<rparr>))"
  using assms
proof (induction "unat (reaper_budget s) - n" arbitrary: n s vs rule: less_induct)
  case less
  obtain y n2 t vs2 where r: "reaper_segment (unat (reaper_budget s)) n s vs = (y, n2, t, vs2)" by (metis prod_cases4)
  note l = reaper_segment_loop [OF r]
  show ?case
  proof (cases y)
    case False
    then have "n2 = n1" "t = s1" "vs2 = vs1" using l less.prems by simp_all
    then show ?thesis using r False alone_reap_release [of rnd now now' q got 0 vs1]
      by (cases "vs1 = []") (simp_all add: reap_run_def Let_def)
  next
    case True
    have k: "unat (reaper_budget t) - n2 < unat (reaper_budget s) - n"
        "reaper_loop (unat (reaper_budget t)) n2 t vs2 = (n1, s1, vs1)"
      using l True less.prems by auto
    have "(call_step rnd now now' q)\<^sup>*\<^sup>* (Reaping got n2 vs2, t)
        (Reaped got, release_victims vs1 (s1\<lparr>prob_eviction_count := prob_eviction_count s1 + of_nat n1\<rparr>))"
      by (rule resumes_to [OF _ less.hyps [OF k]]) simp
    then show ?thesis using r True by (simp add: reap_run_def)
  qed
qed

lemma alone_reap_start:
  "(call_step rnd now now' q)\<^sup>*\<^sup>* (reap_start got s) (Reaped got, run_sequential_reaper (Some release_victims) s)"
proof (cases "probation_list s = []")
  case True
  then show ?thesis by (simp add: reap_start_def run_sequential_reaper_def)
next
  case False
  let ?s = "s\<lparr>probation_hand := begin_it (probation_list s)\<rparr>"
  obtain n1 s1 vs1 where r: "reaper_loop (unat (reaper_budget ?s)) 0 ?s [] = (n1, s1, vs1)" by (metis prod_cases3)
  have "run_sequential_reaper (Some release_victims) s =
      release_victims vs1 (s1\<lparr>prob_eviction_count := prob_eviction_count s1 + of_nat n1\<rparr>)"
    using False r by (simp add: run_sequential_reaper_def Let_def)
  then show ?thesis using alone_reap_run [OF r, of rnd now now' q got] False by (simp add: reap_start_def)
qed

lemma take_front_acquire:
  assumes "pool_free s \<noteq> []" "do_prob_acquire cb s = (Some a, t)"
  shows "take_front (if prob_threshold s \<le> prob_count s then run_sequential_reaper cb s else s) = (Acquired a, t)"
proof -
  define u where "u = (if prob_threshold s \<le> prob_count s then run_sequential_reaper cb s else s)"
  have d: "do_prob_acquire cb s =
      (case pool_free u of
         [] \<Rightarrow> (None, raise_if True u)
       | b # rest \<Rightarrow>
           (let s2 = upd_entry b (\<lambda>e. e\<lparr>e_in_use := True, e_pool_type := Probation\<rparr>) (u\<lparr>pool_free := rest\<rparr>);
                s3 = s2\<lparr>prob_count := prob_count s2 + 1\<rparr>;
                s4 = raise_if (b \<in> set (probation_list s3)) s3
            in (Some b, s4\<lparr>probation_list := probation_list s4 @ [b]\<rparr>)))"
    unfolding do_prob_acquire_def Let_def u_def using assms(1) by (simp only: if_False)
  have "take_front u = (Acquired a, t)"
  proof (cases "pool_free u")
    case Nil
    then show ?thesis using assms(2) by (simp add: d)
  next
    case (Cons b rest)
    obtain w where "do_prob_acquire cb s = (Some b, w)" "take_front u = (Acquired b, w)"
      unfolding d take_front_def Let_def Cons list.case by blast
    then show ?thesis using assms(2) by simp
  qed
  then show ?thesis by (simp add: u_def)
qed

lemma alone_acquire:
  assumes "acquire (Some release_victims) s = (Some a, t)"
  shows "(call_step rnd now now' q)\<^sup>*\<^sup>* (acquire_start s) (Acquired a, t)"
proof -
  let ?go = "(call_step rnd now now' q)\<^sup>*\<^sup>*"
  consider (direct) "prob_pool_max_size s = 0" | (alloc) "prob_pool_max_size s \<noteq> 0" "pool_free s = []"
    | (reap) "prob_pool_max_size s \<noteq> 0" "pool_free s \<noteq> []" "prob_threshold s \<le> prob_count s"
    | (front) "prob_pool_max_size s \<noteq> 0" "pool_free s \<noteq> []" "\<not> prob_threshold s \<le> prob_count s" by blast
  then show ?thesis
  proof cases
    case direct
    then show ?thesis using assms by (simp add: acquire_def acquire_start_def)
  next
    case alloc
    define s1 where "s1 = upd_entry (next_addr s) (\<lambda>e. e\<lparr>e_in_use := True, e_pool_type := Probation\<rparr>) (snd (make_entry s))"
    define s2 where "s2 = s1\<lparr>prob_count := prob_count s1 + 1\<rparr>"
    have m: "make_entry s = (next_addr s, snd (make_entry s))" by (simp add: make_entry_def)
    have "do_prob_acquire (Some release_victims) s = (Some (next_addr s), run_sequential_reaper (Some release_victims) s2)"
      unfolding do_prob_acquire_def Let_def s2_def s1_def using alloc(2) by (subst m) simp
    then have a: "a = next_addr s" "t = run_sequential_reaper (Some release_victims) s2"
      using assms alloc(1) by (simp_all add: acquire_def)
    have "acquire_start s = reap_start (Some a) s2"
      unfolding acquire_start_def Let_def s2_def s1_def a(1) using alloc by (subst m) simp
    then have "?go (acquire_start s) (Reaped (Some a), t)"
      using alone_reap_start [of rnd now now' q "Some a" s2] unfolding a(2) by simp
    moreover have "?go (Reaped (Some a), t) (Acquired a, t)"
      by (rule call_step_then [where taken = None, OF _ rtranclp.rtrancl_refl]) simp
    ultimately show ?thesis by (rule rtranclp_trans)
  next
    case reap
    then have "do_prob_acquire (Some release_victims) s = (Some a, t)" using assms by (simp add: acquire_def)
    from take_front_acquire [OF reap(2) this] reap(3)
    have "take_front (run_sequential_reaper (Some release_victims) s) = (Acquired a, t)" by simp
    then have last: "?go (Reaped None, run_sequential_reaper (Some release_victims) s) (Acquired a, t)"
      by (intro call_step_then [where taken = None, OF _ rtranclp.rtrancl_refl]) simp
    have "acquire_start s = reap_start None s" using reap by (simp add: acquire_start_def)
    then have first: "?go (acquire_start s) (Reaped None, run_sequential_reaper (Some release_victims) s)"
      using alone_reap_start [of rnd now now' q None s] by simp
    show ?thesis by (rule rtranclp_trans [OF first last])
  next
    case front
    then have "do_prob_acquire (Some release_victims) s = (Some a, t)" using assms by (simp add: acquire_def)
    from take_front_acquire [OF front(2) this] show ?thesis using front by (simp add: acquire_start_def)
  qed
qed

lemma alone_release_run:
  "(call_step rnd now now' q)\<^sup>*\<^sup>* (release_run c keys s) (Finished (RSet True), release_victims keys s)"
proof (induction "length keys" arbitrary: c keys s rule: less_induct)
  case less
  obtain r t where r: "release_segment c keys s = (r, t)" by fastforce
  note l = release_segment_loop [OF r]
  show ?case
  proof (cases r)
    case None
    then show ?thesis using r l by (simp add: release_run_def)
  next
    case (Some p)
    then obtain c1 ks where p: "r = Some (c1, ks)" by (cases p) auto
    have k: "length ks < length keys" "release_victims keys s = release_victims ks t" using l p by simp_all
    have "(call_step rnd now now' q)\<^sup>*\<^sup>* (Releasing c1 ks, t) (Finished (RSet True), release_victims ks t)"
      by (rule resumes_to [OF _ less [OF k(1)]]) simp
    then show ?thesis using r p k(2) by (simp add: release_run_def)
  qed
qed

text \<open>The list as \<open>evict\<close> leaves it, from the nodes before and after the hand.\<close>

definition rejoin :: "addr list \<Rightarrow> addr list \<Rightarrow> store_state \<Rightarrow> store_state" where
  "rejoin pre rest s = s\<lparr>sieveList := pre @ rest,
     sieve_hand := (if pre @ rest = [] then None else if rest = [] then begin_it (pre @ rest) else begin_it rest)\<rparr>"

lemma split_at_begin:
  assumes "distinct (pre @ rest)"
  shows "takeWhile (\<lambda>x. Some x \<noteq> begin_it rest) (pre @ rest) = pre" "dropWhile (\<lambda>x. Some x \<noteq> begin_it rest) (pre @ rest) = rest"
proof -
  have p: "x \<in> set pre \<Longrightarrow> Some x \<noteq> begin_it rest" for x using assms by (cases rest) auto
  show "takeWhile (\<lambda>x. Some x \<noteq> begin_it rest) (pre @ rest) = pre"
    by (subst takeWhile_append2) (rule p, assumption, cases rest, simp_all)
  show "dropWhile (\<lambda>x. Some x \<noteq> begin_it rest) (pre @ rest) = rest"
    by (subst dropWhile_append2) (rule p, assumption, cases rest, simp_all)
qed

lemma evict_loop_fields:
  "evict_loop now b n (s\<lparr>sieveList := xs, sieve_hand := h\<rparr>) pre rest vs =
     (case evict_loop now b n s pre rest vs of (t, pre1, rest1, vs1) \<Rightarrow> (t\<lparr>sieveList := xs, sieve_hand := h\<rparr>, pre1, rest1, vs1))"
  for s :: store_state
proof (induction rest arbitrary: n s pre vs)
  case (Cons c rest)
  have e: "check_live c (s\<lparr>sieveList := xs, sieve_hand := h\<rparr>) = (check_live c s)\<lparr>sieveList := xs, sieve_hand := h\<rparr>"
    "upd_entry c f (s\<lparr>sieveList := xs, sieve_hand := h\<rparr>) = (upd_entry c f s)\<lparr>sieveList := xs, sieve_hand := h\<rparr>" for f s
    by (simp_all add: check_live_def raise_if_def upd_entry_def)
  show ?case using Cons.IH by (simp add: Let_def e)
qed simp

lemma alone_evict_run:
  assumes "sieve_inv s" "before = (\<lambda>x. Some x \<noteq> sieve_hand s)"
    and "evict_loop t (unat (ec_budget (evictParams s))) n s (takeWhile before (sieveList s)) (dropWhile before (sieveList s)) vs =
      (s1, pre1, rest1, vs1)"
  shows "(call_step rnd now now' q)\<^sup>*\<^sup>* (evict_run t n vs s) (Evicted vs1, rejoin pre1 rest1 s1)"
  using assms
proof (induction "unat (ec_budget (evictParams s)) - n" arbitrary: n s vs before s1 rule: less_induct)
  case less
  let ?b = "unat (ec_budget (evictParams s))"
  let ?pre = "takeWhile before (sieveList s)" and ?rest = "dropWhile before (sieveList s)"
  obtain y n2 u pre2 rest2 vs2 where r: "evict_segment t ?b n s ?pre ?rest vs = (y, n2, u, pre2, rest2, vs2)"
    by (metis prod_cases6)
  note l = evict_segment_loop [OF r]
  have run: "evict_run t n vs s = (if y then (Evicting t n2 vs2, u\<lparr>sieveList := pre2 @ rest2, sieve_hand := begin_it rest2\<rparr>)
      else (Evicted vs2, rejoin pre2 rest2 u))"
    using r unfolding evict_run_def Let_def less.prems(2) rejoin_def by simp
  show ?case
  proof (cases y)
    case False
    then show ?thesis using l less.prems(3) run by simp
  next
    case True
    let ?u = "u\<lparr>sieveList := pre2 @ rest2, sieve_hand := begin_it rest2\<rparr>"
    have d: "distinct (pre2 @ rest2)" using l less.prems(1) by (simp add: sieve_inv_def hand_in_def)
    then have i: "sieve_inv ?u" by (cases rest2) (simp_all add: sieve_inv_def hand_in_def)
    obtain h ft where "u = s\<lparr>heap := h, fault := ft\<rparr>" using l unfolding touches_def by blast
    then have b: "evictParams ?u = evictParams s" by simp
    have loop: "evict_loop t ?b n2 u pre2 rest2 vs2 = (s1, pre1, rest1, vs1)" using l less.prems(3) True by simp
    have "evict_loop t ?b n2 ?u pre2 rest2 vs2 = (s1\<lparr>sieveList := pre2 @ rest2, sieve_hand := begin_it rest2\<rparr>, pre1, rest1, vs1)"
      unfolding evict_loop_fields loop by simp
    note again = this
    have "(call_step rnd now now' q)\<^sup>*\<^sup>* (evict_run t n2 vs2 ?u)
        (Evicted vs1, rejoin pre1 rest1 (s1\<lparr>sieveList := pre2 @ rest2, sieve_hand := begin_it rest2\<rparr>))"
    proof (rule less.hyps [OF _ i refl])
      show "unat (ec_budget (evictParams ?u)) - n2 < ?b - n" using l True unfolding b by auto
      show "evict_loop t (unat (ec_budget (evictParams ?u))) n2 ?u (takeWhile (\<lambda>x. Some x \<noteq> sieve_hand ?u) (sieveList ?u))
          (dropWhile (\<lambda>x. Some x \<noteq> sieve_hand ?u) (sieveList ?u)) vs2 =
        (s1\<lparr>sieveList := pre2 @ rest2, sieve_hand := begin_it rest2\<rparr>, pre1, rest1, vs1)"
        using again unfolding b by (simp add: split_at_begin [OF d])
    qed
    moreover have "rejoin pre1 rest1 (s1\<lparr>sieveList := pre2 @ rest2, sieve_hand := begin_it rest2\<rparr>) = rejoin pre1 rest1 s1"
      by (simp add: rejoin_def)
    ultimately have "(call_step rnd now now' q)\<^sup>*\<^sup>* (evict_run t n2 vs2 ?u) (Evicted vs1, rejoin pre1 rest1 s1)" by simp
    then have "(call_step rnd now now' q)\<^sup>*\<^sup>* (Evicting t n2 vs2, ?u) (Evicted vs1, rejoin pre1 rest1 s1)"
      by (rule resumes_to [rotated]) simp
    then show ?thesis using run True by simp
  qed
qed

lemma alone_evict_start:
  assumes "sieve_inv s"
  shows "(call_step rnd now now' q)\<^sup>*\<^sup>* (evict_start t s) (Evicted (fst (evict t s)), snd (evict t s))"
proof (cases "sieveList s = []")
  case True
  then show ?thesis by (simp add: evict_start_def evict_def)
next
  case False
  define h where "h = (if sieve_hand s = None then begin_it (sieveList s) else sieve_hand s)"
  define u where "u = s\<lparr>sieveList := sieveList s, sieve_hand := h\<rparr>"
  have u: "sieveList u = sieveList s" "sieve_hand u = h" "evictParams u = evictParams s" by (simp_all add: u_def)
  have i: "sieve_inv u" using assms False by (cases "sieveList s") (auto simp: sieve_inv_def hand_in_def u_def h_def)
  have start: "evict_start t s = evict_run t 0 [] u" using False by (simp add: evict_start_def u_def h_def)
  obtain s1 pre rest vs where r: "evict_loop t (unat (ec_budget (evictParams s))) 0 s
      (takeWhile (\<lambda>x. Some x \<noteq> h) (sieveList s)) (dropWhile (\<lambda>x. Some x \<noteq> h) (sieveList s)) [] = (s1, pre, rest, vs)"
    using prod_cases4 by blast
  have e: "evict t s = (vs, rejoin pre rest s1)"
    using r False unfolding evict_def Let_def h_def [symmetric] rejoin_def by simp
  have "evict_loop t (unat (ec_budget (evictParams u))) 0 u
      (takeWhile (\<lambda>x. Some x \<noteq> sieve_hand u) (sieveList u)) (dropWhile (\<lambda>x. Some x \<noteq> sieve_hand u) (sieveList u)) [] =
      (s1\<lparr>sieveList := sieveList s, sieve_hand := h\<rparr>, pre, rest, vs)"
    unfolding u unfolding u_def evict_loop_fields r by simp
  from alone_evict_run [OF i refl this, of rnd now now' q]
  have "(call_step rnd now now' q)\<^sup>*\<^sup>* (evict_run t 0 [] u) (Evicted vs, rejoin pre rest s1)"
    by (simp add: rejoin_def)
  then show ?thesis unfolding start e by simp
qed

lemma alone_check_start:
  assumes "sieve_inv s"
  shows "(call_step rnd now now' q)\<^sup>*\<^sup>* (check_start rnd t s) (Finished (RSet True), check_memory_and_evict rnd t s)"
proof -
  let ?s = "set_eviction_type soft (raise_if (\<not> sieve_policy s) s)"
  consider "get_total_slots s = 0 \<or> \<not> ec_trigger (evc_soft (ev_cfg s)) \<le> pool_usage_fraction rnd s"
    | "get_total_slots s \<noteq> 0" "ec_trigger (evc_soft (ev_cfg s)) \<le> pool_usage_fraction rnd s" "\<not> sieve_policy ?s"
    | (evict) "get_total_slots s \<noteq> 0" "ec_trigger (evc_soft (ev_cfg s)) \<le> pool_usage_fraction rnd s" "sieve_policy ?s" by blast
  then show ?thesis
  proof cases
    case evict
    obtain vs u where e: "Sieve.evict t ?s = (vs, u)" by fastforce
    have "sieve_inv ?s" using assms by (simp add: sieve_inv_def set_eviction_type_def)
    from alone_evict_start [OF this, of rnd now now' q t]
    have first: "(call_step rnd now now' q)\<^sup>*\<^sup>* (evict_start t ?s) (Evicted vs, u)" unfolding e by simp
    have last: "(call_step rnd now now' q)\<^sup>*\<^sup>* (Evicted vs, u) (Finished (RSet True), release_victims vs u)"
      by (rule resumes_to [OF _ alone_release_run]) simp
    have c: "check_start rnd t s = evict_start t ?s" using evict by (simp add: check_start_def Let_def)
    have d: "check_memory_and_evict rnd t s = release_victims vs u"
      using evict e by (simp add: check_memory_and_evict_def Let_def)
    show ?thesis unfolding c d by (rule rtranclp_trans [OF first last])
  qed (auto simp: check_start_def check_memory_and_evict_def Let_def)
qed

lemma shard_op_exec:
  assumes "\<And>key. q \<noteq> GetReq key" "acquire (Some release_victims) (note_fallback s) = (Some a, u)"
  shows "store_exec rnd (shard_op q now now') s = (RSet True, check_memory_and_evict rnd now' (store_entry q now a u))"
proof (cases q)
  case (GetReq key)
  then show ?thesis using assms(1) by blast
qed (simp_all add: store_set_def set_with_ttl_def Let_def assms(2))

lemma sound_sieve_inv: "sound E s \<Longrightarrow> sieve_inv s"
  by (auto simp: sound_def kv_inv_def pool_inv_def lists_inv_def)

lemma alone_set:
  assumes "store_inv s" "Suc (next_addr s) < 2 ^ 63" "\<And>key. q \<noteq> GetReq key"
  shows "(call_step rnd now now' q)\<^sup>*\<^sup>* (Begin, s)
    (Finished (fst (store_exec rnd (shard_op q now now') s)), snd (store_exec rnd (shard_op q now now') s))"
proof -
  obtain a K u where a: "acquire (Some release_victims) (note_fallback s) = (Some a, u)" "acquired a K s u"
    using acquire_store [OF assms(1,2)] by metis
  let ?u = "store_entry q now a u"
  have "sound {a} u" using a(2) unfolding acquired_def sound_def by auto
  from sound_store_entry(1) [OF this singletonI assms(3)] have i: "sieve_inv ?u" by (rule sound_sieve_inv)
  have first: "(call_step rnd now now' q)\<^sup>*\<^sup>* (Begin, s) (Acquired a, u)"
    by (rule resumes_to [OF _ alone_acquire [OF a(1)]]) (use assms(3) in \<open>cases q, simp_all\<close>)
  have last: "(call_step rnd now now' q)\<^sup>*\<^sup>* (Acquired a, u) (Finished (RSet True), check_memory_and_evict rnd now' ?u)"
    by (rule resumes_to [OF _ alone_check_start [OF i]]) simp
  show ?thesis unfolding shard_op_exec [OF assms(3) a(1)] fst_conv snd_conv by (rule rtranclp_trans [OF first last])
qed



subsection \<open>Every call finishes\<close>

text \<open>How far a call has got: the part of it that runs, and what is left of the loop it is in.\<close>

fun phase :: "frame \<Rightarrow> nat" where
  "phase Begin = 8"
| "phase (Reaping got n vs) = 7"
| "phase (Reap_releasing got c keys) = 6"
| "phase (Reaped got) = 5"
| "phase (Acquired a) = 4"
| "phase (Evicting t n vs) = 3"
| "phase (Evicted vs) = 2"
| "phase (Releasing c keys) = 1"
| "phase (Finished r) = 0"

fun loop_left :: "frame \<Rightarrow> nat" where
  "loop_left (Reaping got n vs) = 2 ^ 64 - n"
| "loop_left (Evicting t n vs) = 2 ^ 64 - n"
| "loop_left (Reap_releasing got c keys) = length keys"
| "loop_left (Releasing c keys) = length keys"
| "loop_left f = 0"

definition nearer :: "frame \<Rightarrow> frame \<Rightarrow> bool" where
  "nearer f g \<longleftrightarrow> phase f < phase g \<or> phase f = phase g \<and> loop_left f < loop_left g"

lemma wfp_nearer: "wfp nearer"
proof (rule wfp_subset [of "\<lambda>f g. ((phase f, loop_left f), (phase g, loop_left g)) \<in> less_than <*lex*> less_than"])
  show "wfp (\<lambda>f g. ((phase f, loop_left f), (phase g, loop_left g)) \<in> less_than <*lex*> less_than)"
    using wf_inv_image [of "less_than <*lex*> less_than" "\<lambda>f. (phase f, loop_left f)"]
    by (simp add: wfp_def inv_image_def wf_lex_prod)
qed (auto simp: nearer_def)

lemma nearer_release_run: "nearer (fst (release_run c keys s)) (Releasing c keys)"
proof -
  obtain r t where r: "release_segment c keys s = (r, t)" by fastforce
  from release_segment_loop [OF r] show ?thesis using r by (auto simp: release_run_def nearer_def split: option.splits)
qed

lemma nearer_reap_release: "nearer (fst (reap_release got c keys s)) (Reap_releasing got c keys)"
proof -
  obtain r t where r: "release_segment c keys s = (r, t)" by fastforce
  from release_segment_loop [OF r] show ?thesis using r by (auto simp: reap_release_def nearer_def split: option.splits)
qed

lemma phase_reap_release: "phase (fst (reap_release got c keys s)) < 7"
  by (auto simp: reap_release_def split: prod.split option.split)

lemma nearer_phase: "nearer f g \<Longrightarrow> phase f \<le> phase g"
  by (auto simp: nearer_def)

lemma nearer_loop:
  fixes b :: u64
  assumes "n < m" "m \<le> unat b"
  shows "2 ^ 64 - m < 2 ^ 64 - n"
proof -
  have "unat b < 2 ^ 64" using unsigned_less [of b] by simp
  then show ?thesis using assms by simp
qed

lemma nearer_reap_run: "nearer (fst (reap_run got n vs s)) (Reaping got n vs)"
proof -
  obtain y m t ws where r: "reaper_segment (unat (reaper_budget s)) n s vs = (y, m, t, ws)"
    using prod_cases4 by blast
  show ?thesis
  proof (cases y)
    case True
    then have "n < m" "m \<le> unat (reaper_budget s)" using reaper_segment_loop [OF r] by simp_all
    from nearer_loop [OF this] show ?thesis using True by (simp add: reap_run_def r nearer_def)
  next
    case False
    then show ?thesis by (simp add: reap_run_def r nearer_def Let_def phase_reap_release)
  qed
qed

lemma nearer_evict_run: "nearer (fst (evict_run t n vs s)) (Evicting t n vs)"
proof -
  obtain y m u pre rest ws where r: "evict_segment t (unat (ec_budget (evictParams s))) n s
      (takeWhile (\<lambda>x. Some x \<noteq> sieve_hand s) (sieveList s)) (dropWhile (\<lambda>x. Some x \<noteq> sieve_hand s) (sieveList s)) vs =
      (y, m, u, pre, rest, ws)"
    by (metis prod_cases6)
  show ?thesis
  proof (cases y)
    case True
    then have "n < m" "m \<le> unat (ec_budget (evictParams s))" using evict_segment_loop [OF r] by simp_all
    from nearer_loop [OF this] show ?thesis using True by (simp add: evict_run_def r nearer_def Let_def)
  next
    case False
    then show ?thesis by (simp add: evict_run_def r nearer_def Let_def)
  qed
qed

lemma phase_reap_start: "phase (fst (reap_start got s)) \<le> 7"
  using nearer_phase [OF nearer_reap_run] by (auto simp: reap_start_def)

lemma phase_take_front: "phase (fst (take_front s)) < 5"
  by (simp add: take_front_def Let_def split: list.split)

lemma phase_acquire_start: "phase (fst (acquire_start s)) \<le> 7"
  using phase_reap_start less_imp_le [OF less_trans [OF phase_take_front, of 7]]
  by (auto simp: acquire_start_def Let_def split: prod.split option.split)

lemma phase_check_start: "phase (fst (check_start rnd now s)) \<le> 3"
  using nearer_phase [OF nearer_evict_run] by (auto simp: check_start_def evict_start_def Let_def)

lemma nearer_resume:
  assumes "\<And>r. f \<noteq> Finished r"
  shows "nearer (fst (resume rnd now now' q f s)) f"
proof (cases f)
  case Begin
  then show ?thesis using phase_acquire_start [of "note_fallback s"]
    by (auto simp: nearer_def split: shard_request.split prod.split)
next
  case (Reaped got)
  then show ?thesis using phase_take_front [of s] by (auto simp: nearer_def split: option.split prod.split)
next
  case (Acquired a)
  then show ?thesis using phase_check_start [of rnd now' "store_entry q now a s"] by (auto simp: nearer_def split: prod.split)
next
  case (Evicted keys)
  then show ?thesis using nearer_phase [OF nearer_release_run [of 0 keys s]] by (auto simp: nearer_def split: prod.split)
next
  case (Reaping got n vs)
  then show ?thesis using nearer_reap_run [of got n vs s] by (auto split: prod.split)
next
  case (Reap_releasing got c keys)
  then show ?thesis using nearer_reap_release [of got c keys s] by (auto split: prod.split)
next
  case (Evicting t n vs)
  then show ?thesis using nearer_evict_run [of t n vs s] by (auto split: prod.split)
next
  case (Releasing c keys)
  then show ?thesis using nearer_release_run [of c keys s] by (auto split: prod.split)
qed (use assms in simp)

text \<open>
  C11. Calls finish: a call that is resumed over and over comes to its end, whatever the store is at each resumption, that is whatever the
  other calls of the shard do in between.
\<close>

theorem calls_finish:
  assumes "\<And>i. f (Suc i) = fst (resume rnd (now i) (now' i) q (f i) (s i))"
  shows "\<exists>i r. f i = Finished r"
proof (rule ccontr)
  assume "\<nexists>i r. f i = Finished r"
  then have "nearer (f (Suc i)) (f i)" for i unfolding assms by (intro nearer_resume) blast
  then show False using wfp_nearer by (auto simp: wfp_def wf_iff_no_infinite_down_chain)
qed

theorem calls_finish_witness:
  "\<exists>i r. ((\<lambda>f. fst (resume id 1 1 (SetReq ''k'' ''v'') f example_store)) ^^ i) Begin = Finished r"
  by (rule calls_finish [where now = "\<lambda>_. 1" and now' = "\<lambda>_. 1" and s = "\<lambda>_. example_store"]) simp

end
