(* ===== verification/Schedules.thy ===== *)
theory Schedules
  imports Calls
begin

text \<open>
  Schedules of the calls on a shard (theory \<open>Coroutines\<close>): a GET that overtakes a SET, and two schedules that fault where
  the same calls one after the other do not.
\<close>

subsection \<open>Races\<close>

text \<open>
  A GET that is called after a SET of the same key, as the next request of a connection is, may take effect first.
\<close>

lemma get_overtakes_set:
  assumes "\<not> fault s" "kvmap s key = None"
  shows "sh_events (run_turns rnd [Call (SetReq key v), Call (GetReq key), Resume 1 now now, Return 1] (idle_shard s)) =
    [Called 0 (SetReq key v), Called 1 (GetReq key), Took 1 (OpGet now key) (RGet None), Returned 1 (RGet None)]"
  using assms by (simp add: run_turns_def idle_shard_def store_get_miss)

lemma store_set_no_fault:
  assumes "store_inv s" "Suc (next_addr s) < 2 ^ 63"
  shows "store_inv (snd (store_set rnd now key v s))" "\<not> fault (snd (store_set rnd now key v s))"
    "next_addr (snd (store_set rnd now key v s)) \<le> Suc (next_addr s)"
proof -
  obtain t where t: "store_set rnd now key v s = (True, t)" "store_inv t" "next_addr t \<le> Suc (next_addr s)"
    using store_set_cases [OF assms] by metis
  then show "store_inv (snd (store_set rnd now key v s))" "next_addr (snd (store_set rnd now key v s)) \<le> Suc (next_addr s)"
    by simp_all
  show "\<not> fault (snd (store_set rnd now key v s))" using t by (simp add: kv_inv_def pool_inv_def mem_inv_def)
qed

text \<open>
  C12. Two SETs can race for the last entry of the pool: both see that the pool is not empty, run the reaper, which finds nothing,
  and are suspended; the first takes the entry, and the second takes the front of an empty pool, which is undefined. One after the other
  they are fine.
\<close>

theorem racing_sets_fault:
  assumes "store_inv s" "Suc (Suc (next_addr s)) < 2 ^ 63"
    and "prob_pool_max_size s \<noteq> 0" "pool_free s = [a]" "prob_threshold s \<le> prob_count s" "probation_list s = []"
  shows "fault (sh_store (run_turns rnd [Call (SetReq k v), Call (SetReq k' v'), Resume 0 now now, Resume 1 now now,
      Resume 0 now now, Resume 1 now now] (idle_shard s)))
    \<and> \<not> fault (snd (store_set rnd now k' v' (snd (store_set rnd now k v s))))"
proof
  have "\<not> fault s" "a \<in> live s" using assms(1,4) by (auto simp: kv_inv_def pool_inv_def mem_inv_def)
  then show "fault (sh_store (run_turns rnd [Call (SetReq k v), Call (SetReq k' v'), Resume 0 now now, Resume 1 now now,
      Resume 0 now now, Resume 1 now now] (idle_shard s)))"
    using assms(3-6) by (simp add: run_turns_def idle_shard_def acquire_start_def reap_start_def take_front_def
        note_fallback_def get_available_slots_def upd_entry_def check_live_def raise_if_def Let_def)
  show "\<not> fault (snd (store_set rnd now k' v' (snd (store_set rnd now k v s))))"
    using assms(2) store_set_no_fault [OF assms(1), of rnd now k v]
    by (intro store_set_no_fault(2)) (auto intro: order.strict_trans1)
qed

definition racing_config :: db_config where
  "racing_config = example_config
     \<lparr>dc_ev_config := (dc_ev_config example_config)
        \<lparr>evc_prob_evict := \<lparr>ec_trigger = 0, ec_stop = 0, ec_budget = 0, ec_prob_budget = 1, ec_throttle = False\<rparr>\<rparr>,
      dc_pool := (dc_pool example_config)\<lparr>pc_prob_pool_size_percent := 1\<rparr>\<rparr>"

definition racing_store :: store_state where
  "racing_store = store_start id 76 400 0 racing_config (new_store (dc_ev_config racing_config))"

lemma racing_store_fields:
  "max_size racing_store = 1" "next_addr racing_store = 1" "pool_free racing_store = [0]" "prob_pool_max_size racing_store = 1"
  "prob_threshold racing_store = 0" "probation_list racing_store = []"
  "\<not> fault racing_store" "sieve_attached racing_store" "sieveList racing_store = []" "sieve_hand racing_store = None"
  "sanc_count racing_store = 0" "st_pool_fallback_allocs (stats racing_store) = 0" "sieve_policy racing_store"
  by (simp_all add: racing_store_def store_start_pool emplace_policy_def set_usable_memory_def new_store_def pool_init_def
      Let_def set_prob_sizes_def prepopulate_pool_def prepopulate_loop_eq calculate_optimal_pool_size_def
      get_max_allowed_memory_for_pool_def get_per_entry_size_estimate_def to_size_t_def
      racing_config_def example_config_def default_db_config_def cong: if_cong)

theorem racing_sets_fault_witness:
  "fault (sh_store (run_turns id [Call (SetReq ''a'' ''1''), Call (SetReq ''b'' ''2''), Resume 0 5 5, Resume 1 5 5,
      Resume 0 5 5, Resume 1 5 5] (idle_shard racing_store)))"
proof -
  have "store_inv racing_store"
    using store_start_inv(1) [of id 76 400 0 racing_config "dc_ev_config racing_config", folded racing_store_def] racing_store_fields
    by simp
  from racing_sets_fault [OF this, of 0 id "''a''" "''1''" "''b''" "''2''" 5] show ?thesis
    by (simp add: racing_store_fields)
qed

text \<open>The reaper takes the probation list from the front, up to its yield.\<close>

lemma reaper_segment_fifo:
  assumes "distinct (probation_list s)" "set (probation_list s) \<subseteq> live s" "probation_hand s = begin_it (probation_list s)"
    and "j \<le> length (probation_list s)" "n + j = 1000" "0 < j" "1000 \<le> b"
  shows "reaper_segment b n s vs =
    (True, 1000, s\<lparr>probation_list := drop j (probation_list s), prob_count := prob_count s - of_nat j,
        probation_hand := begin_it (drop j (probation_list s))\<rparr>,
     vs @ map (\<lambda>a. e_key (heap s a)) (take j (probation_list s)))"
  using assms
proof (induction j arbitrary: s n vs)
  case (Suc j)
  obtain a xs where pl: "probation_list s = a # xs" using Suc.prems(4) by (cases "probation_list s") auto
  have one: "reap_one a s = s\<lparr>probation_list := xs, prob_count := prob_count s - 1, probation_hand := begin_it xs\<rparr>"
    using Suc.prems(1,2) pl by (cases xs) (simp_all add: reap_one_def Let_def check_live_id)
  have hand: "probation_hand s = Some a" "n < b" using Suc.prems pl by simp_all
  show ?case
  proof (cases "j = 0")
    case True
    then show ?thesis using Suc.prems(5) hand pl one by (subst reaper_segment.simps) (simp add: Let_def)
  next
    case False
    then have "Suc n mod 1000 \<noteq> 0" using Suc.prems(5) by simp
    then have "reaper_segment b n s vs = reaper_segment b (Suc n) (reap_one a s) (vs @ [e_key (heap s a)])"
      using hand pl by (subst reaper_segment.simps) (simp add: Let_def)
    also have "\<dots> = (True, 1000, (reap_one a s)\<lparr>probation_list := drop j xs, prob_count := prob_count (reap_one a s) - of_nat j,
        probation_hand := begin_it (drop j xs)\<rparr>, (vs @ [e_key (heap s a)]) @ map (\<lambda>a. e_key (heap s a)) (take j xs))"
      using Suc.IH [of "reap_one a s" "Suc n" "vs @ [e_key (heap s a)]"] Suc.prems pl False by (simp add: one)
    finally show ?thesis by (simp add: one pl)
  qed
qed simp

text \<open>The reaper at the end of the list.\<close>

lemma reap_run_at_end:
  assumes "probation_list s \<noteq> []" "probation_hand s = None" "n < unat (reaper_budget s)"
  shows "fault (snd (reap_run got n vs s))"
proof -
  have "reaper_segment (unat (reaper_budget s)) n s vs = (False, n, raise_if True s, vs)"
    using assms by (subst reaper_segment.simps) simp
  moreover have "fault (snd (reap_release got 0 vs u))" if "fault u" for u :: "'a store_state_scheme"
    by (rule fault_reap_release [OF that prod.collapse [symmetric]])
  ultimately show ?thesis by (simp add: reap_run_def Let_def)
qed

text \<open>
  C13. The reaper can lose its hand: it yields after 1000 evictions; when these emptied the probation list, the hand is at the end of the list,
  a SET that comes in between appends an entry and leaves the hand there, and the reaper goes on by dereferencing the end. This takes
  a budget of more than 1000.
\<close>

theorem reaper_yield_fault:
  assumes "store_inv s" "prob_pool_max_size s \<noteq> 0" "pool_free s \<noteq> []" "length (probation_list s) = 1000"
    and "1000 < reaper_budget s" "prob_threshold s \<le> prob_count s" "prob_threshold s \<le> prob_count s - 1000"
  shows "fault (sh_store (run_turns rnd [Call (SetReq k v), Call (SetReq k' v'), Resume 0 now now, Resume 1 now now,
      Resume 1 now now, Resume 0 now now] (idle_shard s)))"
proof -
  obtain a rest where pf: "pool_free s = a # rest" using assms(3) by (cases "pool_free s") auto
  have i: "\<not> fault s" "a \<in> live s" "distinct (probation_list s)" "set (probation_list s) \<subseteq> live s"
    using assms(1) pf by (auto simp: kv_inv_def pool_inv_def mem_inv_def lists_inv_def hand_in_def)
  have b: "1000 < unat (reaper_budget s)" using assms(5) by (simp add: word_less_nat_alt)
  define vs where "vs = map (\<lambda>a. e_key (heap s a)) (probation_list s)"
  define s1 where "s1 = s\<lparr>probation_list := [], prob_count := prob_count s - 1000, probation_hand := None\<rparr>"
  have "reaper_segment (unat (reaper_budget s)) 0 (s\<lparr>probation_hand := begin_it (probation_list s)\<rparr>) [] = (True, 1000, s1, vs)"
    using reaper_segment_fifo [of "s\<lparr>probation_hand := begin_it (probation_list s)\<rparr>" 1000 0 "unat (reaper_budget s)" "[]"] i b assms(4)
    by (simp add: s1_def vs_def)
  moreover have "probation_list s \<noteq> []" using assms(4) by auto
  ultimately have a: "acquire_start (note_fallback s) = (Reaping None 1000 vs, s1)"
    using assms pf by (simp add: acquire_start_def reap_start_def reap_run_def note_fallback_def get_available_slots_def)
  have b1: "acquire_start (note_fallback s1) = (Reaped None, s1)"
    using assms pf by (simp add: s1_def acquire_start_def reap_start_def note_fallback_def get_available_slots_def)
  define s2 where "s2 = snd (take_front s1)"
  have f: "fst (take_front s1) = Acquired a" "\<not> fault s2" "probation_list s2 = [a]" "probation_hand s2 = None"
      "reaper_budget s2 = reaper_budget s"
    using pf i by (simp_all add: s2_def s1_def take_front_def Let_def upd_entry_live)
  then have t: "take_front s1 = (Acquired a, s2)" by (simp add: s2_def prod_eq_iff)
  have "fault (snd (reap_run None 1000 vs s2))" using f b by (intro reap_run_at_end) simp_all
  then obtain f3 s3 where r: "reap_run None 1000 vs s2 = (f3, s3)" "fault s3" by (metis prod.collapse)
  have "\<not> fault s1" using i by (simp add: s1_def)
  then show ?thesis using i(1) f(2) by (simp add: run_turns_def idle_shard_def a b1 t r)
qed

text \<open>A store with \<open>n\<close> keys on probation and one entry left in the pool.\<close>

definition probation_store :: "nat \<Rightarrow> store_state" where
  "probation_store n = racing_store
     \<lparr>heap := (\<lambda>a. if a < n then fresh_probation\<lparr>e_key := replicate a (CHR ''x'')\<rparr> else new_entry),
      live := {..n}, next_addr := Suc n, pool_free := [n], max_size := Suc n, prob_pool_max_size := Suc n,
      reaper_budget := 2000, prob_count := of_nat n, probation_list := [0..<n], probation_hand := None,
      kvmap := (\<lambda>k. if length k < n \<and> k = replicate (length k) (CHR ''x'') then Some (length k) else None)\<rparr>"

lemma probation_store_inv:
  assumes "Suc n < 2 ^ 63"
  shows "store_inv (probation_store n)"
proof -
  note r = racing_store_fields
  have m: "ran (kvmap (probation_store n)) = {..<n}"
  proof (rule set_eqI)
    fix a
    have "a \<in> ran (kvmap (probation_store n))" if "a < n"
      by (rule ranI [where a = "replicate a (CHR ''x'')"]) (use that in \<open>simp add: probation_store_def\<close>)
    moreover have "a < n" if "a \<in> ran (kvmap (probation_store n))"
      using that by (auto simp: ran_def probation_store_def split: if_splits)
    ultimately show "a \<in> ran (kvmap (probation_store n)) \<longleftrightarrow> a \<in> {..<n}" by auto
  qed
  have "mem_inv {..<n} (probation_store n)"
    using assms by (auto simp: mem_inv_def probation_store_def r fresh_probation_def)
  moreover have "lists_inv {..<n} [] (probation_store n)"
    by (auto simp: lists_inv_def sieve_inv_def hand_in_def probation_store_def r fresh_probation_def)
  moreover have "count_inv [] 0 (probation_store n)"
    by (simp add: count_inv_def probation_store_def r)
  moreover have "keyed (probation_store n)"
    by (auto simp: keyed_def probation_store_def split: if_splits)
  moreover have "leaks (probation_store n) = 0" "sieve_policy (probation_store n)" by (simp_all add: leaks_def probation_store_def r)
  ultimately show ?thesis by (simp add: kv_inv_def pool_inv_def m)
qed

theorem reaper_yield_fault_witness:
  "fault (sh_store (run_turns id [Call (SetReq ''a'' ''1''), Call (SetReq ''b'' ''2''), Resume 0 5 5, Resume 1 5 5,
      Resume 1 5 5, Resume 0 5 5] (idle_shard (probation_store 1000))))"
proof (rule reaper_yield_fault)
  show "store_inv (probation_store 1000)" by (rule probation_store_inv) simp
qed (simp_all add: probation_store_def racing_store_fields del: upt_rec_numeral)

end
