(* ===== verification/Metrics_Logger.thy ===== *)
theory Metrics_Logger
  imports Config_Loader
begin

text \<open>
  The samples and rates of the performance logger, \<open>src/metrics_logger.cc\<close>: what it reads from the files
  of the kernel, and the differences it forms. The file system is a function from paths to
  contents. Differences are taken on 64-bit counters and then converted to \<open>double\<close>.
\<close>

subsection \<open>Formatted input\<close>

text \<open>
  What the logger uses of \<open>std::istream\<close>: the characters that are left and whether the stream is
  good. A number that cannot be read is 0.
\<close>

record istream =
  is_text :: string
  is_good :: bool

definition open_file :: "(string \<Rightarrow> string option) \<Rightarrow> string \<Rightarrow> istream" where
  "open_file files path =
     (case files path of None \<Rightarrow> \<lparr>is_text = [], is_good = False\<rparr> | Some t \<Rightarrow> \<lparr>is_text = t, is_good = True\<rparr>)"

definition skip_ws :: "istream \<Rightarrow> istream" where
  "skip_ws f = f\<lparr>is_text := dropWhile is_space (is_text f)\<rparr>"

definition read_word :: "istream \<Rightarrow> string \<times> istream" where
  "read_word f =
     (let f1 = skip_ws f; w = takeWhile (\<lambda>c. \<not> is_space c) (is_text f1)
      in if \<not> is_good f \<or> w = [] then ([], f1\<lparr>is_good := False\<rparr>)
         else (w, f1\<lparr>is_text := drop (length w) (is_text f1)\<rparr>))"

definition read_number :: "istream \<Rightarrow> (bool \<times> nat) option \<times> istream" where
  "read_number f =
     (let f1 = skip_ws f; t = is_text f1;
          sg = (if signed_text t then 1 else 0);
          ds = takeWhile is_digit (drop sg t)
      in if \<not> is_good f \<or> ds = [] then (None, f1\<lparr>is_good := False\<rparr>)
         else (Some (sg = 1 \<and> hd t = CHR ''-'', digits_value 0 ds), f1\<lparr>is_text := drop (sg + length ds) t\<rparr>))"

text \<open>An unsigned number out of range is the largest one and spoils the stream; a minus sign wraps.\<close>

definition read_u64 :: "istream \<Rightarrow> u64 \<times> istream" where
  "read_u64 f =
     (case read_number f of
        (None, f1) \<Rightarrow> (0, f1)
      | (Some (neg, v), f1) \<Rightarrow>
          if 2 ^ 64 \<le> v then (- 1, f1\<lparr>is_good := False\<rparr>) else (if neg then - of_nat v else of_nat v, f1))"

definition read_int :: "istream \<Rightarrow> int \<times> istream" where
  "read_int f =
     (case read_number f of
        (None, f1) \<Rightarrow> (0, f1)
      | (Some (neg, v), f1) \<Rightarrow>
          let i = (if neg then - int v else int v)
          in if i < - (2 ^ 31) then (- (2 ^ 31), f1\<lparr>is_good := False\<rparr>)
             else if 2 ^ 31 \<le> i then (2 ^ 31 - 1, f1\<lparr>is_good := False\<rparr>) else (i, f1))"

definition ignore_line :: "istream \<Rightarrow> istream" where
  "ignore_line f = f\<lparr>is_text := drop 1 (dropWhile (\<lambda>c. c \<noteq> CHR 0x0A) (is_text f))\<rparr>"

subsection \<open>Processor time\<close>

record cpu_sample =
  cs_user :: u64
  cs_nice :: u64
  cs_sys :: u64
  cs_idle :: u64
  cs_iowait :: u64
  cs_irq :: u64
  cs_softirq :: u64
  cs_steal :: u64

definition read_cpu_procstat :: "(string \<Rightarrow> string option) \<Rightarrow> cpu_sample" where
  "read_cpu_procstat files =
     (let f = open_file files ''/proc/stat'';
          (tag, f0) = read_word f;
          (user, f1) = read_u64 f0; (nice, f2) = read_u64 f1; (sys, f3) = read_u64 f2; (idle, f4) = read_u64 f3;
          (iowait, f5) = read_u64 f4; (irq, f6) = read_u64 f5; (softirq, f7) = read_u64 f6; (steal, f8) = read_u64 f7
      in \<lparr>cs_user = user, cs_nice = nice, cs_sys = sys, cs_idle = idle, cs_iowait = iowait, cs_irq = irq,
          cs_softirq = softirq, cs_steal = steal\<rparr>)"

record cpu_pct =
  cp_user :: double
  cp_sys :: double

definition to_double :: "(double \<Rightarrow> double) \<Rightarrow> u64 \<Rightarrow> double" where
  "to_double rnd w = rnd (of_nat (unat w))"

definition diff_cpu :: "(double \<Rightarrow> double) \<Rightarrow> cpu_sample \<Rightarrow> cpu_sample \<Rightarrow> cpu_pct" where
  "diff_cpu rnd a b =
     (let du = (cs_user b - cs_user a) + (cs_nice b - cs_nice a);
          ds = (cs_sys b - cs_sys a) + (cs_irq b - cs_irq a) + (cs_softirq b - cs_softirq a);
          di = (cs_idle b - cs_idle a) + (cs_iowait b - cs_iowait a);
          tot = to_double rnd (du + ds + di + (cs_steal b - cs_steal a))
      in if 0 < tot
         then \<lparr>cp_user = rnd (rnd (100 * to_double rnd du) / tot), cp_sys = rnd (rnd (100 * to_double rnd ds) / tot)\<rparr>
         else \<lparr>cp_user = 0, cp_sys = 0\<rparr>)"

subsection \<open>The run queue\<close>

record runq_sample =
  rs_psi10 :: double
  rs_psi60 :: double
  rs_psi300 :: double
  rs_procs_running :: int

text \<open>\<open>std::stod\<close> may throw; the exception leaves \<open>read_runq\<close>.\<close>

definition parse_psi :: "(double \<Rightarrow> double) \<Rightarrow> (string \<Rightarrow> (double \<times> nat) option) \<Rightarrow> string \<Rightarrow> double option" where
  "parse_psi rnd other s =
     (case find_char (CHR ''='') s of None \<Rightarrow> Some 0 | Some pos \<Rightarrow> map_option fst (stod rnd other (drop (pos + 1) s)))"

lemma read_word_shorter: "read_word f = (w, g) \<Longrightarrow> w \<noteq> [] \<Longrightarrow> length (is_text g) < length (is_text f)"
proof -
  assume a: "read_word f = (w, g)" "w \<noteq> []"
  let ?t = "dropWhile is_space (is_text f)"
  have "w = takeWhile (\<lambda>c. \<not> is_space c) ?t" "is_text g = drop (length w) ?t"
    using a by (auto simp: read_word_def skip_ws_def Let_def split: if_splits)
  moreover have "length ?t \<le> length (is_text f)" by (rule length_dropWhile_le)
  moreover have "length w \<le> length ?t" using \<open>w = takeWhile _ ?t\<close> length_takeWhile_le by metis
  moreover have "0 < length w" using a(2) by simp
  ultimately have "length (is_text g) = length ?t - length w" "0 < length w" "length w \<le> length ?t" "length ?t \<le> length (is_text f)"
    by (simp_all only: length_drop)
  then show ?thesis by linarith
qed

lemma ignore_line_shorter: "length (is_text (ignore_line f)) \<le> length (is_text f)"
  using length_dropWhile_le [of "\<lambda>c. c \<noteq> CHR 0x0A" "is_text f"] by (simp add: ignore_line_def)

function procs_running :: "istream \<Rightarrow> int" where
  "procs_running f =
     (case read_word f of
        (key, f1) \<Rightarrow>
          if key = [] then 0
          else if key = ''procs_running'' then fst (read_int f1)
          else procs_running (ignore_line f1))"
  by pat_completeness auto
termination
proof (relation "measure (\<lambda>f. length (is_text f))", goal_cases)
  case (2 f key f1)
  then have "length (is_text f1) < length (is_text f)" using read_word_shorter [of f key f1] by simp
  then show ?case using ignore_line_shorter [of f1] by simp
qed simp

declare procs_running.simps [simp del]

definition read_runq ::
  "(double \<Rightarrow> double) \<Rightarrow> (string \<Rightarrow> (double \<times> nat) option) \<Rightarrow> (string \<Rightarrow> string option) \<Rightarrow> runq_sample option" where
  "read_runq rnd other files =
     (let psi = (case files ''/proc/pressure/cpu'' of
                   None \<Rightarrow> Some (0, 0, 0)
                 | Some t \<Rightarrow>
                     let (kind, f1) = read_word \<lparr>is_text = t, is_good = True\<rparr>; (avg10, f2) = read_word f1;
                         (avg60, f3) = read_word f2; (avg300, f4) = read_word f3
                     in case parse_psi rnd other avg10 of
                          None \<Rightarrow> None
                        | Some a \<Rightarrow>
                            (case parse_psi rnd other avg60 of
                               None \<Rightarrow> None
                             | Some b \<Rightarrow> map_option (\<lambda>c. (a, b, c)) (parse_psi rnd other avg300)))
      in case psi of
           None \<Rightarrow> None
         | Some (a, b, c) \<Rightarrow>
             Some \<lparr>rs_psi10 = a, rs_psi60 = b, rs_psi300 = c, rs_procs_running = procs_running (open_file files ''/proc/stat'')\<rparr>)"

subsection \<open>Network\<close>

record net_sample =
  ns_rx_pkts :: u64
  ns_tx_pkts :: u64
  ns_rx_drop :: u64
  ns_tx_drop :: u64

definition read_u64_file :: "(string \<Rightarrow> string option) \<Rightarrow> string \<Rightarrow> u64" where
  "read_u64_file files p = fst (read_u64 (open_file files p))"

fun route_iface :: "string list \<Rightarrow> string" where
  "route_iface [] = ''eth0''"
| "route_iface (line # lines) =
     (let (iface, f1) = read_word \<lparr>is_text = line, is_good = True\<rparr>; (dest, f2) = read_word f1
      in if dest = ''00000000'' then iface else route_iface lines)"

definition default_iface :: "(string \<Rightarrow> string option) \<Rightarrow> string" where
  "default_iface files =
     (case files ''/proc/net/route'' of None \<Rightarrow> route_iface [] | Some t \<Rightarrow> route_iface (drop 1 (getlines t)))"

definition read_net :: "(string \<Rightarrow> string option) \<Rightarrow> string \<Rightarrow> net_sample" where
  "read_net files iface =
     (let base = ''/sys/class/net/'' @ iface @ ''/statistics/''
      in \<lparr>ns_rx_pkts = read_u64_file files (base @ ''rx_packets''), ns_tx_pkts = read_u64_file files (base @ ''tx_packets''),
          ns_rx_drop = read_u64_file files (base @ ''rx_dropped''), ns_tx_drop = read_u64_file files (base @ ''tx_dropped'')\<rparr>)"

record net_rate =
  nr_rx_pps :: double
  nr_tx_pps :: double
  nr_rx_drop_s :: double
  nr_tx_drop_s :: double

definition diff_net :: "(double \<Rightarrow> double) \<Rightarrow> net_sample \<Rightarrow> net_sample \<Rightarrow> double \<Rightarrow> net_rate" where
  "diff_net rnd a b secs =
     (if 0 < secs
      then \<lparr>nr_rx_pps = rnd (to_double rnd (ns_rx_pkts b - ns_rx_pkts a) / secs),
            nr_tx_pps = rnd (to_double rnd (ns_tx_pkts b - ns_tx_pkts a) / secs),
            nr_rx_drop_s = rnd (to_double rnd (ns_rx_drop b - ns_rx_drop a) / secs),
            nr_tx_drop_s = rnd (to_double rnd (ns_tx_drop b - ns_tx_drop a) / secs)\<rparr>
      else \<lparr>nr_rx_pps = 0, nr_tx_pps = 0, nr_rx_drop_s = 0, nr_tx_drop_s = 0\<rparr>)"


subsection \<open>Properties\<close>

definition counted_up :: "cpu_sample \<Rightarrow> cpu_sample \<Rightarrow> bool" where
  "counted_up a b \<longleftrightarrow> cs_user a \<le> cs_user b \<and> cs_nice a \<le> cs_nice b \<and> cs_sys a \<le> cs_sys b \<and> cs_idle a \<le> cs_idle b
     \<and> cs_iowait a \<le> cs_iowait b \<and> cs_irq a \<le> cs_irq b \<and> cs_softirq a \<le> cs_softirq b \<and> cs_steal a \<le> cs_steal b"

definition ticks :: "cpu_sample \<Rightarrow> nat" where
  "ticks s = unat (cs_user s) + unat (cs_nice s) + unat (cs_sys s) + unat (cs_idle s) + unat (cs_iowait s) + unat (cs_irq s)
     + unat (cs_softirq s) + unat (cs_steal s)"

lemma unat_add_bounded: "unat (x :: u64) + unat y < 2 ^ 64 \<Longrightarrow> unat (x + y) = unat x + unat y"
  by (simp add: unat_word_ariths)

lemma rounded_percent:
  assumes "rounding rnd" "d \<le> t" "t \<le> 2 ^ 46" "0 < t"
  shows "0 \<le> rnd (rnd (100 * rnd (of_nat d)) / rnd (of_nat t))" "rnd (rnd (100 * rnd (of_nat d)) / rnd (of_nat t)) \<le> 100"
proof -
  have e: "rnd (of_nat n) = of_nat n" if "n \<le> 100 * 2 ^ 46" for n using that by (intro rounding_nat [OF assms(1)]) simp
  have "100 * (of_nat d :: rat) = of_nat (100 * d)" by simp
  then have x: "rnd (100 * rnd (of_nat d)) / rnd (of_nat t) = 100 * of_nat d / of_nat t"
    using assms(2,3) e [of d] e [of t] e [of "100 * d"] by simp
  have "(of_nat d :: rat) \<le> of_nat t" using assms(2) by simp
  then have "100 * (of_nat d :: rat) / of_nat t \<le> of_nat 100" using assms(4) by (simp add: divide_le_eq)
  then show "rnd (rnd (100 * rnd (of_nat d)) / rnd (of_nat t)) \<le> 100"
    using rounding_mono [OF assms(1)] e [of 100] unfolding x by fastforce
  have "of_nat 0 \<le> 100 * (of_nat d :: rat) / of_nat t" by simp
  then show "0 \<le> rnd (rnd (100 * rnd (of_nat d)) / rnd (of_nat t))"
    using rounding_mono [OF assms(1)] e [of 0] unfolding x by fastforce
qed

text \<open>
  The processor percentages in the log are percentages: for two samples of counters that
  only count up, at most 2^46 ticks apart, both lie between 0 and 100, with the rounding of
  every operation counted in.
\<close>

theorem cpu_percentages:
  assumes "rounding rnd" "counted_up a b" "ticks b - ticks a \<le> 2 ^ 46"
  shows "0 \<le> cp_user (diff_cpu rnd a b) \<and> cp_user (diff_cpu rnd a b) \<le> 100
    \<and> 0 \<le> cp_sys (diff_cpu rnd a b) \<and> cp_sys (diff_cpu rnd a b) \<le> 100"
proof -
  define du ds di st where "du = (cs_user b - cs_user a) + (cs_nice b - cs_nice a)"
    and "ds = (cs_sys b - cs_sys a) + (cs_irq b - cs_irq a) + (cs_softirq b - cs_softirq a)"
    and "di = (cs_idle b - cs_idle a) + (cs_iowait b - cs_iowait a)"
    and "st = cs_steal b - cs_steal a"
  have d: "unat (cs_user b - cs_user a) + unat (cs_nice b - cs_nice a) + unat (cs_sys b - cs_sys a) + unat (cs_idle b - cs_idle a)
      + unat (cs_iowait b - cs_iowait a) + unat (cs_irq b - cs_irq a) + unat (cs_softirq b - cs_softirq a) + unat st \<le> 2 ^ 46"
    using assms(2,3) unfolding counted_up_def ticks_def st_def by (simp add: unat_sub word_le_nat_alt)
  have u: "unat du = unat (cs_user b - cs_user a) + unat (cs_nice b - cs_nice a)"
    "unat di = unat (cs_idle b - cs_idle a) + unat (cs_iowait b - cs_iowait a)"
    "unat (cs_sys b - cs_sys a + (cs_irq b - cs_irq a)) = unat (cs_sys b - cs_sys a) + unat (cs_irq b - cs_irq a)"
    unfolding du_def di_def by (rule unat_add_bounded, use d in simp)+
  have s: "unat ds = unat (cs_sys b - cs_sys a) + unat (cs_irq b - cs_irq a) + unat (cs_softirq b - cs_softirq a)"
    unfolding ds_def using d u(3) by (subst unat_add_bounded) simp_all
  have "unat (du + ds) = unat du + unat ds" by (rule unat_add_bounded) (use d u s in simp)
  moreover from this have "unat (du + ds + di) = unat du + unat ds + unat di" using d u s by (subst unat_add_bounded) simp_all
  moreover from this have "unat (du + ds + di + st) = unat du + unat ds + unat di + unat st" using d u s by (subst unat_add_bounded) simp_all
  ultimately have t: "unat (du + ds + di + st) \<le> 2 ^ 46" "unat du \<le> unat (du + ds + di + st)" "unat ds \<le> unat (du + ds + di + st)"
    using d u s by simp_all
  have z: "rnd (of_nat 0) = of_nat 0" using rounding_nat [OF assms(1), of 0] by simp
  have e: "diff_cpu rnd a b =
     (if 0 < rnd (of_nat (unat (du + ds + di + st)))
      then \<lparr>cp_user = rnd (rnd (100 * rnd (of_nat (unat du))) / rnd (of_nat (unat (du + ds + di + st)))),
            cp_sys = rnd (rnd (100 * rnd (of_nat (unat ds))) / rnd (of_nat (unat (du + ds + di + st))))\<rparr>
      else \<lparr>cp_user = 0, cp_sys = 0\<rparr>)"
    by (simp only: diff_cpu_def Let_def to_double_def du_def ds_def di_def st_def)
  show ?thesis
  proof (cases "unat (du + ds + di + st) = 0")
    case True
    then have "rnd (of_nat (unat (du + ds + di + st))) = 0" by (simp only: z)
    then show ?thesis unfolding e by simp
  next
    case False
    then have p: "0 < unat (du + ds + di + st)" by simp
    show ?thesis
      unfolding e using rounded_percent [OF assms(1) t(2,1) p] rounded_percent [OF assms(1) t(3,1) p] by simp
  qed
qed

definition example_ticks :: "u64 \<Rightarrow> cpu_sample" where
  "example_ticks n = \<lparr>cs_user = 3 * n, cs_nice = 0, cs_sys = n, cs_idle = 4 * n, cs_iowait = n, cs_irq = 0, cs_softirq = 0, cs_steal = 1\<rparr>"

theorem cpu_percentages_witness:
  "0 \<le> cp_user (diff_cpu id (example_ticks 10) (example_ticks 15)) \<and> cp_user (diff_cpu id (example_ticks 10) (example_ticks 15)) \<le> 100"
proof -
  have "counted_up (example_ticks 10) (example_ticks 15)" "ticks (example_ticks 15) - ticks (example_ticks 10) \<le> 2 ^ 46"
    by (simp_all add: counted_up_def ticks_def example_ticks_def)
  then show ?thesis using cpu_percentages [OF rounding_id] by blast
qed

end
