(* ===== verification/Tcp_Server.thy ===== *)
theory Tcp_Server
  imports Commands
begin

text \<open>
  The older server \<open>tcp_server\<close> of \<open>include/server.hh\<close> and \<open>src/server.cc\<close>, which the build leaves out, with its
  accept loop (its sessions are \<open>handle_session\<close>), and the scope guard of \<open>src/scop_exit.cc\<close>.
\<close>

subsection \<open>The accept loop\<close>

record tcp_server =
  ts_port :: u16
  ts_running :: bool

definition new_tcp_server :: "u16 \<Rightarrow> tcp_server" where
  "new_tcp_server port = \<lparr>ts_port = port, ts_running = False\<rparr>"

text \<open>
  Every iteration asks the abort source first. What \<open>accept\<close> resolves to is the bytes that the peer is
  going to send, or an exception. The loop yields the sessions it starts.
\<close>

fun tcp_accept_loop :: "(bool \<times> string list option) list \<Rightarrow> string list list" where
  "tcp_accept_loop [] = []"
| "tcp_accept_loop ((abort_requested, r) # rs) =
     (if abort_requested then []
      else case r of Some peer \<Rightarrow> peer # tcp_accept_loop rs | None \<Rightarrow> tcp_accept_loop rs)"

text \<open>The abort source of \<open>start\<close> is a static of its own, which nothing ever triggers.\<close>

definition tcp_start :: "string list option list \<Rightarrow> tcp_server \<Rightarrow> string list list \<times> tcp_server" where
  "tcp_start accepts srv = (tcp_accept_loop (map (Pair False) accepts), srv\<lparr>ts_running := True\<rparr>)"

definition tcp_stop :: "tcp_server \<Rightarrow> tcp_server" where
  "tcp_stop srv = srv"

text \<open>Nothing ends the loop: every connection is accepted, before and after \<open>stop\<close>.\<close>

lemma tcp_start_accepts_all: "fst (tcp_start accepts srv) = map the (filter (\<lambda>r. r \<noteq> None) accepts)"
  by (induction accepts) (auto simp: tcp_start_def split: option.split)

lemma tcp_stop_keeps_accepting:
  "fst (tcp_start (before @ after) srv) = fst (tcp_start before srv) @ fst (tcp_start after (tcp_stop (snd (tcp_start before srv))))"
  by (simp add: tcp_start_accepts_all)

text \<open>Each session answers the commands of its peer one after the other.\<close>

lemma tcp_session_spec:
  assumes "Some peer \<in> set accepts" "concat peer = stream cmds" "[] \<notin> set peer"
    "\<forall>cmd \<in> set cmds. cmd \<noteq> [] \<and> int (length cmd) \<le> MAX_ARGS \<and> (\<forall>b \<in> set cmd. int (length b) \<le> MAX_BULK)"
  shows "peer \<in> set (fst (tcp_start accepts srv)) \<and> handle_session rt here mos \<lparr>rd_buf = [], rd_off = 0\<rparr> peer [] cl = session_spec rt here mos cmds [] cl"
proof
  show "peer \<in> set (fst (tcp_start accepts srv))" using assms(1) by (force simp: tcp_start_accepts_all)
  have "rd_ok \<lparr>rd_buf = [], rd_off = 0\<rparr> peer" "pending \<lparr>rd_buf = [], rd_off = 0\<rparr> peer = stream cmds"
    using assms(2,3) by (simp_all add: rd_ok_def pending_def rd_view_def)
  then show "handle_session rt here mos \<lparr>rd_buf = [], rd_off = 0\<rparr> peer [] cl = session_spec rt here mos cmds [] cl"
    using handle_session_spec assms(4) by blast
qed

subsection \<open>Scope guards\<close>

record 'f scope_exit =
  se_fn :: "'f option"
  se_active :: bool

definition make_scope_exit :: "'f option \<Rightarrow> 'f scope_exit" where
  "make_scope_exit fn = \<lparr>se_fn = fn, se_active = True\<rparr>"

text \<open>Moving leaves an unspecified function behind, but an inactive guard.\<close>

definition move_scope_exit :: "'f option \<Rightarrow> 'f scope_exit \<Rightarrow> 'f scope_exit \<times> 'f scope_exit" where
  "move_scope_exit moved_from other =
     (\<lparr>se_fn = se_fn other, se_active = se_active other\<rparr>, other\<lparr>se_fn := moved_from, se_active := False\<rparr>)"

definition destroy_scope_exit :: "'f scope_exit \<Rightarrow> 'f list" where
  "destroy_scope_exit g = (if se_active g then (case se_fn g of None \<Rightarrow> [] | Some f \<Rightarrow> [f]) else [])"

text \<open>However often a guard is moved, its function runs exactly once when all the guards are gone.\<close>

fun move_chain :: "'f option list \<Rightarrow> 'f scope_exit \<Rightarrow> 'f scope_exit list" where
  "move_chain [] g = [g]"
| "move_chain (u # us) g = (case move_scope_exit u g of (g1, old) \<Rightarrow> old # move_chain us g1)"

lemma scope_exit_once: "concat (map destroy_scope_exit (move_chain us (make_scope_exit (Some f)))) = [f]"
proof -
  have "concat (map destroy_scope_exit (move_chain us g)) = destroy_scope_exit g" for g
    by (induction us arbitrary: g) (simp_all add: move_scope_exit_def destroy_scope_exit_def)
  then show ?thesis by (simp add: make_scope_exit_def destroy_scope_exit_def)
qed

end
