(* ===== verification/Spec2Isabelle.thy ===== *)
theory Spec2Isabelle
  imports System Schedules Metrics_Logger Tcp_Server
begin

text \<open>
  \<^bold>\<open>A verification library for ShunyaKV\<close>, a sharded in-memory key-value server that speaks RESP. The
  program runs one shard per core; every shard has a store, a service, a socket server and its
  connections. A client may connect to any shard; a request for a key is forwarded to the
  shard that owns the key.

  \<^bold>\<open>Theories, from the bottom up\<close> (paths are relative to \<open>src/\<close>)

  \<^item> \<open>Prelude\<close>: machine words, intrusive lists with a hand (locale \<open>hand_list\<close>), shared lemmas.
  \<^item> \<open>Entry\<close>: \<open>include/ttl\<close>. A cache entry, the heap of entries (an explicit map from addresses, with a
    sticky fault flag for the use of a dead entry), the TTL modes. Shown: the tiered mode computes min(base * 2^heat,
    max) without overflow.
  \<^item> \<open>Sieve\<close>: \<open>include/eviction\<close>, \<open>src/eviction/sieve_policy.cc\<close>. Shown: the hand stays in the list; one call of \<open>evict\<close> removes
    exactly the first evictable entries from the hand within its budget; two calls always find a victim.
  \<^item> \<open>Db_Config\<close>, \<open>Pool\<close>: \<open>include/dbconfig.hh\<close>, \<open>include/pool\<close>, \<open>src/pool/object_pool.cc\<close>. Shown: start-up fills the pool
    within the memory budget; acquire, release, promotion and the reaper keep the lists and
    counters consistent; the reaper is first-in first-out; release wipes an entry.
  \<^item> \<open>Store\<close>, \<open>Cache\<close>: \<open>include/kv_store.hh\<close>, \<open>include/shard_stats.hh\<close>, \<open>src/kv_store.cc\<close>. Shown: any sequence of calls is free of
    faults and leaks no entry; the store refines the specification \<open>cache_step\<close>, in which SET may drop keys and
    GET is exact; what SET and GET do on each branch; how the statistics account for the entries.
  \<^item> \<open>Coroutines\<close>: \<open>src/kv_store.cc\<close>, \<open>src/pool/object_pool.cc\<close>, \<open>src/eviction/sieve_policy.cc\<close> again, cut at their suspension points: a
    call on a shard is a request and the frame in which its coroutine is suspended. Shown: every segment keeps the invariant of the
    store, for the entries that the map and the suspended calls own.
  \<^item> \<open>Interleaving\<close>, \<open>Calls\<close>, \<open>Schedules\<close>: the calls of one shard under any schedule. Shown: in a run without a fault every call takes effect
    once, between its start and its return, as the cache specification says; without a probation pool no run faults; a call that nothing
    interrupts is the operation of \<open>Store\<close>; every call finishes; with a probation pool there are schedules that fault.
  \<^item> \<open>Fnv\<close>, \<open>Hash\<close>: \<open>third_party/fnv\<close>, \<open>include/hash.hh\<close>, \<open>include/hash_wrapper.hh\<close>, \<open>include/cmd_node_info.hh\<close>,
    \<open>src/node_info_helpers.cc\<close>. Shown: the FNV code (locale \<open>octet_hash\<close>) computes the reference polynomial; every key has
    an owner among the data shards; the advertised ranges partition the hash space, and where they disagree with the owner.
  \<^item> \<open>Router_Metrics\<close>, \<open>Service\<close>: \<open>include/router_metrics.hh\<close>, \<open>include/router.hh\<close>, \<open>src/router.cc\<close>. Shown: a quantile of the histogram is within a factor of two;
    merging histograms is recording all their latencies.
  \<^item> \<open>Text\<close>, \<open>Resp_Writer\<close>, \<open>Resp_Parser\<close>, \<open>Resp_Reader\<close>: \<open>include/proto_helpers.hh\<close>, \<open>include/protocol.hh\<close>, \<open>src/resp/resp_writer.cc\<close>,
    \<open>src/resp/resp_parser.cc\<close>. Shown: commands survive printing and parsing; frame lengths are found
    incrementally; the reader does not depend on how the input is cut into chunks.
  \<^item> \<open>Resp_Stream\<close>, \<open>Resp_Session\<close>: \<open>src/resp/resp_stream_processor.cc\<close>. Shown: the incremental parser stays well formed, never throws,
    terminates, hands out exactly the commands sent, and recovers from a line of garbage.
  \<^item> \<open>Cache_Server\<close>: the contract of anything that answers requests like a cache (locale \<open>cache_server\<close>), interpreted for one
    store and, in \<open>Commands\<close>, for the cluster.
  \<^item> \<open>Info\<close>, \<open>Commands\<close>: \<open>src/cmd_info.cc\<close>, \<open>src/cmd_get.cc\<close>, \<open>src/cmd_set.cc\<close>, \<open>src/cmd_quit.cc\<close>, \<open>src/cmd_node_info.cc\<close>, \<open>src/commands.cc\<close>.
    Shown: the cluster answers like one cache, whichever shard a request arrives on; a GET never
    returns anything but the last write; malformed requests change nothing.
  \<^item> \<open>Conn\<close>: \<open>src/conn/socket_handler.cc\<close>, \<open>src/conn/resp_handler.cc\<close>, \<open>src/conn/LineEchoHandler.cc\<close>. The two coroutines of a connection as
    a step relation (locale \<open>request_source\<close> for what it needs of an extractor). Shown: responses in order, at most 1024 pending,
    finite runs, no deadlock, and what a client receives; also that a failed write leaves the reader behind.
  \<^item> \<open>Socket_Server\<close>: \<open>src/conn/socket_server.cc\<close>, \<open>src/conn/connections.cc\<close>, \<open>src/conn/orchestrator.cc\<close>. Shown: connection list, counters and gate
    agree at every moment; a stopped server can be drained.
  \<^item> \<open>Config_Loader\<close>: \<open>src/config_loader.cc\<close>. Shown: a configuration file is read as the settings it was written from.
  \<^item> \<open>Server_Main\<close>: \<open>src/main.cc\<close>. Shown: the percentiles of the shutdown report are those of all requests.
  \<^item> \<open>System\<close>: all of this together. Shown: for any number of clients and any interleaving of
    connections, accept loops and shards, the server is one cache.
  \<^item> \<open>Metrics_Logger\<close>: \<open>src/metrics_logger.cc\<close>. Shown: the processor percentages are between 0 and 100.
  \<^item> \<open>Tcp_Server\<close>: \<open>src/server.cc\<close>, \<open>src/scop_exit.cc\<close>, which the build leaves out.

  \<^bold>\<open>How the model corresponds to the code\<close>

  A class is a record, extended as the store contains the pool, the pool the policy and the policy the heap. A method is a
  function that returns the new record. A coroutine of a shard runs without interruption
  between suspension points; where an interleaving matters (a connection, an accept loop, the
  whole server) it is a step relation or a list of turns, otherwise a call is one step. In \<open>Commands\<close>, \<open>Conn\<close> and \<open>System\<close> a request
  takes effect when it is queued: requests of one connection to one shard keep their order, as the message
  queues between shards do. A SET that is suspended on its shard may take effect later than that, even after a GET that was
  sent after it (\<open>get_overtakes_set\<close> in \<open>Schedules\<close>); theory \<open>Coroutines\<close> and those above it have these schedules for one shard. Time, memory statistics, the size of an entry, the number of shards and the file system
  are arguments. A \<open>double\<close> is a rational with the rounding as an argument. Undefined
  behaviour and exceptions are flags or values of sum and option types.

  \<^bold>\<open>Bounds and fuel\<close>

  Machine integers keep their width. Theorems on a store assume that fewer than 2^63 entries were
  ever allocated, those on a stream that fewer than 2^32 bytes are buffered, which is where the offsets of the stream parser
  would wrap. \<open>handle_session\<close> takes the list of the moments at which its commands run as fuel and yields None when
  it is too short; every other loop is total.

  \<^bold>\<open>Not modelled\<close>

  The event loop, sockets, TLS and signals (Seastar); the log output; \<open>start_perf_logger\<close>, which calls a function that no
  source declares; the macros of \<open>include/hotpath_metrics.hh\<close>, which are empty in the default build; the parts that are commented out
  or only declared (\<open>src/service.cc\<close>, \<open>src/server_debug.cc\<close>, \<open>include/wal.hh\<close>, \<open>include/kv_types.hh\<close>). In \<open>std::stod\<close> hexadecimal numbers,
  infinities and NaN are left to an argument. The suspension points of
  \<open>Coroutines\<close> are not composed with the connections of \<open>System\<close>.
\<close>

end
